(* ===== verification/Prelude.thy ===== *)
theory Prelude
  imports Main "HOL-Library.Word" "HOL-Library.Monad_Syntax"
begin

text \<open>
  Shared vocabulary of the development: the C scalar types of \<^verbatim>\<open>types.h\<close> as fixed-width
  words, the byte-addressed memory that the kernel sees through its direct map, little-endian
  loads and stores, and the lemmas about them that the component theories use.

  A fallible kernel operation is a function into \<open>option\<close>; \<open>None\<close> is a call of \<open>panic\<close>.
  Operations that change state take the state as their last argument and return it updated.
\<close>

unbundle bit_operations_syntax

named_theorems mem_simps \<open>reads of memory after writes\<close>
named_theorems layout \<open>numeric constants of the kernel's headers\<close>

section \<open>Scalar types\<close>

type_synonym byte = "8 word"
type_synonym u16 = "16 word"
type_synonym u32 = "32 word"
type_synonym u64 = "64 word"
type_synonym addr = "64 word"
type_synonym memory = "addr \<Rightarrow> byte"

text \<open>A C \<open>int\<close> read from a 64-bit register: truncation, then two's complement.\<close>

definition int_of_reg :: "u64 \<Rightarrow> int" where
  "int_of_reg r = sint (ucast r :: u32)"

text \<open>The converse: an \<open>int\<close> result as the kernel returns it in \<open>rax\<close>.\<close>

definition reg_of_int :: "int \<Rightarrow> u64" where
  "reg_of_int i = word_of_int i"

section \<open>Byte memory\<close>

definition mread :: "memory \<Rightarrow> addr \<Rightarrow> nat \<Rightarrow> byte list" where
  "mread m a n = map (\<lambda>i. m (a + of_nat i)) [0..<n]"

definition mwrite :: "memory \<Rightarrow> addr \<Rightarrow> byte list \<Rightarrow> memory" where
  "mwrite m a bs = (\<lambda>x. if unat (x - a) < length bs then bs ! unat (x - a) else m x)"

definition mfill :: "memory \<Rightarrow> addr \<Rightarrow> byte \<Rightarrow> nat \<Rightarrow> memory" where
  "mfill m a c n = (\<lambda>x. if unat (x - a) < n then c else m x)"

definition mcopy :: "memory \<Rightarrow> addr \<Rightarrow> addr \<Rightarrow> nat \<Rightarrow> memory" where
  "mcopy m d s n = (\<lambda>x. if unat (x - d) < n then m (s + (x - d)) else m x)"

text \<open>Two byte ranges of the 64-bit address space that do not meet.\<close>

definition apart :: "addr \<Rightarrow> nat \<Rightarrow> addr \<Rightarrow> nat \<Rightarrow> bool" where
  "apart a n b k \<longleftrightarrow> n \<le> unat (b - a) \<and> k \<le> unat (a - b)"

section \<open>Little-endian encoding\<close>

primrec from_le :: "byte list \<Rightarrow> 'a::len word" where
  "from_le [] = 0"
| "from_le (b # bs) = ucast b OR push_bit 8 (from_le bs)"

primrec to_le :: "nat \<Rightarrow> 'a::len word \<Rightarrow> byte list" where
  "to_le 0 w = []"
| "to_le (Suc n) w = ucast w # to_le n (drop_bit 8 w)"

definition ld16 :: "memory \<Rightarrow> addr \<Rightarrow> u16" where
  "ld16 m a = from_le (mread m a 2)"

definition ld32 :: "memory \<Rightarrow> addr \<Rightarrow> u32" where
  "ld32 m a = from_le (mread m a 4)"

definition ld64 :: "memory \<Rightarrow> addr \<Rightarrow> u64" where
  "ld64 m a = from_le (mread m a 8)"

definition st8 :: "memory \<Rightarrow> addr \<Rightarrow> byte \<Rightarrow> memory" where
  "st8 m a v = mwrite m a [v]"

definition st16 :: "memory \<Rightarrow> addr \<Rightarrow> u16 \<Rightarrow> memory" where
  "st16 m a v = mwrite m a (to_le 2 v)"

definition st32 :: "memory \<Rightarrow> addr \<Rightarrow> u32 \<Rightarrow> memory" where
  "st32 m a v = mwrite m a (to_le 4 v)"

definition st64 :: "memory \<Rightarrow> addr \<Rightarrow> u64 \<Rightarrow> memory" where
  "st64 m a v = mwrite m a (to_le 8 v)"

section \<open>Generic facts about words\<close>

lemma unat_sub_self_add [simp]: "unat ((a::'a::len word) + b - a) = unat b"
  by simp

lemma unat_of_nat_small: "i < 2 ^ LENGTH('a) \<Longrightarrow> unat (of_nat i :: 'a::len word) = i"
  by (simp add: unat_of_nat take_bit_nat_eq_self_iff)

lemma len64: "LENGTH(64) = 64"
  by simp

lemma unat64_of_nat: "i < 2 ^ 64 \<Longrightarrow> unat (of_nat i :: u64) = i"
  by (rule unat_of_nat_small) simp

lemma unat_lt64: "unat (a :: u64) < 2 ^ 64"
  using unsigned_less [of a] by simp

lemma unat_sum_no_wrap: "unat (a::u64) + unat b < 2 ^ 64 \<Longrightarrow> unat (a + b) = unat a + unat b"
  by (simp add: unat_word_ariths)

section \<open>Memory lemmas\<close>

lemma length_mread [simp]: "length (mread m a n) = n"
  by (simp add: mread_def)

lemma nth_mread [simp]: "i < n \<Longrightarrow> mread m a n ! i = m (a + of_nat i)"
  by (simp add: mread_def)

lemma mread_0 [simp]: "mread m a 0 = []"
  by (simp add: mread_def)

lemma mread_Suc: "mread m a (Suc n) = m a # mread m (a + 1) n"
  by (rule nth_equalityI) (auto simp: nth_Cons algebra_simps split: nat.split)

lemma mread_add: "mread m a (n + k) = mread m a n @ mread m (a + of_nat n) k"
  by (rule nth_equalityI) (auto simp: nth_append algebra_simps)

lemma mread_cong: "(\<And>i. i < n \<Longrightarrow> m (a + of_nat i) = m' (a + of_nat i)) \<Longrightarrow> mread m a n = mread m' a n"
  by (simp add: mread_def)

lemma mwrite_Nil [simp]: "mwrite m a [] = m"
  by (simp add: mwrite_def)

lemma mread_mwrite_same [mem_simps]:
  assumes "length bs = n" "n \<le> 2 ^ 64"
  shows "mread (mwrite m a bs) a n = bs"
proof (rule nth_equalityI)
  show "length (mread (mwrite m a bs) a n) = length bs" using assms by simp
  fix i assume "i < length (mread (mwrite m a bs) a n)"
  then have "i < n" by simp
  with assms show "mread (mwrite m a bs) a n ! i = bs ! i"
    by (simp add: mwrite_def unat64_of_nat)
qed

lemma apart_sym: "apart a n b k \<longleftrightarrow> apart b k a n"
  by (auto simp: apart_def)

lemma unat_sub_flip:
  assumes "a \<noteq> (b :: u64)"
  shows "unat (b - a) + unat (a - b) = 2 ^ 64"
proof -
  have "unat ((b - a) + (a - b)) = 0" by simp
  then have "(unat (b - a) + unat (a - b)) mod 2 ^ 64 = 0" by (simp only: unat_word_ariths len64)
  moreover have "unat (b - a) + unat (a - b) < 2 * 2 ^ 64" "0 < unat (b - a) + unat (a - b)"
    using unat_lt64 [of "b - a"] unat_lt64 [of "a - b"] assms by (simp_all add: unat_gt_0)
  ultimately show ?thesis by (auto simp: mod_eq_0_iff_dvd elim!: dvdE)
qed

text \<open>An address inside one of two disjoint ranges is outside the other.\<close>

lemma apart_outside:
  assumes "apart a n b k" "i < n"
  shows "k \<le> unat (a + of_nat i - b)"
proof -
  let ?d = "unat (a - b)" and ?e = "unat (b - a)"
  have i: "i < 2 ^ 64" using assms unat_lt64 [of "b - a"] by (simp add: apart_def)
  have "unat (a + of_nat i - b) = unat ((a - b) + of_nat i)" by (simp add: algebra_simps)
  also have "\<dots> = (?d + i) mod 2 ^ 64"
    using i by (simp add: unat_word_ariths unat64_of_nat mod_add_right_eq unat_of_nat take_bit_eq_mod)
  finally have eq: "unat (a + of_nat i - b) = (?d + i) mod 2 ^ 64" .
  have "a \<noteq> b" using assms by (auto simp: apart_def)
  from unat_sub_flip [OF this] assms have "?d + i < 2 ^ 64" by (simp add: apart_def)
  with eq assms show ?thesis by (simp add: apart_def)
qed

lemma apart_adjacent:
  assumes "0 < n" "n + k \<le> 2 ^ 64" "n < 2 ^ 64"
  shows "apart a n (a + of_nat n) k"
proof -
  have n: "unat (of_nat n :: u64) = n" using assms by (simp add: unat64_of_nat)
  then have "a \<noteq> a + of_nat n" using assms by auto
  from unat_sub_flip [OF this] n assms show ?thesis by (simp add: apart_def)
qed

lemma mread_mwrite_apart [mem_simps]:
  assumes "apart a n b (length bs)"
  shows "mread (mwrite m b bs) a n = mread m a n"
proof (rule mread_cong)
  fix i assume "i < n"
  from apart_outside [OF assms this] show "mwrite m b bs (a + of_nat i) = m (a + of_nat i)"
    by (simp add: mwrite_def)
qed

lemma mread_mfill_apart [mem_simps]:
  assumes "apart a n b k"
  shows "mread (mfill m b c k) a n = mread m a n"
proof (rule mread_cong)
  fix i assume "i < n"
  from apart_outside [OF assms this] show "mfill m b c k (a + of_nat i) = m (a + of_nat i)"
    by (simp add: mfill_def)
qed

lemma mread_mcopy_apart [mem_simps]:
  assumes "apart a n b k"
  shows "mread (mcopy m b s k) a n = mread m a n"
proof (rule mread_cong)
  fix i assume "i < n"
  from apart_outside [OF assms this] show "mcopy m b s k (a + of_nat i) = m (a + of_nat i)"
    by (simp add: mcopy_def)
qed

lemma mcopy_eq_mwrite: "n \<le> 2 ^ 64 \<Longrightarrow> mcopy m d s n = mwrite m d (mread m s n)"
  by (rule ext) (simp add: mcopy_def mwrite_def)

lemma mfill_eq_mwrite: "mfill m a c n = mwrite m a (replicate n c)"
  by (rule ext) (simp add: mfill_def mwrite_def)

lemma mread_mfill_inside [mem_simps]:
  assumes "unat (a - b) + n \<le> k" "k \<le> 2 ^ 64"
  shows "mread (mfill m b c k) a n = replicate n c"
proof (rule nth_equalityI)
  fix i assume "i < length (mread (mfill m b c k) a n)"
  then have i: "i < n" by simp
  have "unat (a + of_nat i - b) = unat ((a - b) + of_nat i)" by (simp add: algebra_simps)
  also have "\<dots> = unat (a - b) + i"
    using assms i by (subst unat_sum_no_wrap) (auto simp: unat64_of_nat)
  finally show "mread (mfill m b c k) a n ! i = replicate n c ! i"
    using i assms by (simp add: mfill_def)
qed simp

section \<open>Encoding round trips\<close>

lemma length_to_le [simp]: "length (to_le n w) = n"
  by (induction n arbitrary: w) auto

lemma bit_from_le:
  "bit (from_le bs :: 'a::len word) i \<longleftrightarrow>
     i < LENGTH('a) \<and> i < 8 * length bs \<and> bit (bs ! (i div 8)) (i mod 8)"
proof (induction bs arbitrary: i)
  case Nil
  then show ?case by simp
next
  case (Cons b bs)
  show ?case
  proof (cases "i < 8")
    case True
    then show ?thesis by (auto simp: bit_simps Cons.IH)
  next
    case False
    then have "i div 8 = Suc ((i - 8) div 8)" "i mod 8 = (i - 8) mod 8"
      by (simp_all add: le_div_geq le_mod_geq)
    with False show ?thesis
      by (auto simp: bit_simps Cons.IH dest: bit_imp_le_length)
  qed
qed

lemma nth_to_le: "i < n \<Longrightarrow> to_le n w ! i = ucast (drop_bit (8 * i) w)"
proof (induction n arbitrary: w i)
  case 0
  then show ?case by simp
next
  case (Suc n)
  show ?case
  proof (cases i)
    case 0
    then show ?thesis by simp
  next
    case (Suc j)
    with Suc.prems have "to_le n (drop_bit 8 w) ! j = ucast (drop_bit (8 * j) (drop_bit 8 w))"
      by (intro Suc.IH) simp
    with Suc show ?thesis by (simp add: add.commute)
  qed
qed

lemma from_le_to_le: "(from_le (to_le n w) :: 'a::len word) = take_bit (8 * n) (w :: 'a word)"
proof (rule bit_word_eqI)
  fix i assume i: "i < LENGTH('a)"
  have "8 * (i div 8) + i mod 8 = i" by simp
  then show "bit (from_le (to_le n w) :: 'a word) i \<longleftrightarrow> bit (take_bit (8 * n) w) i"
    using i by (auto simp: bit_from_le nth_to_le bit_simps less_mult_imp_div_less mult.commute)
qed

lemma from_le_to_le_full [simp]:
  "8 * n = LENGTH('a) \<Longrightarrow> (from_le (to_le n w) :: 'a::len word) = w"
  by (simp add: from_le_to_le)

lemma to_le_from_le [simp]:
  assumes "length bs = n" "8 * n \<le> LENGTH('a)"
  shows "to_le n (from_le bs :: 'a::len word) = bs"
proof (rule nth_equalityI)
  fix i assume "i < length (to_le n (from_le bs :: 'a word))"
  then have i: "i < n" by simp
  have "ucast (drop_bit (8 * i) (from_le bs :: 'a word)) = bs ! i"
  proof (rule bit_word_eqI)
    fix j assume j: "j < LENGTH(8)"
    then have "(8 * i + j) div 8 = i" "(8 * i + j) mod 8 = j" by simp_all
    with i j assms show "bit (ucast (drop_bit (8 * i) (from_le bs :: 'a word)) :: byte) j = bit (bs ! i) j"
      by (auto simp: bit_simps bit_from_le)
  qed
  with i show "to_le n (from_le bs :: 'a word) ! i = bs ! i"
    by (simp add: nth_to_le)
qed (use assms in simp)

lemma ld64_st64_same [mem_simps]: "ld64 (st64 m a v) a = v"
  by (simp add: ld64_def st64_def mem_simps)

lemma ld32_st32_same [mem_simps]: "ld32 (st32 m a v) a = v"
  by (simp add: ld32_def st32_def mem_simps)

lemma ld16_st16_same [mem_simps]: "ld16 (st16 m a v) a = v"
  by (simp add: ld16_def st16_def mem_simps)

lemma ld64_st64_apart [mem_simps]: "apart a 8 b 8 \<Longrightarrow> ld64 (st64 m b v) a = ld64 m a"
  by (simp add: ld64_def st64_def mem_simps)

lemma ld64_mfill_apart [mem_simps]: "apart a 8 b k \<Longrightarrow> ld64 (mfill m b c k) a = ld64 m a"
  by (simp add: ld64_def mem_simps)

section \<open>Ring buffers\<close>

text \<open>
  The rings of the kernel are indexed by free-running counters reduced modulo the size of the array,
  a power of two, so that the counters may wrap.
\<close>

lemma ring_index:
  fixes r :: "'a::len word"
  assumes "k \<le> LENGTH('a)"
  shows "unat (r + of_nat d) mod 2 ^ k = (unat r + d) mod 2 ^ k"
proof -
  have "unat (r + of_nat d) = (unat r + d) mod 2 ^ LENGTH('a)"
    by (simp add: unat_word_ariths unat_of_nat mod_simps)
  then show ?thesis using le_imp_power_dvd [OF assms, of "2::nat"] by (simp add: mod_mod_cancel)
qed

lemma add_mod_inj:
  fixes a i j n :: nat
  assumes "(a + i) mod n = (a + j) mod n" "i < n" "j < n"
  shows "i = j"
proof -
  have "int ((a + i) mod n) = int ((a + j) mod n)" using assms(1) by simp
  then have "(int a + int i) mod int n = (int a + int j) mod int n" by (simp add: zmod_int)
  from mod_diff_cong [OF this refl, of "int a"] have "int i mod int n = int j mod int n" by simp
  then show ?thesis using assms(2,3) by simp
qed

lemma ring_distinct:
  fixes r :: "'a::len word"
  assumes "k \<le> LENGTH('a)" "unat (r + of_nat i) mod 2 ^ k = unat (r + of_nat j) mod 2 ^ k" "i < 2 ^ k" "j < 2 ^ k"
  shows "i = j"
  using assms(2) unfolding ring_index [OF assms(1)] by (rule add_mod_inj) (use assms in auto)

text \<open>The distance between two counters, and one step of the leading one.\<close>

lemma word_distance: "r + of_nat (unat (e - r)) = e"
  by simp

lemma distance_Suc:
  fixes e r :: "'a::len word"
  assumes "Suc (unat (e - r)) < 2 ^ LENGTH('a)"
  shows "unat (e + 1 - r) = Suc (unat (e - r))"
proof -
  have "e + 1 - r = (e - r) + 1" by simp
  then show ?thesis using assms by (simp only:) (simp add: unat_word_ariths)
qed

lemma distance_pred:
  fixes e r :: "'a::len word"
  assumes "e \<noteq> r"
  shows "Suc (unat (e - 1 - r)) = unat (e - r)"
proof -
  have e: "e - 1 - r = (e - r) - 1" "e - r \<noteq> 0" using assms by simp_all
  have "unat (e - r) \<noteq> 0" using e(2) by (simp only: unat_eq_0) simp
  then show ?thesis unfolding e(1) unat_minus_one [OF e(2)] by simp
qed

end
