(* ===== verification/CString.thy ===== *)
theory CString
  imports Prelude
begin

text \<open>
  The string and memory routines of \<^verbatim>\<open>string.c\<close>, with the \<open>rep stosb\<close>/\<open>rep stosl\<close> helpers of
  \<^verbatim>\<open>x86.h\<close> they are built on. Routines that write take the memory and return it; routines that
  only read take each \<open>const char *\<close> as the stream of bytes found from that pointer on.

  The lemmas relate each loop to its closed form: \<open>memset\<close> to a fill, \<open>memmove\<close> to a
  simultaneous copy also when the ranges overlap, the comparison and copy routines to lists.
\<close>

section \<open>Memory fill\<close>

fun stosb :: "memory \<Rightarrow> addr \<Rightarrow> byte \<Rightarrow> nat \<Rightarrow> memory" where
  "stosb m a c 0 = m"
| "stosb m a c (Suc n) = stosb (st8 m a c) (a + 1) c n"

fun stosl :: "memory \<Rightarrow> addr \<Rightarrow> u32 \<Rightarrow> nat \<Rightarrow> memory" where
  "stosl m a w 0 = m"
| "stosl m a w (Suc n) = stosl (st32 m a w) (a + 4) w n"

definition memset :: "memory \<Rightarrow> addr \<Rightarrow> u32 \<Rightarrow> u64 \<Rightarrow> memory" where
  "memset m dst c n =
     (if dst mod 4 = 0 \<and> n mod 4 = 0 then
        let c = c AND 0xFF in
        stosl m dst (push_bit 24 c OR push_bit 16 c OR push_bit 8 c OR c) (unat (ucast (n div 4) :: u32))
      else stosb m dst (ucast c) (unat (ucast n :: u32)))"

section \<open>Memory comparison and copy\<close>

fun memcmp :: "(nat \<Rightarrow> byte) \<Rightarrow> (nat \<Rightarrow> byte) \<Rightarrow> nat \<Rightarrow> int" where
  "memcmp s1 s2 0 = 0"
| "memcmp s1 s2 (Suc n) =
     (if s1 0 \<noteq> s2 0 then uint (s1 0) - uint (s2 0)
      else memcmp (\<lambda>i. s1 (Suc i)) (\<lambda>i. s2 (Suc i)) n)"

fun memmove_down :: "memory \<Rightarrow> addr \<Rightarrow> addr \<Rightarrow> nat \<Rightarrow> memory" where
  "memmove_down m d s 0 = m"
| "memmove_down m d s (Suc n) = memmove_down (st8 m (d - 1) (m (s - 1))) (d - 1) (s - 1) n"

fun memmove_up :: "memory \<Rightarrow> addr \<Rightarrow> addr \<Rightarrow> nat \<Rightarrow> memory" where
  "memmove_up m d s 0 = m"
| "memmove_up m d s (Suc n) = memmove_up (st8 m d (m s)) (d + 1) (s + 1) n"

definition memmove :: "memory \<Rightarrow> addr \<Rightarrow> addr \<Rightarrow> u32 \<Rightarrow> memory" where
  "memmove m dst src n =
     (if src < dst \<and> src + ucast n > dst
      then memmove_down m (dst + ucast n) (src + ucast n) (unat n)
      else memmove_up m dst src (unat n))"

definition memcpy :: "memory \<Rightarrow> addr \<Rightarrow> addr \<Rightarrow> u32 \<Rightarrow> memory" where
  "memcpy m dst src n = memmove m dst src n"

section \<open>Strings\<close>

fun strncmp :: "(nat \<Rightarrow> byte) \<Rightarrow> (nat \<Rightarrow> byte) \<Rightarrow> nat \<Rightarrow> int" where
  "strncmp p q 0 = 0"
| "strncmp p q (Suc n) =
     (if p 0 \<noteq> 0 \<and> p 0 = q 0 then strncmp (\<lambda>i. p (Suc i)) (\<lambda>i. q (Suc i)) n
      else uint (p 0) - uint (q 0))"

text \<open>The two loops of \<open>strncpy\<close>: copy up to and including a NUL, then pad.\<close>

fun strncpy_pad :: "memory \<Rightarrow> addr \<Rightarrow> nat \<Rightarrow> memory" where
  "strncpy_pad m s 0 = m"
| "strncpy_pad m s (Suc n) = strncpy_pad (st8 m s 0) (s + 1) n"

fun strncpy_copy :: "memory \<Rightarrow> addr \<Rightarrow> addr \<Rightarrow> nat \<Rightarrow> memory" where
  "strncpy_copy m s t 0 = m"
| "strncpy_copy m s t (Suc n) =
     (let m' = st8 m s (m t) in
      if m t \<noteq> 0 then strncpy_copy m' (s + 1) (t + 1) n else strncpy_pad m' (s + 1) n)"

definition strncpy :: "memory \<Rightarrow> addr \<Rightarrow> addr \<Rightarrow> int \<Rightarrow> memory" where
  "strncpy m s t n = strncpy_copy m s t (nat n)"

text \<open>The argument \<open>n\<close> of the loop is the value of \<open>--n\<close> in the guard.\<close>

fun safestrcpy_loop :: "memory \<Rightarrow> addr \<Rightarrow> addr \<Rightarrow> nat \<Rightarrow> memory" where
  "safestrcpy_loop m s t 0 = st8 m s 0"
| "safestrcpy_loop m s t (Suc n) =
     (let m' = st8 m s (m t) in
      if m t \<noteq> 0 then safestrcpy_loop m' (s + 1) (t + 1) n else st8 m' (s + 1) 0)"

definition safestrcpy :: "memory \<Rightarrow> addr \<Rightarrow> addr \<Rightarrow> int \<Rightarrow> memory" where
  "safestrcpy m s t n = (if n \<le> 0 then m else safestrcpy_loop m s t (nat n - 1))"

partial_function (option) strlen_from :: "(nat \<Rightarrow> byte) \<Rightarrow> nat \<Rightarrow> nat option" where
  "strlen_from s n = (if s n = 0 then Some n else strlen_from s (Suc n))"

definition strlen :: "(nat \<Rightarrow> byte) \<Rightarrow> nat option" where
  "strlen s = strlen_from s 0"

section \<open>Abstractions\<close>

text \<open>The bytes found from a pointer on, and the list form of a NUL-terminated string.\<close>

definition stream_at :: "memory \<Rightarrow> addr \<Rightarrow> nat \<Rightarrow> byte" where
  "stream_at m p = (\<lambda>i. m (p + of_nat i))"

definition cstr :: "(nat \<Rightarrow> byte) \<Rightarrow> byte list \<Rightarrow> bool" where
  "cstr s xs \<longleftrightarrow> (\<forall>i < length xs. s i = xs ! i \<and> xs ! i \<noteq> 0) \<and> s (length xs) = 0"

text \<open>The prefix of a byte list up to its first NUL, which is what a fixed-size field names.\<close>

definition upto_nul :: "byte list \<Rightarrow> byte list" where
  "upto_nul xs = takeWhile (\<lambda>b. b \<noteq> 0) xs"

section \<open>Fill\<close>

lemma mwrite_append:
  assumes "length xs + length ys \<le> 2 ^ 64"
  shows "mwrite (mwrite m a xs) (a + of_nat (length xs)) ys = mwrite m a (xs @ ys)"
proof (cases "ys = []")
  case False
  show ?thesis
  proof (rule ext)
    fix x
    define u where "u = x - a"
    have len: "length xs < 2 ^ 64" using assms False by (cases ys) auto
    have eq: "x - (a + of_nat (length xs)) = u - of_nat (length xs)" by (simp add: u_def)
    show "mwrite (mwrite m a xs) (a + of_nat (length xs)) ys x = mwrite m a (xs @ ys) x"
    proof (cases "unat u < length xs")
      case True
      have "apart a (length xs) (a + of_nat (length xs)) (length ys)"
        using True assms len by (intro apart_adjacent) auto
      from apart_outside [OF this True] have "\<not> unat (u - of_nat (length xs)) < length ys"
        by (simp add: u_def algebra_simps)
      with True show ?thesis by (simp add: mwrite_def eq u_def [symmetric] nth_append)
    next
      case False
      then have "unat (u - of_nat (length xs)) = unat u - length xs"
        using len by (subst unat_sub) (auto simp: word_le_nat_alt unat64_of_nat)
      with False show ?thesis
        by (auto simp: mwrite_def eq u_def [symmetric] nth_append)
    qed
  qed
qed simp

lemma stosb_eq: "n \<le> 2 ^ 64 \<Longrightarrow> stosb m a c n = mwrite m a (replicate n c)"
proof (induction n arbitrary: m a)
  case 0
  then show ?case by simp
next
  case (Suc n)
  then have "stosb m a c (Suc n) = mwrite (mwrite m a [c]) (a + of_nat (length [c])) (replicate n c)"
    by (simp add: st8_def)
  also have "\<dots> = mwrite m a ([c] @ replicate n c)"
    using Suc.prems by (intro mwrite_append) simp
  finally show ?case by simp
qed

lemma stosl_eq:
  "4 * n \<le> 2 ^ 64 \<Longrightarrow> stosl m a w n = mwrite m a (concat (replicate n (to_le 4 w)))"
proof (induction n arbitrary: m a)
  case 0
  then show ?case by simp
next
  case (Suc n)
  have len: "length (concat (replicate n (to_le 4 w))) = 4 * n"
    by (induction n) auto
  have "stosl m a w (Suc n) =
      mwrite (mwrite m a (to_le 4 w)) (a + of_nat (length (to_le 4 w))) (concat (replicate n (to_le 4 w)))"
    using Suc by (simp add: st32_def)
  also have "\<dots> = mwrite m a (to_le 4 w @ concat (replicate n (to_le 4 w)))"
    using Suc.prems len by (intro mwrite_append) simp
  finally show ?case by simp
qed

lemma splat_bytes:
  fixes c :: u32
  defines "b \<equiv> c AND 0xFF"
  shows "to_le 4 (push_bit 24 b OR push_bit 16 b OR push_bit 8 b OR b) = replicate 4 (ucast c)"
proof -
  have mask: "(0xFF :: u32) = mask 8" by (simp add: mask_eq_exp_minus_1)
  have *: "bit b i \<longleftrightarrow> i < 8 \<and> bit c i" for i
    by (auto simp: b_def mask bit_simps)
  have "ucast (drop_bit (8 * k) (push_bit 24 b OR push_bit 16 b OR push_bit 8 b OR b)) = (ucast c :: byte)"
    if "k < 4" for k
  proof (rule bit_word_eqI)
    fix i assume "i < LENGTH(8)"
    moreover from that have "k = 0 \<or> k = 1 \<or> k = 2 \<or> k = 3" by auto
    ultimately show "bit (ucast (drop_bit (8 * k) (push_bit 24 b OR push_bit 16 b OR push_bit 8 b OR b)) :: byte) i
        \<longleftrightarrow> bit (ucast c :: byte) i"
      by (auto simp: bit_simps *)
  qed
  then show ?thesis by (intro nth_equalityI) (auto simp: nth_to_le)
qed

lemma unat_ucast32: "unat (x :: u64) < 2 ^ 32 \<Longrightarrow> unat (ucast x :: u32) = unat x"
  by (simp add: unsigned_ucast_eq take_bit_nat_eq_self_iff)

text \<open>\<open>memset\<close> is a fill, whichever of its two store loops runs.\<close>

lemma memset_eq_mfill:
  assumes "unat n < 2 ^ 32"
  shows "memset m dst c n = mfill m dst (ucast c) (unat n)"
proof (cases "dst mod 4 = 0 \<and> n mod 4 = 0")
  case True
  then have "unat n mod 4 = 0" using unat_mod [of n 4] by simp
  then obtain k where k: "unat n = 4 * k" by (auto simp: mod_eq_0_iff_dvd elim: dvdE)
  have "unat (n div 4) = k" using k by (simp add: unat_div)
  moreover have "unat (ucast (n div 4) :: u32) = unat (n div 4)"
    using assms k calculation by (intro unat_ucast32) simp
  moreover have "concat (replicate k (replicate 4 (ucast c :: byte))) = replicate (4 * k) (ucast c)"
    by (induction k) (auto simp: replicate_add [symmetric])
  moreover have "memset m dst c n = stosl m dst (push_bit 24 (c AND 0xFF) OR push_bit 16 (c AND 0xFF)
      OR push_bit 8 (c AND 0xFF) OR (c AND 0xFF)) (unat (ucast (n div 4) :: u32))"
    using True unfolding memset_def Let_def by (simp only: if_True simp_thms)
  moreover have "4 * k \<le> 2 ^ 64" using assms k by simp
  ultimately show ?thesis
    using k by (simp only: stosl_eq splat_bytes mfill_eq_mwrite)
next
  case False
  then show ?thesis
    using assms by (auto simp: memset_def stosb_eq mfill_eq_mwrite unat_ucast32)
qed

section \<open>Copy and comparison\<close>

lemma st8_apply: "st8 m a v x = (if x = a then v else m x)"
proof -
  have "unat (x - a) = 0 \<longleftrightarrow> x = a" by (simp add: unat_eq_0)
  then show ?thesis by (auto simp: st8_def mwrite_def)
qed

lemma unat_minus_one_word64: "unat (- 1 :: u64) = 2 ^ 64 - 1"
  by (simp add: unsigned_minus_1_eq_mask mask_eq_exp_minus_1)

lemma unat_minus_one64: "u \<noteq> (0 :: u64) \<Longrightarrow> unat (u - 1) = unat u - 1"
  by (rule unat_minus_one) simp

lemma memmove_up_eq:
  assumes "n < 2 ^ 64" "\<And>j. 0 < j \<Longrightarrow> j < n \<Longrightarrow> d \<noteq> s + of_nat j"
  shows "memmove_up m d s n = mcopy m d s n"
  using assms
proof (induction n arbitrary: m d s)
  case 0
  then show ?case by (simp add: mcopy_def)
next
  case (Suc n)
  have IH: "memmove_up (st8 m d (m s)) (d + 1) (s + 1) n = mcopy (st8 m d (m s)) (d + 1) (s + 1) n"
  proof (rule Suc.IH)
    fix j :: nat assume "0 < j" "j < n"
    with Suc.prems(2) [of j] show "d + 1 \<noteq> s + 1 + of_nat j" by (simp add: algebra_simps)
  qed (use Suc.prems in simp)
  have "mcopy (st8 m d (m s)) (d + 1) (s + 1) n x = mcopy m d s (Suc n) x" for x
  proof (cases "x = d")
    case True
    then have "x - (d + 1) = - 1" by simp
    then have "\<not> unat (x - (d + 1)) < n" using Suc.prems(1) by (simp add: unat_minus_one_word64)
    with True show ?thesis by (simp add: mcopy_def st8_apply)
  next
    case False
    define u where "u = x - d"
    have u0: "u \<noteq> 0" using False by (simp add: u_def)
    have x: "x = d + u" by (simp add: u_def)
    have m1: "unat (u - 1) = unat u - 1" using u0 by (rule unat_minus_one64)
    have pos: "0 < unat u" using u0 by (simp add: unat_gt_0)
    have iff: "unat (u - 1) < n \<longleftrightarrow> unat u < Suc n" using m1 pos by auto
    have ne: "s + u \<noteq> d" if "unat u < Suc n"
      using Suc.prems(2) [of "unat u"] pos that by auto
    have e: "x - (d + 1) = u - 1" "x - d = u" by (simp_all add: u_def)
    have e': "s + 1 + (u - 1) = s + u" by simp
    show ?thesis using False ne by (simp only: mcopy_def st8_apply e e' iff) simp
  qed
  with IH show ?case by (auto simp: fun_eq_iff)
qed

lemma memmove_down_eq:
  assumes "n < 2 ^ 64" "\<And>j. 0 < j \<Longrightarrow> j < n \<Longrightarrow> s \<noteq> d + of_nat j"
  shows "memmove_down m (d + of_nat n) (s + of_nat n) n = mcopy m d s n"
  using assms
proof (induction n arbitrary: m)
  case 0
  then show ?case by (simp add: mcopy_def)
next
  case (Suc n)
  let ?m1 = "st8 m (d + of_nat n) (m (s + of_nat n))"
  have IH: "memmove_down ?m1 (d + of_nat n) (s + of_nat n) n = mcopy ?m1 d s n"
    using Suc.prems by (intro Suc.IH) auto
  have "mcopy ?m1 d s n x = mcopy m d s (Suc n) x" for x
  proof -
    define u where "u = x - d"
    have x: "x = d + u" by (simp add: u_def)
    have ne: "s + u \<noteq> d + of_nat n" if "unat u < n"
    proof
      assume eq: "s + u = d + of_nat n"
      have "of_nat n = u + of_nat (n - unat u)" using that
        by (simp add: of_nat_diff)
      then have "s = d + of_nat (n - unat u)" using eq by (simp add: algebra_simps)
      moreover have "0 < n - unat u" "n - unat u < Suc n" using that by simp_all
      ultimately show False using Suc.prems(2) by blast
    qed
    have e: "x - d = u" by (simp add: u_def)
    consider "unat u < n" | "unat u = n" | "n < unat u" by linarith
    then show ?thesis
    proof cases
      case 1
      with ne show ?thesis by (simp add: mcopy_def st8_apply e)
    next
      case 2
      then have "u = of_nat n" by auto
      with 2 show ?thesis by (simp add: mcopy_def st8_apply e x)
    next
      case 3
      then have "x \<noteq> d + of_nat n" using Suc.prems(1) by (auto simp: x unat64_of_nat)
      with 3 show ?thesis by (simp add: mcopy_def st8_apply e)
    qed
  qed
  with IH show ?case by (auto simp: fun_eq_iff)
qed

lemma unat_add_of_nat: "unat (a :: u64) + j < 2 ^ 64 \<Longrightarrow> unat (a + of_nat j) = unat a + j"
  by (subst unat_sum_no_wrap) (auto simp: unat64_of_nat)

lemma of_nat_unat_ucast: "of_nat (unat (n :: u32)) = (ucast n :: u64)"
  by simp

text \<open>
  \<open>memmove\<close> is a simultaneous copy for every pair of ranges that do not run over the top of
  the address space, overlapping or not.
\<close>

lemma memmove_eq_mcopy:
  assumes "unat dst + unat n < 2 ^ 64" "unat src + unat n < 2 ^ 64"
  shows "memmove m dst src n = mcopy m dst src (unat n)"
proof (cases "src < dst \<and> src + ucast n > dst")
  case True
  have "src \<noteq> dst + of_nat j" if "j < unat n" for j
    using True assms that unat_add_of_nat [of dst j] by (auto simp: word_less_nat_alt)
  moreover have "unat n < 2 ^ 64" using assms by simp
  ultimately have "memmove_down m (dst + of_nat (unat n)) (src + of_nat (unat n)) (unat n) = mcopy m dst src (unat n)"
    by (intro memmove_down_eq) auto
  with True show ?thesis by (simp add: memmove_def)
next
  case False
  have "dst \<noteq> src + of_nat j" if "0 < j" "j < unat n" for j
  proof
    assume eq: "dst = src + of_nat j"
    have "unat dst = unat src + j" using eq that assms by (simp add: unat_add_of_nat)
    moreover have "unat (src + ucast n) = unat src + unat n"
      using assms unat_add_of_nat [of src "unat n"] by simp
    ultimately show False using False that by (simp add: word_less_nat_alt)
  qed
  moreover have "unat n < 2 ^ 64" using assms by simp
  ultimately have "memmove_up m dst src (unat n) = mcopy m dst src (unat n)"
    by (intro memmove_up_eq) auto
  with False show ?thesis by (auto simp: memmove_def)
qed

lemma memcmp_eq_0: "memcmp s1 s2 n = 0 \<longleftrightarrow> (\<forall>i < n. s1 i = s2 i)"
proof (induction s1 s2 n rule: memcmp.induct)
  case (2 s1 s2 n)
  then show ?case by (auto simp: All_less_Suc2 word_uint_eq_iff [symmetric])
qed simp

section \<open>Strings\<close>

lemma upto_nul_Cons: "upto_nul (b # bs) = (if b = 0 then [] else b # upto_nul bs)"
  by (simp add: upto_nul_def)

lemma map_upt_Suc_stream: "map p [0..<Suc n] = p 0 # map (\<lambda>i. p (Suc i)) [0..<n]"
  by (simp add: upt_conv_Cons map_Suc_upt [symmetric] comp_def del: upt_Suc)

lemma strncmp_eq_0:
  "strncmp p q n = 0 \<longleftrightarrow> upto_nul (map p [0..<n]) = upto_nul (map q [0..<n])"
proof (induction p q n rule: strncmp.induct)
  case (2 p q n)
  then show ?case by (simp add: map_upt_Suc_stream upto_nul_Cons word_uint_eq_iff [symmetric] del: upt_Suc)
      (auto simp: uint_0_iff)
qed simp

lemma strlen_from_Some:
  assumes "n \<le> k" "s k = 0" "\<And>i. n \<le> i \<Longrightarrow> i < k \<Longrightarrow> s i \<noteq> 0"
  shows "strlen_from s n = Some k"
  using assms
proof (induction "k - n" arbitrary: n)
  case 0
  then show ?case by (subst strlen_from.simps) simp
next
  case (Suc d)
  then have "strlen_from s (Suc n) = Some k" by (intro Suc.hyps) auto
  with Suc show ?case by (subst strlen_from.simps) auto
qed

lemma strlen_cstr: "cstr s xs \<Longrightarrow> strlen s = Some (length xs)"
  unfolding strlen_def by (rule strlen_from_Some) (auto simp: cstr_def)

text \<open>Two ranges no byte of which is shared, byte by byte: the form inductions over loops use.\<close>

lemma apart_bytes:
  assumes "apart a n b k" "i < n" "j < k" "k \<le> 2 ^ 64"
  shows "a + of_nat i \<noteq> b + of_nat j"
proof
  assume "a + of_nat i = b + of_nat j"
  then have "unat (a + of_nat i - b) = j" using assms by (simp add: unat64_of_nat)
  with apart_outside [OF assms(1,2)] assms(3) show False by simp
qed

lemma cstr_Cons: "cstr s (x # xs) \<longleftrightarrow> s 0 = x \<and> x \<noteq> 0 \<and> cstr (\<lambda>i. s (Suc i)) xs"
  by (auto simp: cstr_def All_less_Suc2)

lemma stream_at_Suc: "(\<lambda>i. stream_at m t (Suc i)) = stream_at m (t + 1)"
  by (simp add: stream_at_def algebra_simps)

lemma cstr_st8:
  assumes "cstr (stream_at m t) xs" "\<And>j. j \<le> length xs \<Longrightarrow> s \<noteq> t + of_nat j"
  shows "cstr (stream_at (st8 m s c) t) xs"
proof -
  have "stream_at (st8 m s c) t j = stream_at m t j" if "j \<le> length xs" for j
    using assms(2) [OF that] by (simp add: stream_at_def st8_apply)
  with assms(1) show ?thesis by (simp add: cstr_def)
qed

lemma mwrite_step:
  "Suc (length ys) \<le> 2 ^ 64 \<Longrightarrow> mwrite (st8 m s c) (s + 1) ys = mwrite m s (c # ys)"
  using mwrite_append [of "[c]" ys m s] by (simp add: st8_def)

lemma safestrcpy_loop_eq:
  assumes "cstr (stream_at m t) xs" "n + 2 \<le> 2 ^ 64"
    "\<And>i j. i \<le> n \<Longrightarrow> j \<le> length xs \<Longrightarrow> s + of_nat i \<noteq> t + of_nat j"
  shows "safestrcpy_loop m s t n =
    mwrite m s (if length xs < n then xs @ [0, 0] else take n xs @ [0])"
  using assms
proof (induction n arbitrary: m s t xs)
  case 0
  then show ?case by (simp add: st8_def)
next
  case (Suc n)
  show ?case
  proof (cases xs)
    case Nil
    then have "m t = 0" using Suc.prems(1) by (simp add: cstr_def stream_at_def)
    with Nil show ?thesis
      using mwrite_step [of "[0]" m s 0] by (simp add: st8_def)
  next
    case (Cons x ys)
    have x: "m t = x" "x \<noteq> 0" and ys: "cstr (stream_at m (t + 1)) ys"
      using Suc.prems(1) by (simp_all add: Cons cstr_Cons stream_at_Suc) (simp add: stream_at_def)
    have ne: "s + of_nat i \<noteq> t + 1 + of_nat j" if "i \<le> Suc n" "j \<le> length ys" for i j
      using Suc.prems(3) [of i "Suc j"] that by (simp add: Cons algebra_simps)
    have "cstr (stream_at (st8 m s x) (t + 1)) ys"
      using ys ne [of 0] by (intro cstr_st8) auto
    moreover have "s + 1 + of_nat i \<noteq> t + 1 + of_nat j" if "i \<le> n" "j \<le> length ys" for i j
      using ne [of "Suc i" j] that by (simp add: algebra_simps)
    ultimately have "safestrcpy_loop (st8 m s x) (s + 1) (t + 1) n =
        mwrite (st8 m s x) (s + 1) (if length ys < n then ys @ [0, 0] else take n ys @ [0])"
      using Suc.prems(2) by (intro Suc.IH) auto
    also have "\<dots> = mwrite m s (x # (if length ys < n then ys @ [0, 0] else take n ys @ [0]))"
      using Suc.prems(2) by (intro mwrite_step) auto
    finally show ?thesis by (simp add: x Cons)
  qed
qed

lemma cstr_mwrite:
  assumes "list_all (\<lambda>b. b \<noteq> 0) xs" "length xs + 1 + length zs \<le> 2 ^ 64"
  shows "cstr (stream_at (mwrite m s (xs @ 0 # zs)) s) xs"
  using assms by (auto simp: cstr_def stream_at_def mwrite_def unat64_of_nat nth_append list_all_length)

lemma cstr_nonzero: "cstr s xs \<Longrightarrow> list_all (\<lambda>b. b \<noteq> 0) xs"
  by (auto simp: cstr_def list_all_length)

text \<open>
  \<open>safestrcpy\<close> leaves a NUL-terminated prefix of the source in the \<open>n\<close> bytes of the
  destination, and touches no other byte.
\<close>

lemma safestrcpy_cstr:
  assumes "cstr (stream_at m t) xs" "0 < n" "n < 2 ^ 31" "length xs < 2 ^ 63"
    "apart s (nat n) t (length xs + 1)"
  shows "cstr (stream_at (safestrcpy m s t n) s) (take (nat n - 1) xs)"
    and "nat n \<le> unat (x - s) \<Longrightarrow> safestrcpy m s t n x = m x"
proof -
  let ?k = "nat n - 1"
  let ?w = "if length xs < ?k then xs @ [0, 0] else take ?k xs @ [0]"
  have k: "?k + 2 \<le> 2 ^ 64" using assms(2,3) by auto
  have "s + of_nat i \<noteq> t + of_nat j" if "i \<le> ?k" "j \<le> length xs" for i j
    using assms that by (intro apart_bytes [OF assms(5)]) auto
  with safestrcpy_loop_eq [OF assms(1) k] assms(2) have eq: "safestrcpy m s t n = mwrite m s ?w"
    by (simp add: safestrcpy_def)
  have nz: "list_all (\<lambda>b. b \<noteq> 0) xs" using assms(1) by (rule cstr_nonzero)
  show "cstr (stream_at (safestrcpy m s t n) s) (take ?k xs)"
  proof (cases "length xs < ?k")
    case True
    with eq cstr_mwrite [OF nz, of "[0]"] assms(4) show ?thesis by simp
  next
    case False
    have "list_all (\<lambda>b. b \<noteq> 0) (take ?k xs)" using nz by (auto simp: list_all_iff dest: in_set_takeD)
    from cstr_mwrite [OF this, of "[]"] False eq k show ?thesis by simp
  qed
  assume "nat n \<le> unat (x - s)"
  with eq assms(2) show "safestrcpy m s t n x = m x" by (auto simp: mwrite_def)
qed

lemma strncpy_pad_eq: "n \<le> 2 ^ 64 \<Longrightarrow> strncpy_pad m s n = mwrite m s (replicate n 0)"
proof (induction n arbitrary: m s)
  case (Suc n)
  then show ?case by (simp add: mwrite_step)
qed simp

lemma strncpy_copy_eq:
  assumes "cstr (stream_at m t) xs" "n \<le> 2 ^ 64"
    "\<And>i j. i < n \<Longrightarrow> j \<le> length xs \<Longrightarrow> s + of_nat i \<noteq> t + of_nat j"
  shows "strncpy_copy m s t n = mwrite m s (take n (xs @ replicate n 0))"
  using assms
proof (induction n arbitrary: m s t xs)
  case 0
  then show ?case by simp
next
  case (Suc n)
  show ?case
  proof (cases xs)
    case Nil
    then have "m t = 0" using Suc.prems(1) by (simp add: cstr_def stream_at_def)
    with Nil Suc.prems(2) show ?thesis
      by (simp add: strncpy_pad_eq mwrite_step)
  next
    case (Cons x ys)
    have x: "m t = x" "x \<noteq> 0" and ys: "cstr (stream_at m (t + 1)) ys"
      using Suc.prems(1) by (simp_all add: Cons cstr_Cons stream_at_Suc) (simp add: stream_at_def)
    have ne: "s + of_nat i \<noteq> t + 1 + of_nat j" if "i < Suc n" "j \<le> length ys" for i j
      using Suc.prems(3) [of i "Suc j"] that by (simp add: Cons algebra_simps)
    have "cstr (stream_at (st8 m s x) (t + 1)) ys"
      using ys ne [of 0] by (intro cstr_st8) auto
    moreover have "s + 1 + of_nat i \<noteq> t + 1 + of_nat j" if "i < n" "j \<le> length ys" for i j
      using ne [of "Suc i" j] that by (simp add: algebra_simps)
    ultimately have "strncpy_copy (st8 m s x) (s + 1) (t + 1) n =
        mwrite (st8 m s x) (s + 1) (take n (ys @ replicate n 0))"
      using Suc.prems(2) by (intro Suc.IH) auto
    also have "\<dots> = mwrite m s (x # take n (ys @ replicate n 0))"
      using Suc.prems(2) by (intro mwrite_step) auto
    finally show ?thesis by (simp add: x Cons replicate_append_same [symmetric] take_append)
  qed
qed

section \<open>Properties\<close>

text \<open>C20: \<open>memmove\<close> of a range that does not wrap around the address space leaves in the destination
  exactly the bytes that the source held before the call, also when the two ranges overlap in
  either direction, and changes nothing outside the destination.\<close>

theorem memmove_copies:
  assumes "unat dst + unat n < 2 ^ 64" "unat src + unat n < 2 ^ 64"
  shows "mread (memmove m dst src n) dst (unat n) = mread m src (unat n) \<and>
    (\<forall>x. unat n \<le> unat (x - dst) \<longrightarrow> memmove m dst src n x = m x)"
proof -
  have le: "unat n \<le> 2 ^ 64" using assms(1) by simp
  then have "mread (mcopy m dst src (unat n)) dst (unat n) = mread m src (unat n)"
    by (simp add: mcopy_eq_mwrite mread_mwrite_same)
  then show ?thesis using memmove_eq_mcopy [OF assms, of m] by (simp add: mcopy_def)
qed

theorem memmove_copies_witness:
  "unat (3 :: u64) + unat (5 :: u32) < 2 ^ 64 \<and>
   mread (memmove ucast 3 1 5) 3 5 = [1, 2, 3, 4, 5]"
proof -
  have "mread (memmove ucast 3 1 5) 3 (unat (5 :: u32)) = mread ucast (1 :: u64) (unat (5 :: u32))"
    using memmove_copies [of 3 5 1 ucast] by simp
  moreover have "mread ucast (1 :: u64) 5 = [1, 2, 3, 4, 5 :: byte]" by (simp add: mread_def upt_rec)
  ultimately show ?thesis by simp
qed

text \<open>C21: \<open>safestrcpy\<close> into a buffer of \<open>n > 0\<close> bytes that does not meet the source stores the
  source string cut to \<open>n - 1\<close> bytes, always NUL-terminated, and writes nothing outside the \<open>n\<close>
  bytes of the buffer.\<close>

theorem safestrcpy_truncates:
  assumes "cstr (stream_at m t) xs" "0 < n" "n < 2 ^ 31" "length xs < 2 ^ 63"
    "apart s (nat n) t (length xs + 1)"
  shows "cstr (stream_at (safestrcpy m s t n) s) (take (nat n - 1) xs) \<and>
    (\<forall>x. nat n \<le> unat (x - s) \<longrightarrow> safestrcpy m s t n x = m x)"
  using safestrcpy_cstr [OF assms] by blast

theorem safestrcpy_truncates_witness:
  "cstr (stream_at ((\<lambda>_. 0)(100 := 7, 101 := 8, 102 := 9)) 100) [7, 8, 9] \<and>
   cstr (stream_at (safestrcpy ((\<lambda>_. 0)(100 := 7, 101 := 8, 102 := 9)) 200 100 3) 200) [7, 8]"
proof -
  let ?m = "(\<lambda>_. 0)(100 := 7, 101 := 8, 102 := 9) :: memory"
  have c: "cstr (stream_at ?m 100) [7, 8, 9]"
    by (simp add: cstr_def stream_at_def All_less_Suc2 numeral_3_eq_3)
  have "cstr (stream_at (safestrcpy ?m 200 100 3) 200) (take (nat 3 - 1) [7, 8, 9])"
    using safestrcpy_truncates [OF c, of 3 200] by (simp add: apart_def)
  then show ?thesis using c by simp
qed

end
