(* ===== verification/Memlayout.thy ===== *)
theory Memlayout
  imports Prelude
begin

text \<open>
  The address-space constants and macros of \<^verbatim>\<open>memlayout.h\<close> and \<^verbatim>\<open>mmu.h\<close>: the direct map, page
  rounding, the four page-table indices of a virtual address and the bits of a page-table
  entry, with the facts about page-aligned addresses that the component theories use.
\<close>

section \<open>Constants and macros\<close>

definition KERNBASE :: addr where
  "KERNBASE = 0xFFFF800000000000"

definition PHYSTOP :: addr where
  "PHYSTOP = 0xE000000"

definition PGSIZE :: u64 where
  "PGSIZE = 4096"

definition KSTACKSIZE :: u64 where
  "KSTACKSIZE = 4096"

definition V2P :: "addr \<Rightarrow> addr" where
  "V2P a = a - KERNBASE"

definition P2V :: "addr \<Rightarrow> addr" where
  "P2V a = a + KERNBASE"

definition PGROUNDUP :: "addr \<Rightarrow> addr" where
  "PGROUNDUP sz = (sz + (PGSIZE - 1)) AND NOT (PGSIZE - 1)"

definition PGROUNDDOWN :: "addr \<Rightarrow> addr" where
  "PGROUNDDOWN a = a AND NOT (PGSIZE - 1)"

definition PMX :: "addr \<Rightarrow> u64" where
  "PMX va = drop_bit 39 va AND 0x1FF"

definition PDPX :: "addr \<Rightarrow> u64" where
  "PDPX va = drop_bit 30 va AND 0x1FF"

definition PDX :: "addr \<Rightarrow> u64" where
  "PDX va = drop_bit 21 va AND 0x1FF"

definition PTX :: "addr \<Rightarrow> u64" where
  "PTX va = drop_bit 12 va AND 0x1FF"

definition PTE_P :: u64 where "PTE_P = 0x001"
definition PTE_W :: u64 where "PTE_W = 0x002"
definition PTE_U :: u64 where "PTE_U = 0x004"
definition PTE_PWT :: u64 where "PTE_PWT = 0x008"
definition PTE_PCD :: u64 where "PTE_PCD = 0x010"
definition PTE_PS :: u64 where "PTE_PS = 0x080"

definition PTE_ADDR :: "u64 \<Rightarrow> addr" where
  "PTE_ADDR pte = pte AND NOT 0xFFF"

definition PTE_FLAGS :: "u64 \<Rightarrow> u64" where
  "PTE_FLAGS pte = pte AND 0xFFF"

declare KERNBASE_def [layout] PHYSTOP_def [layout] PGSIZE_def [layout] KSTACKSIZE_def [layout]
  PTE_P_def [layout] PTE_W_def [layout] PTE_U_def [layout] PTE_PWT_def [layout]
  PTE_PCD_def [layout] PTE_PS_def [layout]

section \<open>Direct map\<close>

lemma V2P_P2V [simp]: "V2P (P2V a) = a"
  by (simp add: V2P_def P2V_def)

lemma P2V_V2P [simp]: "P2V (V2P a) = a"
  by (simp add: V2P_def P2V_def)

section \<open>Page alignment\<close>

definition page_aligned :: "addr \<Rightarrow> bool" where
  "page_aligned a \<longleftrightarrow> a mod 4096 = 0"

lemma mod_PGSIZE [simp]: "a mod PGSIZE = 0 \<longleftrightarrow> page_aligned a"
  by (simp only: page_aligned_def PGSIZE_def)

lemma unat_PGSIZE [simp]: "unat PGSIZE = 4096"
  by (simp add: PGSIZE_def)

lemma page_aligned_unat: "page_aligned a \<longleftrightarrow> unat a mod 4096 = 0"
proof -
  have "unat (a mod 4096) = unat a mod 4096" by (simp add: unat_mod_distrib)
  then show ?thesis by (metis page_aligned_def unat_eq_0)
qed

lemma and_not_mask12: "(a :: u64) AND - 4096 = push_bit 12 (drop_bit 12 a)"
proof -
  have "a AND NOT (mask 12) = push_bit 12 (drop_bit 12 a)"
    by (rule bit_word_eqI) (auto simp: bit_simps)
  then show ?thesis by (simp add: mask_eq_exp_minus_1)
qed

lemma unat_and_not_mask12: "unat ((a :: u64) AND - 4096) = 4096 * (unat a div 4096)"
proof -
  have "unat a div 4096 * 4096 < 2 ^ 64" using unat_lt64 [of a] by linarith
  then have "unat (push_bit 12 (drop_bit 12 a)) = 4096 * (unat a div 4096)"
    by (simp add: push_bit_eq_mult drop_bit_eq_div unat_word_ariths unat_div_distrib mult.commute)
  then show ?thesis by (simp add: and_not_mask12)
qed

lemma unat_PGROUNDDOWN: "unat (PGROUNDDOWN a) = 4096 * (unat a div 4096)"
  by (simp add: PGROUNDDOWN_def PGSIZE_def unat_and_not_mask12)

lemma unat_PTE_ADDR: "unat (PTE_ADDR a) = 4096 * (unat a div 4096)"
  by (simp add: PTE_ADDR_def unat_and_not_mask12)

lemma page_aligned_PGROUNDDOWN [simp]: "page_aligned (PGROUNDDOWN a)"
  by (simp add: page_aligned_unat unat_PGROUNDDOWN)

lemma page_aligned_PGROUNDUP [simp]: "page_aligned (PGROUNDUP a)"
  using page_aligned_PGROUNDDOWN [of "a + (PGSIZE - 1)"]
  by (simp add: PGROUNDUP_def PGROUNDDOWN_def)

lemma page_aligned_PTE_ADDR [simp]: "page_aligned (PTE_ADDR a)"
  by (simp add: page_aligned_unat unat_PTE_ADDR)

lemma PTE_ADDR_aligned: "page_aligned a \<Longrightarrow> PTE_ADDR a = a"
  by (auto simp: word_unat_eq_iff unat_PTE_ADDR page_aligned_unat)

lemma PTE_ADDR_or: "PTE_ADDR (a OR b) = PTE_ADDR a OR PTE_ADDR b"
  by (simp add: PTE_ADDR_def bit.conj_disj_distrib2)

lemma page_aligned_dvd: "page_aligned a \<longleftrightarrow> 4096 dvd uint a"
proof -
  have "(4096 :: int) dvd int (unat a) \<longleftrightarrow> 4096 dvd unat a"
    using of_nat_dvd_iff [of 4096 "unat a", where ?'a = int] by simp
  then show ?thesis by (simp add: page_aligned_unat mod_eq_0_iff_dvd)
qed

lemma page_aligned_diff: "page_aligned p \<Longrightarrow> page_aligned q \<Longrightarrow> page_aligned (p - q)"
  unfolding page_aligned_dvd by (simp add: uint_word_ariths dvd_mod)

lemma page_aligned_add: "page_aligned p \<Longrightarrow> page_aligned q \<Longrightarrow> page_aligned (p + q)"
  unfolding page_aligned_dvd by (simp add: uint_word_ariths dvd_mod)

lemma page_distance:
  assumes "page_aligned p" "page_aligned q" "p \<noteq> q"
  shows "4096 \<le> unat (p - q)"
proof -
  have "unat (p - q) \<noteq> 0" using assms(3) by (simp add: unat_eq_0)
  with page_aligned_diff [OF assms(1,2)] show ?thesis
    by (auto simp: page_aligned_unat mod_eq_0_iff_dvd dvd_imp_le)
qed

text \<open>Ranges inside two different pages do not meet.\<close>

lemma apart_pages:
  assumes "page_aligned p" "page_aligned q" "p \<noteq> q" "0 < n" "0 < k"
    "unat (a - p) + n \<le> 4096" "unat (b - q) + k \<le> 4096"
  shows "apart a n b k"
proof -
  have *: "l \<le> unat (y - x)"
    if pq: "page_aligned x'" "page_aligned y'" "x' \<noteq> y'"
      and x: "unat (x - x') + l \<le> 4096" and y: "unat (y - y') < 4096" for x y x' y' l
  proof -
    define d i j where "d = y' - x'" and "i = x - x'" and "j = y - y'"
    have d: "4096 \<le> unat d" unfolding d_def using pq by (intro page_distance) auto
    have "4096 \<le> unat (x' - y')" using pq by (intro page_distance) auto
    with unat_sub_flip [OF pq(3)] have d2: "unat d + 4096 \<le> 2 ^ 64" by (simp add: d_def)
    have i: "unat i + l \<le> 4096" and j: "unat j < 4096" using x y by (simp_all add: i_def j_def)
    have e: "unat (d - i) = unat d - unat i"
      using i d by (intro unat_sub) (simp add: word_le_nat_alt)
    have "y - x = (d - i) + j" by (simp add: d_def i_def j_def)
    moreover have "unat ((d - i) + j) = unat d - unat i + unat j"
      using e d2 j by (subst unat_sum_no_wrap) auto
    ultimately show ?thesis using i d by simp
  qed
  show ?thesis unfolding apart_def
    using * [OF assms(1,2,3,6), of b] * [OF assms(2,1) assms(3) [symmetric] assms(7), of a] assms(4-7)
    by simp
qed

end
