(* ===== verification/Spinlock.thy ===== *)
theory Spinlock
  imports Memlayout
begin

text \<open>
  Spin locks (\<^verbatim>\<open>spinlock.c\<close>) and the per-CPU interrupt-disable nesting they rely on.

  The first part gives each routine on one lock and one CPU. The second part is the system of
  several CPUs that compete for one lock, as a step relation whose steps are the atomic actions
  of \<open>acquire\<close> and \<open>release\<close> (the \<open>xchg\<close>, the writes of \<open>lk->cpu\<close>, the final store), with mutual
  exclusion for every reachable state. The third part is the form in which the rest of the kernel
  uses locks: a table of named locks in the state of the running CPU, where a critical section
  is atomic for the other CPUs and \<open>None\<close> means that \<open>acquire\<close> or \<open>release\<close> does not return.

  The \<open>name\<close> and \<open>pcs\<close> fields are debugging data that no code reads; \<open>getstackpcs\<close> is given on
  its own.
\<close>

section \<open>Data\<close>

text \<open>
  The fields of \<open>struct cpu\<close> used here, and the interrupt flag of its EFLAGS. The source declares
  \<open>ncli\<close> as \<open>int\<close>; the integer here stands for it as long as it is below \<open>2\<^sup>31\<close>, which the property
  about nesting asks for and shows to be kept.
\<close>

record cpu =
  ncli :: int
  intena :: bool
  iflag :: bool

record spinlock =
  locked :: bool
  owner :: "nat option"

section \<open>Operations\<close>

definition initlock :: "spinlock \<Rightarrow> spinlock" where
  "initlock lk = lk\<lparr>locked := False, owner := None\<rparr>"

definition holding :: "nat \<Rightarrow> spinlock \<Rightarrow> bool" where
  "holding me lk \<longleftrightarrow> locked lk \<and> owner lk = Some me"

definition pushcli :: "cpu \<Rightarrow> cpu" where
  "pushcli c =
     (let eflags_if = iflag c; c = c\<lparr>iflag := False\<rparr>;
          c = (if ncli c = 0 then c\<lparr>intena := eflags_if\<rparr> else c)
      in c\<lparr>ncli := ncli c + 1\<rparr>)"

definition popcli :: "cpu \<Rightarrow> cpu option" where
  "popcli c =
     (if iflag c then None
      else let c = c\<lparr>ncli := ncli c - 1\<rparr> in
        if ncli c < 0 then None
        else if ncli c = 0 \<and> intena c then Some (c\<lparr>iflag := True\<rparr>) else Some c)"

text \<open>\<open>xchg(&lk->locked, 1)\<close>: the old value and the lock afterwards.\<close>

definition xchg_locked :: "spinlock \<Rightarrow> bool \<times> spinlock" where
  "xchg_locked lk = (locked lk, lk\<lparr>locked := True\<rparr>)"

text \<open>
  A whole \<open>acquire\<close> with no other CPU running in between: it panics when the lock is held by this
  CPU and spins for ever when it is held by another one.
\<close>

definition acquire :: "nat \<Rightarrow> spinlock \<Rightarrow> cpu \<Rightarrow> (spinlock \<times> cpu) option" where
  "acquire me lk c =
     (let c = pushcli c in
      if holding me lk then None
      else case xchg_locked lk of (old, lk') \<Rightarrow>
        if old then None else Some (lk'\<lparr>owner := Some me\<rparr>, c))"

definition release :: "nat \<Rightarrow> spinlock \<Rightarrow> cpu \<Rightarrow> (spinlock \<times> cpu) option" where
  "release me lk c =
     (if \<not> holding me lk then None
      else let lk = lk\<lparr>owner := None\<rparr>; lk = lk\<lparr>locked := False\<rparr> in
        case popcli c of None \<Rightarrow> None | Some c \<Rightarrow> Some (lk, c))"

text \<open>The first loop of \<open>getstackpcs\<close> with \<open>k\<close> slots left; the second loop zeroes the rest.\<close>

fun getstackpcs_loop :: "memory \<Rightarrow> addr \<Rightarrow> nat \<Rightarrow> addr list" where
  "getstackpcs_loop m rbp 0 = []"
| "getstackpcs_loop m rbp (Suc k) =
     (if rbp = 0 \<or> rbp < KERNBASE \<or> rbp = 0xffffffff then replicate (Suc k) 0
      else ld64 m (rbp + 8) # getstackpcs_loop m (ld64 m rbp) k)"

definition getstackpcs :: "memory \<Rightarrow> addr \<Rightarrow> addr list" where
  "getstackpcs m rbp = getstackpcs_loop m rbp 10"

lemma getstackpcs_length [simp]: "length (getstackpcs m rbp) = 10"
proof -
  have "length (getstackpcs_loop m rbp k) = k" for k
    by (induction k arbitrary: rbp) auto
  then show ?thesis by (simp add: getstackpcs_def)
qed

section \<open>Interrupt nesting\<close>

text \<open>
  A CPU is settled when its nesting counter describes the interrupt flag: inside a nest
  interrupts are off, and outside one \<open>intena\<close> records the flag of the last nest.
\<close>

definition settled :: "cpu \<Rightarrow> bool" where
  "settled c \<longleftrightarrow> 0 \<le> ncli c \<and> (if ncli c = 0 then intena c = iflag c else \<not> iflag c)"

lemma popcli_pushcli: "settled c \<Longrightarrow> popcli (pushcli c) = Some c"
  by (cases c) (auto simp: popcli_def pushcli_def settled_def Let_def split: if_splits)

lemma settled_pushcli: "settled c \<Longrightarrow> settled (pushcli c)"
  by (auto simp: pushcli_def settled_def Let_def)

lemma ncli_pushcli [simp]: "ncli (pushcli c) = ncli c + 1"
  by (simp add: pushcli_def Let_def)

lemma iflag_pushcli [simp]: "\<not> iflag (pushcli c)"
  by (simp add: pushcli_def Let_def)

text \<open>
  Nested sections: after \<open>n\<close> \<open>pushcli\<close>s and \<open>n\<close> \<open>popcli\<close>s the interrupt flag is what it was,
  whatever the recorded \<open>intena\<close> of an earlier nest; no \<open>popcli\<close> panics on the way.
\<close>

fun pop_n :: "nat \<Rightarrow> cpu \<Rightarrow> cpu option" where
  "pop_n 0 c = Some c"
| "pop_n (Suc n) c = (case popcli c of None \<Rightarrow> None | Some c \<Rightarrow> pop_n n c)"

lemma pop_n_settled:
  assumes "settled c"
  shows "pop_n n ((pushcli ^^ n) c) = Some c"
proof (induction n)
  case 0
  show ?case by simp
next
  case (Suc n)
  have "settled ((pushcli ^^ n) c)" by (induction n) (auto simp: assms settled_pushcli)
  then show ?case using Suc by (simp add: popcli_pushcli)
qed

lemma pop_n_push_n:
  assumes "0 \<le> ncli c" "0 < ncli c \<Longrightarrow> \<not> iflag c"
  shows "\<exists>c'. pop_n n ((pushcli ^^ n) c) = Some c' \<and> ncli c' = ncli c \<and> iflag c' = iflag c"
proof (cases n)
  case (Suc k)
  define d where "d = c\<lparr>intena := (if ncli c = 0 then iflag c else intena c)\<rparr>"
  have d: "settled d" "pushcli c = pushcli d"
    using assms by (auto simp: d_def settled_def pushcli_def Let_def)
  have "(pushcli ^^ n) c = (pushcli ^^ n) d"
    using d(2) by (simp add: Suc funpow_swap1)
  with pop_n_settled [OF d(1), of n] show ?thesis by (auto simp: d_def)
qed (use assms in simp)

section \<open>Several CPUs and one lock\<close>

text \<open>
  The program counter of a CPU with respect to the lock: outside, spinning on \<open>xchg\<close>, past the
  successful \<open>xchg\<close> but before \<open>lk->cpu\<close> is written, in the critical section, and between the
  clearing of \<open>lk->cpu\<close> and the final store of \<open>release\<close>.
\<close>

datatype phase = Outside | Spinning | Got | Inside | Leaving

record mpsys =
  mp_lock :: spinlock
  mp_cpus :: "nat \<Rightarrow> cpu"
  mp_at :: "nat \<Rightarrow> phase"

inductive lock_step :: "mpsys \<Rightarrow> mpsys \<Rightarrow> bool" where
  enter: "mp_at s i = Outside \<Longrightarrow> \<not> holding i (mp_lock s) \<Longrightarrow>
    lock_step s (s\<lparr>mp_cpus := (mp_cpus s)(i := pushcli (mp_cpus s i)), mp_at := (mp_at s)(i := Spinning)\<rparr>)"
| spin: "mp_at s i = Spinning \<Longrightarrow> xchg_locked (mp_lock s) = (True, lk') \<Longrightarrow>
    lock_step s (s\<lparr>mp_lock := lk'\<rparr>)"
| got: "mp_at s i = Spinning \<Longrightarrow> xchg_locked (mp_lock s) = (False, lk') \<Longrightarrow>
    lock_step s (s\<lparr>mp_lock := lk', mp_at := (mp_at s)(i := Got)\<rparr>)"
| record_cpu: "mp_at s i = Got \<Longrightarrow>
    lock_step s (s\<lparr>mp_lock := (mp_lock s)\<lparr>owner := Some i\<rparr>, mp_at := (mp_at s)(i := Inside)\<rparr>)"
| clear_cpu: "mp_at s i = Inside \<Longrightarrow> holding i (mp_lock s) \<Longrightarrow>
    lock_step s (s\<lparr>mp_lock := (mp_lock s)\<lparr>owner := None\<rparr>, mp_at := (mp_at s)(i := Leaving)\<rparr>)"
| unlock: "mp_at s i = Leaving \<Longrightarrow> popcli (mp_cpus s i) = Some c \<Longrightarrow>
    lock_step s (s\<lparr>mp_lock := (mp_lock s)\<lparr>locked := False\<rparr>, mp_cpus := (mp_cpus s)(i := c),
                  mp_at := (mp_at s)(i := Outside)\<rparr>)"

inductive lock_reachable :: "mpsys \<Rightarrow> bool" where
  start: "\<forall>i. settled (cs i) \<Longrightarrow>
    lock_reachable \<lparr>mp_lock = initlock l0, mp_cpus = cs, mp_at = (\<lambda>_. Outside)\<rparr>"
| step: "lock_reachable s \<Longrightarrow> lock_step s t \<Longrightarrow> lock_reachable t"

definition owns :: "mpsys \<Rightarrow> nat \<Rightarrow> bool" where
  "owns s i \<longleftrightarrow> mp_at s i = Got \<or> mp_at s i = Inside \<or> mp_at s i = Leaving"

definition lock_inv :: "mpsys \<Rightarrow> bool" where
  "lock_inv s \<longleftrightarrow>
     (\<forall>i j. owns s i \<longrightarrow> owns s j \<longrightarrow> i = j) \<and>
     (\<forall>i. owns s i \<longrightarrow> locked (mp_lock s)) \<and>
     (locked (mp_lock s) \<longrightarrow> (\<exists>i. owns s i)) \<and>
     (\<forall>i. owner (mp_lock s) = Some i \<longleftrightarrow> mp_at s i = Inside) \<and>
     (\<forall>i. settled (mp_cpus s i) \<and> (mp_at s i \<noteq> Outside \<longrightarrow> 1 \<le> ncli (mp_cpus s i)))"

lemma settled_popcli: "settled c \<Longrightarrow> popcli c = Some c' \<Longrightarrow> settled c'"
  by (cases c) (auto simp: popcli_def settled_def Let_def split: if_splits)

lemma popcli_settled_Some: "settled c \<Longrightarrow> 1 \<le> ncli c \<Longrightarrow> \<exists>c'. popcli c = Some c'"
  by (auto simp: popcli_def settled_def Let_def)

lemma lock_step_inv:
  assumes "lock_step s t" "lock_inv s"
  shows "lock_inv t"
  using assms
proof (cases rule: lock_step.cases)
  case (enter i)
  then have same: "owns t j \<longleftrightarrow> owns s j" "mp_at t j = Inside \<longleftrightarrow> mp_at s j = Inside" for j
    by (auto simp: owns_def)
  have "0 \<le> ncli (mp_cpus s i)" using assms(2) by (simp add: lock_inv_def settled_def)
  moreover have "mp_lock t = mp_lock s" "mp_at t j \<noteq> Outside \<longleftrightarrow> j = i \<or> mp_at s j \<noteq> Outside"
    "mp_cpus t j = (if j = i then pushcli (mp_cpus s i) else mp_cpus s j)" for j
    using enter by auto
  ultimately show ?thesis using assms(2)
    by (simp add: lock_inv_def same settled_pushcli)
next
  case (spin i lk')
  then have "lk' = mp_lock s" by (cases "mp_lock s") (auto simp: xchg_locked_def)
  then show ?thesis using spin assms(2) by (simp add: lock_inv_def owns_def)
next
  case (got i lk')
  then have l: "\<not> locked (mp_lock s)" "lk' = (mp_lock s)\<lparr>locked := True\<rparr>" by (auto simp: xchg_locked_def)
  with assms(2) have none: "\<not> owns s j" for j by (auto simp: lock_inv_def)
  then have "mp_at s j \<noteq> Inside" for j by (auto simp: owns_def)
  with got l none assms(2) show ?thesis
    by (auto simp: lock_inv_def owns_def)
next
  case (record_cpu i)
  then have "owns s i" by (simp add: owns_def)
  with assms(2) have only: "owns s j \<longleftrightarrow> j = i" for j by (auto simp: lock_inv_def)
  then have "mp_at s j \<noteq> Inside" if "j \<noteq> i" for j using that by (auto simp: owns_def)
  moreover have "owns t j \<longleftrightarrow> j = i" for j using only record_cpu by (auto simp: owns_def)
  ultimately show ?thesis using record_cpu assms(2) only
    by (auto simp: lock_inv_def)
next
  case (clear_cpu i)
  then have "owns s i" by (simp add: owns_def)
  with assms(2) have only: "owns s j \<longleftrightarrow> j = i" for j by (auto simp: lock_inv_def)
  then have "mp_at s j \<noteq> Inside" if "j \<noteq> i" for j using that by (auto simp: owns_def)
  moreover have "owns t j \<longleftrightarrow> j = i" for j using only clear_cpu by (auto simp: owns_def)
  ultimately show ?thesis using clear_cpu assms(2) only
    by (auto simp: lock_inv_def)
next
  case (unlock i c)
  then have "owns s i" by (simp add: owns_def)
  with assms(2) have only: "owns s j \<longleftrightarrow> j = i" for j by (auto simp: lock_inv_def)
  have ins: "mp_at s j \<noteq> Inside" for j
  proof
    assume j: "mp_at s j = Inside"
    then have "owns s j" by (simp add: owns_def)
    with only have "j = i" by simp
    with j unlock show False by simp
  qed
  have none: "\<not> owns t j" for j using only unlock by (auto simp: owns_def)
  have "settled c" using unlock assms(2) by (auto simp: lock_inv_def intro: settled_popcli)
  with unlock assms(2) ins none show ?thesis
    by (auto simp: lock_inv_def)
qed

lemma lock_reachable_inv: "lock_reachable s \<Longrightarrow> lock_inv s"
proof (induction rule: lock_reachable.induct)
  case (start cs l0)
  then show ?case by (auto simp: lock_inv_def owns_def initlock_def)
next
  case (step s t)
  then show ?case by (blast intro: lock_step_inv)
qed

text \<open>No CPU that is outside, spinning or inside can be stopped by a panic of the lock code.\<close>

lemma lock_no_panic:
  assumes "lock_reachable s"
  shows "mp_at s i = Outside \<Longrightarrow> \<not> holding i (mp_lock s)"
    and "mp_at s i = Inside \<Longrightarrow> holding i (mp_lock s)"
    and "mp_at s i = Leaving \<Longrightarrow> \<exists>c. popcli (mp_cpus s i) = Some c"
proof -
  from assms have inv: "lock_inv s" by (rule lock_reachable_inv)
  then show "mp_at s i = Outside \<Longrightarrow> \<not> holding i (mp_lock s)" by (auto simp: lock_inv_def holding_def)
  from inv show "mp_at s i = Inside \<Longrightarrow> holding i (mp_lock s)"
    by (auto simp: lock_inv_def holding_def owns_def)
  assume "mp_at s i = Leaving"
  then have "mp_at s i \<noteq> Outside" by simp
  with inv have "1 \<le> ncli (mp_cpus s i)" "settled (mp_cpus s i)"
    unfolding lock_inv_def by blast+
  then show "\<exists>c. popcli (mp_cpus s i) = Some c" by (intro popcli_settled_Some)
qed

text \<open>
  The steps are those of the two routines: a CPU that meets no other on its way goes from outside to inside as \<open>acquire\<close> says,
  and back as \<open>release\<close> says.
\<close>

lemma acquire_steps:
  assumes "mp_at s i = Outside" "acquire i (mp_lock s) (mp_cpus s i) = Some (lk', c')"
  shows "lock_step\<^sup>*\<^sup>* s (s\<lparr>mp_cpus := (mp_cpus s)(i := c'), mp_lock := lk', mp_at := (mp_at s)(i := Inside)\<rparr>)"
proof -
  let ?s1 = "s\<lparr>mp_cpus := (mp_cpus s)(i := pushcli (mp_cpus s i)), mp_at := (mp_at s)(i := Spinning)\<rparr>"
  from assms(2) obtain lk where lk: "\<not> holding i (mp_lock s)" "xchg_locked (mp_lock s) = (False, lk)" "lk' = lk\<lparr>owner := Some i\<rparr>"
    "c' = pushcli (mp_cpus s i)" by (auto simp: acquire_def Let_def split: if_splits prod.splits)
  let ?s2 = "?s1\<lparr>mp_lock := lk, mp_at := (mp_at ?s1)(i := Got)\<rparr>"
  have "lock_step\<^sup>*\<^sup>* s ?s1" using lock_step.enter [OF assms(1) lk(1)] by (rule r_into_rtranclp)
  also have "lock_step ?s1 ?s2" by (rule lock_step.got) (simp_all add: lk(2))
  also (rtranclp.rtrancl_into_rtrancl) have "lock_step ?s2 (?s2\<lparr>mp_lock := (mp_lock ?s2)\<lparr>owner := Some i\<rparr>, mp_at := (mp_at ?s2)(i := Inside)\<rparr>)"
    by (rule lock_step.record_cpu) simp
  finally (rtranclp.rtrancl_into_rtrancl) show ?thesis by (simp add: lk(3,4))
qed

lemma release_steps:
  assumes "mp_at s i = Inside" "release i (mp_lock s) (mp_cpus s i) = Some (lk', c')"
  shows "lock_step\<^sup>*\<^sup>* s (s\<lparr>mp_lock := lk', mp_cpus := (mp_cpus s)(i := c'), mp_at := (mp_at s)(i := Outside)\<rparr>)"
proof -
  from assms(2) have h: "holding i (mp_lock s)" "popcli (mp_cpus s i) = Some c'" "lk' = (mp_lock s)\<lparr>owner := None, locked := False\<rparr>"
    by (auto simp: release_def Let_def split: if_splits option.splits)
  let ?s1 = "s\<lparr>mp_lock := (mp_lock s)\<lparr>owner := None\<rparr>, mp_at := (mp_at s)(i := Leaving)\<rparr>"
  have "lock_step\<^sup>*\<^sup>* s ?s1" using lock_step.clear_cpu [OF assms(1) h(1)] by (rule r_into_rtranclp)
  also have "lock_step ?s1 (?s1\<lparr>mp_lock := (mp_lock ?s1)\<lparr>locked := False\<rparr>, mp_cpus := (mp_cpus ?s1)(i := c'),
      mp_at := (mp_at ?s1)(i := Outside)\<rparr>)" by (rule lock_step.unlock) (simp_all add: h(2))
  finally (rtranclp.rtrancl_into_rtrancl) show ?thesis by (simp add: h(3))
qed

section \<open>The lock table of the running CPU\<close>

datatype lockname =
    Kmem_lock | Ptable_lock | Cons_lock | Input_lock | Ticks_lock | E1000_lock | Netlock
  | Ide_lock | Bcache_lock | Log_lock | Icache_lock | Ftable_lock
  | Pipe_lock addr | Buf_lock nat | Inode_lock nat

text \<open>One console message: the format of a \<open>cprintf\<close> call and its arguments.\<close>

datatype logmsg = Cprintf string "u64 list"

record kstate =
  cpuid :: nat
  cpu_st :: cpu
  locks :: "lockname \<Rightarrow> spinlock"
  klog :: "logmsg list"

definition k_acquire :: "lockname \<Rightarrow> 'z kstate_scheme \<Rightarrow> 'z kstate_scheme option" where
  "k_acquire l s =
     (case acquire (cpuid s) (locks s l) (cpu_st s) of None \<Rightarrow> None
      | Some (lk, c) \<Rightarrow> Some (s\<lparr>cpu_st := c, locks := (locks s)(l := lk)\<rparr>))"

definition k_release :: "lockname \<Rightarrow> 'z kstate_scheme \<Rightarrow> 'z kstate_scheme option" where
  "k_release l s =
     (case release (cpuid s) (locks s l) (cpu_st s) of None \<Rightarrow> None
      | Some (lk, c) \<Rightarrow> Some (s\<lparr>cpu_st := c, locks := (locks s)(l := lk)\<rparr>))"

definition k_pushcli :: "'z kstate_scheme \<Rightarrow> 'z kstate_scheme" where
  "k_pushcli s = s\<lparr>cpu_st := pushcli (cpu_st s)\<rparr>"

definition k_popcli :: "'z kstate_scheme \<Rightarrow> 'z kstate_scheme option" where
  "k_popcli s = (case popcli (cpu_st s) of None \<Rightarrow> None | Some c \<Rightarrow> Some (s\<lparr>cpu_st := c\<rparr>))"

definition cprintf :: "string \<Rightarrow> u64 list \<Rightarrow> 'z kstate_scheme \<Rightarrow> 'z kstate_scheme" where
  "cprintf fmt args s = s\<lparr>klog := klog s @ [Cprintf fmt args]\<rparr>"

text \<open>A lock that nobody holds, and the lock as this CPU holds it.\<close>

definition free_lock :: spinlock where
  "free_lock = \<lparr>locked = False, owner = None\<rparr>"

definition held_lock :: "nat \<Rightarrow> spinlock" where
  "held_lock me = \<lparr>locked = True, owner = Some me\<rparr>"

text \<open>
  In a settled state a critical section is invisible from outside: taking a free lock and
  releasing it gives back the very same lock table and CPU state.
\<close>

lemma k_acquire_free:
  assumes "locks s l = free_lock"
  shows "k_acquire l s = Some (s\<lparr>cpu_st := pushcli (cpu_st s), locks := (locks s)(l := held_lock (cpuid s))\<rparr>)"
  using assms
  by (simp add: k_acquire_def acquire_def xchg_locked_def holding_def free_lock_def held_lock_def Let_def)

lemma k_release_held:
  assumes "locks s = ls(l := held_lock (cpuid s))" "cpu_st s = pushcli c" "settled c" "ls l = free_lock"
  shows "k_release l s = Some (s\<lparr>cpu_st := c, locks := ls\<rparr>)"
proof -
  have "ls(l := free_lock) = ls" using assms(4) by (simp add: fun_upd_idem)
  then show ?thesis using assms popcli_pushcli [OF assms(3)]
    by (simp add: k_release_def release_def holding_def free_lock_def held_lock_def Let_def)
qed

lemma k_popcli_push:
  "cpu_st s = pushcli c \<Longrightarrow> settled c \<Longrightarrow> k_popcli s = Some (s\<lparr>cpu_st := c\<rparr>)"
  by (simp add: k_popcli_def popcli_pushcli)

lemma k_acquire_held: "locks s l = held_lock (cpuid s) \<Longrightarrow> k_acquire l s = None"
  by (simp add: k_acquire_def acquire_def holding_def held_lock_def Let_def)

section \<open>Properties\<close>

text \<open>C18: Mutual exclusion of the spin lock on any number of CPUs: in every state that the atomic
  steps of \<open>acquire\<close> and \<open>release\<close> can reach, at most one CPU is past its successful \<open>xchg\<close>, a CPU
  inside the critical section is the one that \<open>lk->cpu\<close> names, and neither the panic of \<open>acquire\<close>
  nor the panics of \<open>release\<close> and \<open>popcli\<close> can fire.\<close>

theorem spinlock_mutual_exclusion:
  assumes "lock_reachable s"
  shows "(\<forall>i j. owns s i \<longrightarrow> owns s j \<longrightarrow> i = j) \<and>
    (\<forall>i. mp_at s i = Inside \<longrightarrow> holding i (mp_lock s)) \<and>
    (\<forall>i. mp_at s i = Outside \<longrightarrow> \<not> holding i (mp_lock s)) \<and>
    (\<forall>i. mp_at s i = Leaving \<longrightarrow> (\<exists>c. popcli (mp_cpus s i) = Some c))"
  using lock_reachable_inv [OF assms] lock_no_panic [OF assms] unfolding lock_inv_def by blast

theorem spinlock_mutual_exclusion_witness:
  "\<exists>s. lock_reachable s \<and> mp_at s 1 = Got \<and> mp_at s 0 = Spinning \<and> \<not> owns s 0"
proof -
  define cs :: "nat \<Rightarrow> cpu" where "cs = (\<lambda>_. \<lparr>ncli = 0, intena = True, iflag = True\<rparr>)"
  define s0 where "s0 = \<lparr>mp_lock = initlock (initlock \<lparr>locked = True, owner = None\<rparr>), mp_cpus = cs, mp_at = (\<lambda>_. Outside)\<rparr>"
  define s1 where "s1 = s0\<lparr>mp_cpus := cs(0 := pushcli (cs 0)), mp_at := (\<lambda>_. Outside)(0 := Spinning)\<rparr>"
  define s2 where "s2 = s1\<lparr>mp_cpus := (mp_cpus s1)(1 := pushcli (mp_cpus s1 1)), mp_at := (mp_at s1)(1 := Spinning)\<rparr>"
  define s3 where "s3 = s2\<lparr>mp_lock := (mp_lock s2)\<lparr>locked := True\<rparr>, mp_at := (mp_at s2)(1 := Got)\<rparr>"
  have "lock_reachable s0"
    unfolding s0_def by (rule lock_reachable.start) (simp add: cs_def settled_def)
  moreover have "lock_step s0 s1"
    using lock_step.enter [of s0 0] by (simp add: s0_def s1_def holding_def initlock_def)
  moreover have "lock_step s1 s2"
    unfolding s2_def by (rule lock_step.enter) (simp_all add: s0_def s1_def holding_def initlock_def)
  moreover have "lock_step s2 s3"
    unfolding s3_def by (rule lock_step.got) (simp_all add: s0_def s1_def s2_def xchg_locked_def initlock_def)
  ultimately have r: "lock_reachable s3" by (blast intro: lock_reachable.step)
  have g: "mp_at s3 1 = Got" "mp_at s3 0 = Spinning" by (simp_all add: s0_def s1_def s2_def s3_def)
  then have "owns s3 1" by (simp add: owns_def)
  with spinlock_mutual_exclusion [OF r] have "\<not> owns s3 0" by (metis zero_neq_one)
  with r g show ?thesis by blast
qed

lemma ncli_push_n: "ncli ((pushcli ^^ k) c) = ncli c + int k"
  by (induction k) (simp_all add: pushcli_def Let_def)

text \<open>C19: Nested interrupt-disabled sections, as deep as the \<open>int\<close> counter \<open>ncli\<close> can count: after \<open>n\<close> calls
  of \<open>pushcli\<close>, none of which leaves the range of the counter, and as many of \<open>popcli\<close> no panic has
  occurred and the interrupt flag and the nesting depth are what they were, whatever \<open>intena\<close> an
  earlier section left behind.\<close>

theorem pushcli_popcli_nest:
  assumes "0 \<le> ncli c" "0 < ncli c \<Longrightarrow> \<not> iflag c" "ncli c + int n < 2 ^ 31"
  shows "(\<forall>k\<le>n. 0 \<le> ncli ((pushcli ^^ k) c) \<and> ncli ((pushcli ^^ k) c) < 2 ^ 31) \<and>
    (\<exists>c'. pop_n n ((pushcli ^^ n) c) = Some c' \<and> ncli c' = ncli c \<and> iflag c' = iflag c)"
proof
  show "\<forall>k\<le>n. 0 \<le> ncli ((pushcli ^^ k) c) \<and> ncli ((pushcli ^^ k) c) < 2 ^ 31"
    unfolding ncli_push_n using assms(1,3) by (metis add_increasing2 add_left_mono of_nat_0_le_iff of_nat_mono order_le_less_trans)
  show "\<exists>c'. pop_n n ((pushcli ^^ n) c) = Some c' \<and> ncli c' = ncli c \<and> iflag c' = iflag c"
    using assms(1,2) by (rule pop_n_push_n)
qed

theorem pushcli_popcli_nest_witness:
  "\<exists>c'. pop_n 3 ((pushcli ^^ 3) \<lparr>ncli = 0, intena = False, iflag = True\<rparr>) = Some c' \<and> iflag c'"
  using pushcli_popcli_nest [of "\<lparr>ncli = 0, intena = False, iflag = True\<rparr>" 3] by auto

end
