(* ===== verification/Kalloc.thy ===== *)
theory Kalloc
  imports CString Spinlock
begin

text \<open>
  The physical page allocator (\<^verbatim>\<open>kalloc.c\<close>). A free page holds the link to the next free page in
  its first eight bytes, so the free list lives in the memory it manages: \<open>kfree\<close> fills the page
  with junk, stores the old head into it and makes it the head; \<open>kalloc\<close> pops the head.

  The abstraction of the linked list is the list of its pages (\<open>free_chain\<close>). The allocator is
  shown to be a stack of distinct valid pages, which is stated as the interface \<open>page_pool\<close>;
  the lemmas that clients need (several allocations return distinct pages) are proved once
  in that locale and used through its interpretation here.
\<close>

section \<open>State and operations\<close>

text \<open>
  \<open>mem\<close> is the memory seen through the direct map; \<open>freelist\<close> and \<open>use_lock\<close> are the fields of
  \<open>kmem\<close> (its lock is \<open>Kmem_lock\<close>); \<open>kend\<close> is the address of the linker symbol \<open>end\<close>.
\<close>

record kmem = kstate +
  mem :: memory
  freelist :: addr
  use_lock :: bool
  kend :: addr

definition kfree :: "addr \<Rightarrow> 'z kmem_scheme \<Rightarrow> 'z kmem_scheme option" where
  "kfree v s =
     (if v mod PGSIZE \<noteq> 0 \<or> v < kend s \<or> PHYSTOP \<le> V2P v then None
      else do {
        let s = s\<lparr>mem := memset (mem s) v 1 PGSIZE\<rparr>;
        s \<leftarrow> (if use_lock s then k_acquire Kmem_lock s else Some s);
        let s = s\<lparr>mem := st64 (mem s) v (freelist s), freelist := v\<rparr>;
        (if use_lock s then k_release Kmem_lock s else Some s)
      })"

definition kalloc :: "'z kmem_scheme \<Rightarrow> (addr \<times> 'z kmem_scheme) option" where
  "kalloc s = do {
     s \<leftarrow> (if use_lock s then k_acquire Kmem_lock s else Some s);
     let r = freelist s;
     let s = (if r \<noteq> 0 then s\<lparr>freelist := ld64 (mem s) r\<rparr> else s);
     s \<leftarrow> (if use_lock s then k_release Kmem_lock s else Some s);
     Some (r, s)
   }"

lemma kfree_Some_guard:
  assumes "kfree v s = Some s'"
  shows "v mod PGSIZE = 0" "kend s \<le> v" "V2P v < PHYSTOP"
  using assms by (auto simp: kfree_def split: if_splits)

lemma kernel_page_bound: "V2P v < PHYSTOP \<Longrightarrow> KERNBASE \<le> v \<Longrightarrow> unat v < 2 ^ 64 - 8192"
proof -
  assume h: "V2P v < PHYSTOP" "KERNBASE \<le> v"
  then have "unat (V2P v) = unat v - unat KERNBASE"
    unfolding V2P_def by (intro unat_sub) auto
  then show ?thesis using h by (simp add: layout word_less_nat_alt word_le_nat_alt)
qed

text \<open>
  The loop of \<open>freerange\<close>. It runs upwards page by page; it cannot run over the top of the
  address space, since \<open>kfree\<close> panics on an address that is not below \<open>P2V(PHYSTOP)\<close>.
\<close>

lemma freerange_decreases:
  assumes "kfree p s = Some s'"
  shows "unat (p + PGSIZE - KERNBASE) = unat (p - KERNBASE) + 4096"
proof -
  from kfree_Some_guard(3) [OF assms] have "unat (p - KERNBASE) < unat PHYSTOP"
    by (simp add: V2P_def word_less_nat_alt)
  moreover have "unat PHYSTOP = 234881024" by (simp add: PHYSTOP_def)
  ultimately have "unat ((p - KERNBASE) + PGSIZE) = unat (p - KERNBASE) + unat PGSIZE"
    by (intro unat_sum_no_wrap) simp
  moreover have "p + PGSIZE - KERNBASE = (p - KERNBASE) + PGSIZE" by simp
  ultimately show ?thesis by (simp only: unat_PGSIZE)
qed

function freerange_loop :: "addr \<Rightarrow> addr \<Rightarrow> 'z kmem_scheme \<Rightarrow> 'z kmem_scheme option" where
  "freerange_loop p vend s =
     (if p + PGSIZE \<le> vend then do { s \<leftarrow> kfree p s; freerange_loop (p + PGSIZE) vend s }
      else Some s)"
  by pat_completeness auto
termination
proof (relation "measure (\<lambda>(p, vend, s). 2 ^ 64 - unat (p - KERNBASE))", goal_cases)
  case (2 p vend s s')
  then have "unat (p + PGSIZE - KERNBASE) = unat (p - KERNBASE) + 4096"
    by (intro freerange_decreases) simp
  with unat_lt64 [of "p - KERNBASE"] show ?case by simp
qed simp

declare freerange_loop.simps [simp del]

definition freerange :: "addr \<Rightarrow> addr \<Rightarrow> 'z kmem_scheme \<Rightarrow> 'z kmem_scheme option" where
  "freerange vstart vend s = freerange_loop (PGROUNDUP vstart) vend s"

definition kinit1 :: "addr \<Rightarrow> addr \<Rightarrow> 'z kmem_scheme \<Rightarrow> 'z kmem_scheme option" where
  "kinit1 vstart vend s =
     (let s = s\<lparr>locks := (locks s)(Kmem_lock := initlock (locks s Kmem_lock)), use_lock := False,
                freelist := 0\<rparr>
      in freerange vstart vend s)"

definition kinit2 :: "'z kmem_scheme \<Rightarrow> 'z kmem_scheme" where
  "kinit2 s = s\<lparr>use_lock := True\<rparr>"

section \<open>Abstraction\<close>

text \<open>A page that \<open>kfree\<close> accepts.\<close>

definition valid_page :: "addr \<Rightarrow> addr \<Rightarrow> bool" where
  "valid_page e v \<longleftrightarrow> page_aligned v \<and> e \<le> v \<and> V2P v < PHYSTOP"

text \<open>The pages linked from \<open>p\<close> on, following the pointer stored in each of them.\<close>

primrec free_chain :: "memory \<Rightarrow> addr \<Rightarrow> addr list \<Rightarrow> bool" where
  "free_chain m p [] \<longleftrightarrow> p = 0"
| "free_chain m p (q # qs) \<longleftrightarrow> p = q \<and> q \<noteq> 0 \<and> free_chain m (ld64 m q) qs"

text \<open>The allocator can take its lock: it is free and the CPU's nesting is settled.\<close>

definition kmem_lockable :: "'z kmem_scheme \<Rightarrow> bool" where
  "kmem_lockable s \<longleftrightarrow> (use_lock s \<longrightarrow> locks s Kmem_lock = free_lock \<and> settled (cpu_st s))"

definition kmem_wf :: "'z kmem_scheme \<Rightarrow> addr list \<Rightarrow> bool" where
  "kmem_wf s ps \<longleftrightarrow>
     KERNBASE \<le> kend s \<and> kmem_lockable s \<and>
     free_chain (mem s) (freelist s) ps \<and> distinct ps \<and> list_all (valid_page (kend s)) ps"

section \<open>The operations without the lock\<close>

lemma kalloc_eq:
  assumes "kmem_lockable s"
  shows "kalloc s = Some (freelist s,
    if freelist s = 0 then s else s\<lparr>freelist := ld64 (mem s) (freelist s)\<rparr>)"
proof (cases "use_lock s")
  case True
  with assms have l: "locks s Kmem_lock = free_lock" "settled (cpu_st s)" by (auto simp: kmem_lockable_def)
  show ?thesis using True l
    by (simp add: kalloc_def k_acquire_free Let_def k_release_held [where l = Kmem_lock and c = "cpu_st s" and ls = "locks s"])
next
  case False
  then show ?thesis by (simp add: kalloc_def Let_def)
qed

lemma memset_page: "memset m v c PGSIZE = mfill m v (ucast c) 4096"
  by (simp add: memset_eq_mfill PGSIZE_def)

lemma kfree_eq:
  assumes "kmem_lockable s" "valid_page (kend s) v"
  shows "kfree v s = Some (s\<lparr>mem := st64 (mfill (mem s) v 1 4096) v (freelist s), freelist := v\<rparr>)"
proof -
  have g: "\<not> (v mod PGSIZE \<noteq> 0 \<or> v < kend s \<or> PHYSTOP \<le> V2P v)"
    using assms(2) by (auto simp: valid_page_def)
  show ?thesis
  proof (cases "use_lock s")
    case True
    with assms have l: "locks s Kmem_lock = free_lock" "settled (cpu_st s)" by (auto simp: kmem_lockable_def)
    show ?thesis using True l g
      by (simp add: kfree_def k_acquire_free Let_def memset_page k_release_held [where l = Kmem_lock and c = "cpu_st s" and ls = "locks s"])
  next
    case False
    then show ?thesis using g by (simp add: kfree_def Let_def memset_page)
  qed
qed

lemma kfree_invalid: "\<not> valid_page (kend s) v \<Longrightarrow> kfree v s = None"
  by (auto simp: kfree_def valid_page_def)

section \<open>The free list as a list of pages\<close>

lemma valid_page_nonzero: "KERNBASE \<le> e \<Longrightarrow> valid_page e v \<Longrightarrow> v \<noteq> 0"
  by (auto simp: valid_page_def layout)

lemma free_chain_frame:
  assumes "\<And>q. q \<in> set qs \<Longrightarrow> ld64 m' q = ld64 m q"
  shows "free_chain m' p qs \<longleftrightarrow> free_chain m p qs"
  using assms by (induction qs arbitrary: p) auto

lemma ld64_page_frame:
  assumes "page_aligned v" "page_aligned q" "v \<noteq> q"
  shows "ld64 (st64 (mfill m v c 4096) v w) q = ld64 m q"
proof -
  have "apart q 8 v 4096" "apart q 8 v 8" using assms by (auto intro!: apart_pages [of q v])
  then show ?thesis by (simp add: ld64_st64_apart ld64_mfill_apart)
qed

lemma kalloc_empty:
  assumes "kmem_wf s []"
  shows "kalloc s = Some (0, s)"
  using assms by (simp add: kmem_wf_def kalloc_eq)

lemma kalloc_pop:
  assumes "kmem_wf s (p # ps)"
  shows "kalloc s = Some (p, s\<lparr>freelist := ld64 (mem s) p\<rparr>)"
    and "kmem_wf (s\<lparr>freelist := ld64 (mem s) p\<rparr>) ps"
proof -
  show "kalloc s = Some (p, s\<lparr>freelist := ld64 (mem s) p\<rparr>)"
    using assms by (auto simp: kmem_wf_def kalloc_eq)
  show "kmem_wf (s\<lparr>freelist := ld64 (mem s) p\<rparr>) ps"
    using assms by (auto simp: kmem_wf_def kmem_lockable_def)
qed

lemma kfree_push:
  assumes "kmem_wf s ps" "valid_page (kend s) v" "v \<notin> set ps"
  shows "kmem_wf (s\<lparr>mem := st64 (mfill (mem s) v 1 4096) v (freelist s), freelist := v\<rparr>) (v # ps)"
proof -
  let ?m = "st64 (mfill (mem s) v 1 4096) v (freelist s)"
  have al: "page_aligned v" using assms(2) by (simp add: valid_page_def)
  have "ld64 ?m q = ld64 (mem s) q" if "q \<in> set ps" for q
    using assms that al
    by (intro ld64_page_frame [of v]) (auto simp: kmem_wf_def list_all_iff valid_page_def)
  from free_chain_frame [of ps ?m "mem s", OF this] have "free_chain ?m (freelist s) ps"
    using assms(1) by (simp add: kmem_wf_def)
  moreover have "v \<noteq> 0" using assms by (auto simp: kmem_wf_def dest: valid_page_nonzero)
  ultimately show ?thesis using assms
    by (auto simp: kmem_wf_def kmem_lockable_def mem_simps)
qed

text \<open>\<open>kfree\<close> writes to the freed page only.\<close>

lemma kfree_mem_frame:
  "4096 \<le> unat (x - v) \<Longrightarrow> st64 (mfill m v 1 4096) v w x = m x"
  by (simp add: st64_def mwrite_def mfill_def)

section \<open>Building the free list at boot\<close>

lemma kernel_addr_step:
  assumes "KERNBASE \<le> p" "V2P p < PHYSTOP"
  shows "unat (p + PGSIZE) = unat p + 4096"
proof -
  have "unat p + unat PGSIZE < 2 ^ 64" using kernel_page_bound [OF assms(2,1)] by simp
  then have "unat (p + PGSIZE) = unat p + unat PGSIZE" by (rule unat_sum_no_wrap)
  then show ?thesis by (simp only: unat_PGSIZE)
qed

lemma V2P_less_iff:
  assumes "KERNBASE \<le> a" "KERNBASE \<le> b"
  shows "V2P a < V2P b \<longleftrightarrow> a < b" "V2P a \<le> V2P b \<longleftrightarrow> a \<le> b"
proof -
  have "unat (V2P x) = unat x - unat KERNBASE" "unat KERNBASE \<le> unat x" if "KERNBASE \<le> x" for x
    using that unfolding V2P_def by (auto intro!: unat_sub simp: word_le_nat_alt)
  from this [OF assms(1)] this [OF assms(2)] show
    "V2P a < V2P b \<longleftrightarrow> a < b" "V2P a \<le> V2P b \<longleftrightarrow> a \<le> b"
    by (auto simp: word_less_nat_alt word_le_nat_alt)
qed

text \<open>The \<open>n\<close> pages from \<open>p\<close> on, lowest first.\<close>

definition pages_from :: "addr \<Rightarrow> nat \<Rightarrow> addr list" where
  "pages_from p n = map (\<lambda>i. p + of_nat (4096 * i)) [0..<n]"

lemma pages_from_Suc: "pages_from p (Suc n) = p # pages_from (p + PGSIZE) n"
  by (simp add: pages_from_def upt_conv_Cons map_Suc_upt [symmetric] comp_def PGSIZE_def algebra_simps
      del: upt_Suc)

lemma freerange_loop_wf:
  assumes "kmem_wf s ps" "page_aligned p" "kend s \<le> p" "p \<le> vend" "V2P vend \<le> PHYSTOP"
    "\<And>q. q \<in> set ps \<Longrightarrow> q < p" "n = (unat vend - unat p) div 4096"
  shows "\<exists>s'. freerange_loop p vend s = Some s' \<and> kend s' = kend s \<and>
    kmem_wf s' (rev (pages_from p n) @ ps)"
  using assms
proof (induction n arbitrary: p s ps)
  case 0
  have kb: "KERNBASE \<le> p" using 0 by (auto simp: kmem_wf_def)
  then have "KERNBASE \<le> vend" using 0 by auto
  have "\<not> p + PGSIZE \<le> vend"
  proof (cases "V2P p < PHYSTOP")
    case True
    then show ?thesis using kernel_addr_step [OF kb True] 0 by (auto simp: word_le_nat_alt)
  next
    case False
    with 0 kb \<open>KERNBASE \<le> vend\<close> have "p = vend"
      using V2P_less_iff [of p vend] by force
    have "unat (p - KERNBASE) \<le> unat PHYSTOP" using 0 \<open>p = vend\<close> by (simp add: V2P_def word_le_nat_alt)
    moreover have "unat (p - KERNBASE) = unat p - unat KERNBASE"
      using kb by (intro unat_sub) auto
    ultimately have "unat p + unat PGSIZE < 2 ^ 64" by (simp add: layout)
    then have "unat (p + PGSIZE) = unat p + unat PGSIZE" by (rule unat_sum_no_wrap)
    then have "unat (p + PGSIZE) = unat p + 4096" by (simp only: unat_PGSIZE)
    with \<open>p = vend\<close> show ?thesis by (auto simp: word_le_nat_alt)
  qed
  with 0 show ?case by (subst freerange_loop.simps) (simp add: pages_from_def)
next
  case (Suc n)
  have kb: "KERNBASE \<le> p" using Suc.prems by (auto simp: kmem_wf_def)
  have "Suc n * 4096 \<le> unat vend - unat p"
    using Suc.prems(7) by (metis div_times_less_eq_dividend)
  then have lt: "unat p + 4096 \<le> unat vend" by simp
  then have "p < vend" by (simp add: word_less_nat_alt)
  moreover have "KERNBASE \<le> vend" using kb Suc.prems(4) by simp
  ultimately have "V2P p < V2P vend" using V2P_less_iff(1) [OF kb] by simp
  then have pp: "V2P p < PHYSTOP" using Suc.prems(5) by simp
  have step: "unat (p + PGSIZE) = unat p + 4096" using kb pp by (rule kernel_addr_step)
  have vp: "valid_page (kend s) p" using Suc.prems pp by (simp add: valid_page_def)
  have nin: "p \<notin> set ps" using Suc.prems(6) by blast
  let ?s = "s\<lparr>mem := st64 (mfill (mem s) p 1 4096) p (freelist s), freelist := p\<rparr>"
  have kf: "kfree p s = Some ?s" using Suc.prems(1) vp by (intro kfree_eq) (auto simp: kmem_wf_def)
  have "\<exists>s'. freerange_loop (p + PGSIZE) vend ?s = Some s' \<and> kend s' = kend ?s \<and>
      kmem_wf s' (rev (pages_from (p + PGSIZE) n) @ p # ps)"
  proof (rule Suc.IH)
    show "kmem_wf ?s (p # ps)" using Suc.prems(1) vp nin by (rule kfree_push)
    have "page_aligned PGSIZE" by (simp add: page_aligned_def PGSIZE_def)
    then show "page_aligned (p + PGSIZE)" using Suc.prems(2) by (intro page_aligned_add)
    show "kend ?s \<le> p + PGSIZE" "p + PGSIZE \<le> vend"
      using Suc.prems(3) lt by (simp_all add: word_le_nat_alt step)
    show "V2P vend \<le> PHYSTOP" by (fact Suc.prems(5))
    show "q < p + PGSIZE" if "q \<in> set (p # ps)" for q
      using Suc.prems(6) [of q] that by (auto simp: word_less_nat_alt step)
    have "(unat vend - unat p) div 4096 = Suc ((unat vend - unat p - 4096) div 4096)"
      using lt by (intro le_div_geq) auto
    then have "n = (unat vend - unat p - 4096) div 4096" using Suc.prems(7) by simp
    then show "n = (unat vend - unat (p + PGSIZE)) div 4096" by (simp add: step)
  qed
  moreover have "p + PGSIZE \<le> vend" using lt step by (simp add: word_le_nat_alt)
  ultimately show ?case using kf by (subst freerange_loop.simps) (simp add: pages_from_Suc)
qed

section \<open>The allocator as an interface\<close>

text \<open>
  What a client of the allocator may rely on: the pool is a list of distinct valid non-null
  pages, \<open>alloc\<close> takes its head and returns null exactly when it is empty, and \<open>free\<close> puts a
  valid page that is not in the pool back.
\<close>

locale page_pool =
  fixes alloc :: "'s \<Rightarrow> (addr \<times> 's) option"
    and free :: "addr \<Rightarrow> 's \<Rightarrow> 's option"
    and pool :: "'s \<Rightarrow> addr list \<Rightarrow> bool"
    and valid :: "'s \<Rightarrow> addr \<Rightarrow> bool"
  assumes alloc_empty: "pool s [] \<Longrightarrow> alloc s = Some (0, s)"
    and alloc_pop: "pool s (p # ps) \<Longrightarrow> \<exists>s'. alloc s = Some (p, s') \<and> pool s' ps \<and> valid s' = valid s"
    and free_push: "pool s ps \<Longrightarrow> valid s v \<Longrightarrow> v \<notin> set ps \<Longrightarrow>
      \<exists>s'. free v s = Some s' \<and> pool s' (v # ps) \<and> valid s' = valid s"
    and pool_pages: "pool s ps \<Longrightarrow> distinct ps \<and> 0 \<notin> set ps \<and> list_all (valid s) ps"
begin

lemma alloc_null_iff:
  assumes "pool s ps"
  shows "\<exists>r s'. alloc s = Some (r, s') \<and> (r = 0 \<longleftrightarrow> ps = [])"
proof (cases ps)
  case Nil
  then show ?thesis using assms alloc_empty by simp
next
  case (Cons p qs)
  then show ?thesis using assms alloc_pop [of s p qs] pool_pages [of s ps] by auto
qed

text \<open>Allocating again after a free returns the freed page: the pool is a stack.\<close>

lemma alloc_after_free:
  assumes "pool s ps" "valid s v" "v \<notin> set ps"
  shows "\<exists>s' s''. free v s = Some s' \<and> alloc s' = Some (v, s'') \<and> pool s'' ps"
  using free_push [OF assms] alloc_pop by blast

end

text \<open>A run of \<open>n\<close> allocations.\<close>

fun alloc_n :: "('s \<Rightarrow> (addr \<times> 's) option) \<Rightarrow> nat \<Rightarrow> 's \<Rightarrow> (addr list \<times> 's) option" where
  "alloc_n al 0 s = Some ([], s)"
| "alloc_n al (Suc n) s =
     do { (p, s) \<leftarrow> al s; (ps, s) \<leftarrow> alloc_n al n s; Some (p # ps, s) }"

context page_pool
begin

lemma alloc_n_take:
  assumes "pool s ps" "n \<le> length ps"
  shows "\<exists>s'. alloc_n alloc n s = Some (take n ps, s') \<and> pool s' (drop n ps)"
  using assms
proof (induction n arbitrary: s ps)
  case 0
  then show ?case by simp
next
  case (Suc n)
  then obtain p qs where ps: "ps = p # qs" by (cases ps) auto
  from alloc_pop [of s p qs] Suc.prems ps obtain s1 where s1: "alloc s = Some (p, s1)" "pool s1 qs" by auto
  from Suc.IH [OF s1(2)] Suc.prems ps obtain s2 where
    "alloc_n alloc n s1 = Some (take n qs, s2)" "pool s2 (drop n qs)" by auto
  with s1 ps show ?case by auto
qed

lemma alloc_n_distinct:
  assumes "pool s ps" "n \<le> length ps"
  shows "\<exists>qs s'. alloc_n alloc n s = Some (qs, s') \<and> length qs = n \<and> distinct qs \<and> 0 \<notin> set qs \<and>
    pool s' (drop n ps) \<and> set qs \<inter> set (drop n ps) = {}"
proof -
  from alloc_n_take [OF assms] obtain s' where
    s': "alloc_n alloc n s = Some (take n ps, s')" "pool s' (drop n ps)" by blast
  from pool_pages [OF assms(1)] have d: "distinct ps" "0 \<notin> set ps" by auto
  have "set (take n ps) \<inter> set (drop n ps) = {}" using d(1) by (rule set_take_disj_set_drop_if_distinct) simp
  with s' d assms(2) show ?thesis by (auto dest: in_set_takeD)
qed

end

interpretation kpool: page_pool kalloc kfree kmem_wf "\<lambda>s. valid_page (kend s)"
proof
  fix s :: "'a kmem_scheme"
  show "kmem_wf s [] \<Longrightarrow> kalloc s = Some (0, s)" by (rule kalloc_empty)
next
  fix s :: "'a kmem_scheme" and p ps
  assume "kmem_wf s (p # ps)"
  from kalloc_pop [OF this] show
    "\<exists>s'. kalloc s = Some (p, s') \<and> kmem_wf s' ps \<and> valid_page (kend s') = valid_page (kend s)"
    by auto
next
  fix s :: "'a kmem_scheme" and ps v
  assume h: "kmem_wf s ps" "valid_page (kend s) v" "v \<notin> set ps"
  then have "kmem_lockable s" by (simp add: kmem_wf_def)
  from kfree_eq [OF this h(2)] kfree_push [OF h] show
    "\<exists>s'. kfree v s = Some s' \<and> kmem_wf s' (v # ps) \<and> valid_page (kend s') = valid_page (kend s)"
    by auto
next
  fix s :: "'a kmem_scheme" and ps
  assume "kmem_wf s ps"
  then show "distinct ps \<and> 0 \<notin> set ps \<and> list_all (valid_page (kend s)) ps"
    by (auto simp: kmem_wf_def list_all_iff dest: valid_page_nonzero)
qed

section \<open>A concrete pool\<close>

text \<open>A state of the allocator with given free pages, for the concrete instances below.\<close>

definition push_page :: "addr \<Rightarrow> 'z kmem_scheme \<Rightarrow> 'z kmem_scheme" where
  "push_page v s = s\<lparr>mem := st64 (mfill (mem s) v 1 4096) v (freelist s), freelist := v\<rparr>"

definition fill_pool :: "addr list \<Rightarrow> 'z kmem_scheme \<Rightarrow> 'z kmem_scheme" where
  "fill_pool ps s = foldr push_page ps s"

definition sample_page :: "nat \<Rightarrow> addr" where
  "sample_page i = KERNBASE + 0x400000 + of_nat (4096 * i)"

definition sample_kmem :: kmem where
  "sample_kmem = \<lparr>cpuid = 0, cpu_st = \<lparr>ncli = 0, intena = True, iflag = True\<rparr>, locks = (\<lambda>_. free_lock),
     klog = [], mem = (\<lambda>_. 0), freelist = 0, use_lock = True, kend = KERNBASE + 0x200000\<rparr>"

lemma fill_pool_kend [simp]: "kend (fill_pool ps s) = kend s"
  by (induction ps) (simp_all add: fill_pool_def push_page_def)

lemma fill_pool_wf:
  assumes "kmem_wf s []" "distinct ps" "list_all (valid_page (kend s)) ps"
  shows "kmem_wf (fill_pool ps s) ps"
  using assms(2,3)
proof (induction ps)
  case Nil
  then show ?case using assms(1) by (simp add: fill_pool_def)
next
  case (Cons p ps)
  then have "kmem_wf (push_page p (fill_pool ps s)) (p # ps)"
    unfolding push_page_def by (intro kfree_push) simp_all
  then show ?case by (simp add: fill_pool_def)
qed

lemma sample_kmem_wf: "kmem_wf sample_kmem []"
  by (simp add: sample_kmem_def kmem_wf_def kmem_lockable_def settled_def layout)

lemma sample_page_eq_iff:
  assumes "i < 1000" "j < 1000"
  shows "sample_page i = sample_page j \<longleftrightarrow> i = j"
proof
  assume "sample_page i = sample_page j"
  then have "unat (of_nat (4096 * i) :: u64) = unat (of_nat (4096 * j) :: u64)"
    by (simp add: sample_page_def del: of_nat_mult)
  then show "i = j" using assms by (simp add: unat64_of_nat del: of_nat_mult)
qed simp

lemma sample_page_valid:
  assumes "i < 1000"
  shows "valid_page (KERNBASE + 0x200000) (sample_page i)"
proof -
  have u: "unat (of_nat (4096 * i) :: u64) = 4096 * i" using assms by (intro unat64_of_nat) simp
  have "unat (0xFFFF800000400000 + of_nat (4096 * i) :: u64) = 0xFFFF800000400000 + 4096 * i"
    using assms u by (subst unat_sum_no_wrap) simp_all
  then have "unat (sample_page i) = 0xFFFF800000400000 + 4096 * i"
    by (simp add: sample_page_def KERNBASE_def)
  moreover have "V2P (sample_page i) = 0x400000 + of_nat (4096 * i)"
    by (simp add: V2P_def sample_page_def del: of_nat_mult)
  then have "unat (V2P (sample_page i)) = 0x400000 + 4096 * i"
    using assms u by (simp only:) (subst unat_sum_no_wrap, simp_all)
  moreover have "(0xFFFF800000400000 + 4096 * i) mod 4096 = 0" by simp
  ultimately show ?thesis using assms
    by (simp add: valid_page_def page_aligned_unat word_le_nat_alt word_less_nat_alt KERNBASE_def PHYSTOP_def)
qed

lemma sample_pages:
  assumes "set is \<subseteq> {..<1000}"
  shows "list_all (valid_page (KERNBASE + 0x200000)) (map sample_page is)"
    and "distinct (map sample_page is) \<longleftrightarrow> distinct is"
proof -
  show "list_all (valid_page (KERNBASE + 0x200000)) (map sample_page is)"
    using assms sample_page_valid by (auto simp: list_all_iff)
  have "inj_on sample_page (set is)"
    using assms sample_page_eq_iff by (intro inj_onI) blast
  then show "distinct (map sample_page is) \<longleftrightarrow> distinct is" by (simp add: distinct_map)
qed

lemma sample_pool_wf:
  assumes "distinct is" "set is \<subseteq> {..<1000}"
  shows "kmem_wf (fill_pool (map sample_page is) sample_kmem) (map sample_page is)"
proof -
  have "kend sample_kmem = KERNBASE + 0x200000" by (simp add: sample_kmem_def)
  with sample_kmem_wf sample_pages [OF assms(2)] assms(1) show ?thesis by (intro fill_pool_wf) simp_all
qed

section \<open>Properties\<close>

text \<open>C13: The free list built in memory implements a stack of pages. In a state whose list holds the
  pages \<open>ps\<close>, \<open>kalloc\<close> returns its first page and leaves the rest, or null and an unchanged state
  when there is none; \<open>kfree\<close> of a valid page that is not free makes it the first page, and of
  anything that is not a valid page panics.\<close>

theorem kalloc_kfree_refine_stack:
  assumes "kmem_wf s ps"
  shows "(case ps of [] \<Rightarrow> kalloc s = Some (0, s)
          | p # qs \<Rightarrow> \<exists>s'. kalloc s = Some (p, s') \<and> mem s' = mem s \<and> kmem_wf s' qs) \<and>
    (\<forall>v. valid_page (kend s) v \<longrightarrow> v \<notin> set ps \<longrightarrow> (\<exists>s'. kfree v s = Some s' \<and> kmem_wf s' (v # ps))) \<and>
    (\<forall>v. \<not> valid_page (kend s) v \<longrightarrow> kfree v s = None)"
proof (intro conjI allI impI)
  show "case ps of [] \<Rightarrow> kalloc s = Some (0, s)
      | p # qs \<Rightarrow> \<exists>s'. kalloc s = Some (p, s') \<and> mem s' = mem s \<and> kmem_wf s' qs"
    using assms kalloc_pop [of s] by (cases ps) (auto simp: kalloc_empty)
  show "\<exists>s'. kfree v s = Some s' \<and> kmem_wf s' (v # ps)" if "valid_page (kend s) v" "v \<notin> set ps" for v
    using kpool.free_push [OF assms that] by blast
  show "kfree v s = None" if "\<not> valid_page (kend s) v" for v using that by (rule kfree_invalid)
qed

theorem kalloc_kfree_refine_stack_witness:
  "kmem_wf (fill_pool (map sample_page [0..<2]) sample_kmem) (map sample_page [0..<2]) \<and>
   (\<exists>s'. kalloc (fill_pool (map sample_page [0..<2]) sample_kmem) = Some (sample_page 0, s') \<and>
      kmem_wf s' [sample_page 1])"
proof -
  have w: "kmem_wf (fill_pool (map sample_page [0..<2]) sample_kmem) (map sample_page [0..<2])"
    by (rule sample_pool_wf) auto
  show ?thesis using w kalloc_kfree_refine_stack [OF w] by (auto simp: upt_rec)
qed

text \<open>C14: Any number \<open>n\<close> of allocations from a pool that holds at least \<open>n\<close> pages returns \<open>n\<close> different
  non-null pages, none of which is still free afterwards.\<close>

theorem kalloc_distinct:
  assumes "kmem_wf s ps" "n \<le> length ps"
  shows "\<exists>qs s'. alloc_n kalloc n s = Some (qs, s') \<and> length qs = n \<and> distinct qs \<and> 0 \<notin> set qs \<and>
    kmem_wf s' (drop n ps) \<and> set qs \<inter> set (drop n ps) = {}"
  using assms by (rule kpool.alloc_n_distinct)

theorem kalloc_distinct_witness:
  "\<exists>qs s'. alloc_n kalloc 3 (fill_pool (map sample_page [0..<4]) sample_kmem) = Some (qs, s') \<and>
     length qs = 3 \<and> distinct qs \<and> kmem_wf s' [sample_page 3]"
proof -
  have w: "kmem_wf (fill_pool (map sample_page [0..<4]) sample_kmem) (map sample_page [0..<4])"
    by (rule sample_pool_wf) auto
  then show ?thesis using kalloc_distinct [OF w, of 3] by (auto simp: upt_rec numeral_3_eq_3)
qed

text \<open>C15: The boot-time allocator: \<open>kinit1\<close> over a range that starts at or above the end of the kernel
  and ends at or below \<open>PHYSTOP\<close> terminates without a panic and leaves on the free list exactly
  the whole pages of the range, each once.\<close>

theorem kinit1_frees_range:
  assumes "KERNBASE \<le> kend s" "kend s \<le> PGROUNDUP vstart" "PGROUNDUP vstart \<le> vend" "V2P vend \<le> PHYSTOP"
  shows "\<exists>s'. kinit1 vstart vend s = Some s' \<and>
    kmem_wf s' (rev (pages_from (PGROUNDUP vstart) ((unat vend - unat (PGROUNDUP vstart)) div 4096)))"
proof -
  let ?s = "s\<lparr>locks := (locks s)(Kmem_lock := initlock (locks s Kmem_lock)), use_lock := False, freelist := 0\<rparr>"
  have "kmem_wf ?s []" using assms(1) by (simp add: kmem_wf_def kmem_lockable_def)
  from freerange_loop_wf [OF this page_aligned_PGROUNDUP _ assms(3,4) _ refl] assms(2)
  show ?thesis by (simp add: kinit1_def freerange_def) blast
qed

theorem kinit1_frees_range_witness:
  "\<exists>s'. kinit1 (KERNBASE + 0x200010) (KERNBASE + 0x203800) sample_kmem = Some s' \<and>
     kmem_wf s' [KERNBASE + 0x202000, KERNBASE + 0x201000]"
proof -
  have up: "PGROUNDUP (KERNBASE + 0x200010) = KERNBASE + 0x201000" by (simp add: PGROUNDUP_def layout)
  have "\<exists>s'. kinit1 (KERNBASE + 0x200010) (KERNBASE + 0x203800) sample_kmem = Some s' \<and>
      kmem_wf s' (rev (pages_from (KERNBASE + 0x201000)
        ((unat (KERNBASE + 0x203800) - unat (KERNBASE + 0x201000)) div 4096)))"
    using kinit1_frees_range [of sample_kmem "KERNBASE + 0x200010" "KERNBASE + 0x203800"]
    by (simp only: up) (simp add: sample_kmem_def V2P_def layout)
  moreover have "rev (pages_from (KERNBASE + 0x201000)
        ((unat (KERNBASE + 0x203800) - unat (KERNBASE + 0x201000)) div 4096)) =
      [KERNBASE + 0x202000, KERNBASE + 0x201000]"
    by (simp add: pages_from_def layout upt_rec)
  ultimately show ?thesis by (simp only:)
qed

end
