(* ===== verification/Pages.thy ===== *)
theory Pages
  imports Kalloc
begin

text \<open>
  Reasoning about memory by pages: two memories agree on a set of pages, every write inside one
  page keeps the others, and what is read inside a page depends on that page only. The component
  proofs combine these with the distinctness of the pages they own.
\<close>

section \<open>Agreement on pages\<close>

definition agree :: "memory \<Rightarrow> memory \<Rightarrow> addr set \<Rightarrow> bool" where
  "agree m m' P \<longleftrightarrow> (\<forall>p \<in> P. \<forall>x. unat (x - p) < 4096 \<longrightarrow> m' x = m x)"

lemma agree_refl [simp]: "agree m m P"
  by (simp add: agree_def)

lemma agree_trans: "agree m m' P \<Longrightarrow> agree m' m'' P \<Longrightarrow> agree m m'' P"
  by (simp add: agree_def)

lemma agree_mono: "agree m m' P \<Longrightarrow> Q \<subseteq> P \<Longrightarrow> agree m m' Q"
  by (auto simp: agree_def)

lemma agree_Un: "agree m m' (P \<union> Q) \<longleftrightarrow> agree m m' P \<and> agree m m' Q"
  by (auto simp: agree_def)

text \<open>The \<open>k\<close> bytes at \<open>a\<close> lie in the page \<open>p\<close>.\<close>

definition within :: "addr \<Rightarrow> addr \<Rightarrow> nat \<Rightarrow> bool" where
  "within p a k \<longleftrightarrow> unat (a - p) + k \<le> 4096"

lemma within_byte:
  assumes "within p a k" "i < k"
  shows "unat (a + of_nat i - p) < 4096"
proof -
  have b: "unat (a - p) + i < 4096" using assms by (simp add: within_def)
  then have i: "unat (of_nat i :: u64) = i" by (intro unat64_of_nat) simp
  have "unat ((a - p) + of_nat i) = unat (a - p) + i"
    using b i by (subst unat_sum_no_wrap) simp_all
  moreover have e: "a + of_nat i - p = (a - p) + of_nat i" by (simp only: diff_add_eq)
  ultimately show ?thesis using b unfolding e by (simp only:)
qed

lemma agree_mread:
  assumes "agree m m' P" "p \<in> P" "within p a k"
  shows "mread m' a k = mread m a k"
  using assms within_byte [OF assms(3)] by (intro mread_cong) (auto simp: agree_def)

lemma agree_ld64: "agree m m' P \<Longrightarrow> p \<in> P \<Longrightarrow> within p a 8 \<Longrightarrow> ld64 m' a = ld64 m a"
  by (simp add: ld64_def agree_mread)

lemma agree_ld32: "agree m m' P \<Longrightarrow> p \<in> P \<Longrightarrow> within p a 4 \<Longrightarrow> ld32 m' a = ld32 m a"
  by (simp add: ld32_def agree_mread)

lemma agree_ld16: "agree m m' P \<Longrightarrow> p \<in> P \<Longrightarrow> within p a 2 \<Longrightarrow> ld16 m' a = ld16 m a"
  by (simp add: ld16_def agree_mread)

lemma agree_byte: "agree m m' P \<Longrightarrow> p \<in> P \<Longrightarrow> within p a 1 \<Longrightarrow> m' a = m a"
  by (simp add: agree_def within_def)

lemma within_shift:
  assumes "within p a k" "n \<le> k"
  shows "within p (a + of_nat n) (k - n)"
proof -
  have b: "unat (a - p) + k \<le> 4096" using assms(1) by (simp add: within_def)
  then have "unat (of_nat n :: u64) = n" using assms(2) by (intro unat64_of_nat) simp
  then have "unat ((a - p) + of_nat n) = unat (a - p) + n"
    using b assms(2) by (subst unat_sum_no_wrap) simp_all
  moreover have e: "a + of_nat n - p = (a - p) + of_nat n" by (simp only: diff_add_eq)
  ultimately show ?thesis using b assms(2) unfolding within_def e by linarith
qed

section \<open>Writes inside one page\<close>

definition aligned_set :: "addr set \<Rightarrow> bool" where
  "aligned_set P \<longleftrightarrow> (\<forall>p \<in> P. page_aligned p)"

lemma agree_mwrite:
  assumes "page_aligned p" "aligned_set P" "p \<notin> P" "within p a (length bs)"
  shows "agree m (mwrite m a bs) P"
  unfolding agree_def
proof (intro ballI allI impI)
  fix q x
  assume q: "q \<in> P" and x: "unat (x - q) < 4096"
  show "mwrite m a bs x = m x"
  proof (cases "bs = []")
    case False
    have "apart x 1 a (length bs)"
      using assms q x False by (intro apart_pages [of q p]) (auto simp: aligned_set_def within_def)
    then have "length bs \<le> unat (x - a)" by (simp add: apart_def)
    then show ?thesis by (simp add: mwrite_def)
  qed simp
qed

lemma agree_st8: "page_aligned p \<Longrightarrow> aligned_set P \<Longrightarrow> p \<notin> P \<Longrightarrow> within p a 1 \<Longrightarrow> agree m (st8 m a v) P"
  unfolding st8_def by (rule agree_mwrite) simp_all

lemma agree_st16: "page_aligned p \<Longrightarrow> aligned_set P \<Longrightarrow> p \<notin> P \<Longrightarrow> within p a 2 \<Longrightarrow> agree m (st16 m a v) P"
  unfolding st16_def by (rule agree_mwrite) simp_all

lemma agree_st32: "page_aligned p \<Longrightarrow> aligned_set P \<Longrightarrow> p \<notin> P \<Longrightarrow> within p a 4 \<Longrightarrow> agree m (st32 m a v) P"
  unfolding st32_def by (rule agree_mwrite) simp_all

lemma agree_st64: "page_aligned p \<Longrightarrow> aligned_set P \<Longrightarrow> p \<notin> P \<Longrightarrow> within p a 8 \<Longrightarrow> agree m (st64 m a v) P"
  unfolding st64_def by (rule agree_mwrite) simp_all

lemma agree_mfill: "page_aligned p \<Longrightarrow> aligned_set P \<Longrightarrow> p \<notin> P \<Longrightarrow> within p a n \<Longrightarrow> agree m (mfill m a c n) P"
  unfolding mfill_eq_mwrite by (rule agree_mwrite) simp_all

lemma agree_mcopy:
  "page_aligned p \<Longrightarrow> aligned_set P \<Longrightarrow> p \<notin> P \<Longrightarrow> within p a n \<Longrightarrow> agree m (mcopy m a src n) P"
  by (subst mcopy_eq_mwrite) (auto simp: within_def intro: agree_mwrite)

text \<open>A field at a fixed offset of a page.\<close>

lemma within_off [simp]: "within p (p + o') k \<longleftrightarrow> unat o' + k \<le> 4096"
  by (simp add: within_def)

lemma within_start [simp]: "within p p k \<longleftrightarrow> k \<le> 4096"
  by (simp add: within_def)

section \<open>Fields of one page\<close>

text \<open>Two fields of the same structure are apart when their offsets are.\<close>

lemma apart_fields:
  "apart (p + a) n (p + b) k \<longleftrightarrow> n \<le> unat (b - a) \<and> k \<le> unat (a - b)"
  "apart p n (p + b) k \<longleftrightarrow> n \<le> unat b \<and> k \<le> unat (- b)"
  "apart (p + a) n p k \<longleftrightarrow> n \<le> unat (- a) \<and> k \<le> unat a"
  by (simp_all add: apart_def algebra_simps)

lemma ld_st_apart:
  "apart a 8 b 8 \<Longrightarrow> ld64 (st64 m b v) a = ld64 m a"
  "apart a 8 b 4 \<Longrightarrow> ld64 (st32 m b w) a = ld64 m a"
  "apart a 8 b 2 \<Longrightarrow> ld64 (st16 m b h) a = ld64 m a"
  "apart a 4 b 8 \<Longrightarrow> ld32 (st64 m b v) a = ld32 m a"
  "apart a 4 b 4 \<Longrightarrow> ld32 (st32 m b w) a = ld32 m a"
  "apart a 4 b 2 \<Longrightarrow> ld32 (st16 m b h) a = ld32 m a"
  "apart a 2 b 8 \<Longrightarrow> ld16 (st64 m b v) a = ld16 m a"
  "apart a 2 b 4 \<Longrightarrow> ld16 (st32 m b w) a = ld16 m a"
  "apart a 2 b 2 \<Longrightarrow> ld16 (st16 m b h) a = ld16 m a"
  by (simp_all add: ld64_def ld32_def ld16_def st64_def st32_def st16_def mem_simps)

lemmas field_simps' = apart_fields ld_st_apart ld64_st64_same ld32_st32_same ld16_st16_same

section \<open>The free list under agreement\<close>

lemma kmem_wf_agree:
  assumes "kmem_wf s ps" "agree (mem s) m' (set ps)"
  shows "kmem_wf (s\<lparr>mem := m'\<rparr>) ps"
proof -
  have "ld64 m' q = ld64 (mem s) q" if "q \<in> set ps" for q
    using agree_ld64 [OF assms(2) that] by simp
  from free_chain_frame [OF this] show ?thesis
    using assms(1) by (simp add: kmem_wf_def kmem_lockable_def)
qed

lemma kfree_agree:
  assumes "page_aligned v" "aligned_set P" "v \<notin> P"
  shows "agree m (st64 (mfill m v c 4096) v w) P"
proof -
  have "agree m (mfill m v c 4096) P" using assms by (intro agree_mfill [of v]) auto
  moreover have "agree (mfill m v c 4096) (st64 (mfill m v c 4096) v w) P"
    using assms by (intro agree_st64 [of v]) auto
  ultimately show ?thesis by (rule agree_trans)
qed

lemma fill_pool_agree:
  assumes "aligned_set P" "set ps \<inter> P = {}" "aligned_set (set ps)"
  shows "agree (mem s) (mem (fill_pool ps s)) P"
  using assms(2,3)
proof (induction ps)
  case (Cons p ps)
  then have "agree (mem s) (mem (fill_pool ps s)) P" by (auto simp: aligned_set_def)
  moreover have "agree (mem (fill_pool ps s)) (mem (push_page p (fill_pool ps s))) P"
    using Cons.prems assms(1) by (simp add: push_page_def) (intro kfree_agree, auto simp: aligned_set_def)
  ultimately show ?case by (simp add: fill_pool_def agree_trans)
qed (simp add: fill_pool_def)

end
