(* ===== verification/Vm.thy ===== *)
theory Vm
  imports Pages
begin

text \<open>
  Virtual memory (\<^verbatim>\<open>vm.c\<close>): the four-level page tables, which live in pages of \<^verbatim>\<open>kalloc.c\<close> and are
  read and written as 64-bit entries of the byte memory.

  A routine that returns a pointer or null returns an \<open>option\<close> in the first component of its
  result. The outer \<open>None\<close> is a panic or a loop that does not end; the loops that are not bounded
  by their own arguments are partial functions and are shown to return.
\<close>

section \<open>State\<close>

text \<open>The kernel's own tables and the page-table base register.\<close>

record vm = kmem +
  kpml4 :: addr
  kpdpt :: addr
  cr3 :: addr

section \<open>Walking the page table\<close>

text \<open>The address of entry \<open>i\<close> of the table at \<open>t\<close>, and whether an entry has a flag.\<close>

definition entry :: "addr \<Rightarrow> u64 \<Rightarrow> addr" where
  "entry t i = t + 8 * i"

definition has :: "u64 \<Rightarrow> u64 \<Rightarrow> bool" where
  "has pte fl \<longleftrightarrow> pte AND fl \<noteq> 0"

text \<open>
  One level of \<open>walkpgdir\<close>, which the source writes out three times: follow the entry, or allocate
  and link a zeroed table when \<open>alloc\<close> is set.
\<close>

definition walk_level ::
    "addr \<Rightarrow> u64 \<Rightarrow> bool \<Rightarrow> 'z kmem_scheme \<Rightarrow> (addr option \<times> 'z kmem_scheme) option" where
  "walk_level t i alloc s =
     (let pte = ld64 (mem s) (entry t i) in
      if has pte PTE_P then Some (Some (P2V (PTE_ADDR pte)), s)
      else if \<not> alloc then Some (None, s)
      else do {
        (p, s) \<leftarrow> kalloc s;
        if p = 0 then Some (None, s)
        else
          let s = s\<lparr>mem := memset (mem s) p 0 PGSIZE\<rparr>;
              s = s\<lparr>mem := st64 (mem s) (entry t i) (V2P p OR PTE_P OR PTE_W OR PTE_U)\<rparr>
          in Some (Some p, s)
      })"

definition walkpgdir ::
    "addr \<Rightarrow> addr \<Rightarrow> bool \<Rightarrow> 'z kmem_scheme \<Rightarrow> (addr option \<times> 'z kmem_scheme) option" where
  "walkpgdir pml4 va alloc s = do {
     (pdp, s) \<leftarrow> walk_level pml4 (PMX va) alloc s;
     case pdp of None \<Rightarrow> Some (None, s) | Some pdp \<Rightarrow> do {
       (pd, s) \<leftarrow> walk_level pdp (PDPX va) alloc s;
       case pd of None \<Rightarrow> Some (None, s) | Some pd \<Rightarrow> do {
         (pgtab, s) \<leftarrow> walk_level pd (PDX va) alloc s;
         case pgtab of None \<Rightarrow> Some (None, s)
         | Some pgtab \<Rightarrow> Some (Some (entry pgtab (PTX va)), s)
       }
     }
   }"

section \<open>Mapping pages\<close>

text \<open>The endless loop of \<open>mappages\<close>; the result is the C return value.\<close>

partial_function (option) mappages_loop ::
    "addr \<Rightarrow> addr \<Rightarrow> addr \<Rightarrow> addr \<Rightarrow> u64 \<Rightarrow> 'z kmem_scheme \<Rightarrow> (int \<times> 'z kmem_scheme) option" where
  "mappages_loop pgdir a a_last pa perm s = do {
     (pte, s) \<leftarrow> walkpgdir pgdir a True s;
     case pte of None \<Rightarrow> Some (-1, s) | Some pte \<Rightarrow>
       if has (ld64 (mem s) pte) PTE_P then None
       else
         let s = s\<lparr>mem := st64 (mem s) pte (pa OR perm OR PTE_P)\<rparr> in
         if a = a_last then Some (0, s)
         else mappages_loop pgdir (a + PGSIZE) a_last (pa + PGSIZE) perm s
   }"

definition mappages ::
    "addr \<Rightarrow> addr \<Rightarrow> addr \<Rightarrow> addr \<Rightarrow> u64 \<Rightarrow> 'z kmem_scheme \<Rightarrow> (int \<times> 'z kmem_scheme) option" where
  "mappages pgdir va sz pa perm s =
     mappages_loop pgdir (PGROUNDDOWN va) (PGROUNDDOWN (va + sz - 1)) pa perm s"

section \<open>Kernel address space\<close>

definition setupkvm :: "'z vm_scheme \<Rightarrow> (addr \<times> 'z vm_scheme) option" where
  "setupkvm s = do {
     (pml4, s) \<leftarrow> kalloc s;
     let s = s\<lparr>mem := memset (mem s) pml4 0 PGSIZE\<rparr>;
     let s = s\<lparr>mem := st64 (mem s) (entry pml4 256) (V2P (kpdpt s) OR PTE_P OR PTE_W)\<rparr>;
     Some (pml4, s)
   }"

definition switchkvm :: "'z vm_scheme \<Rightarrow> 'z vm_scheme" where
  "switchkvm s = s\<lparr>cr3 := V2P (kpml4 s)\<rparr>"

definition kvmalloc :: "'z vm_scheme \<Rightarrow> 'z vm_scheme option" where
  "kvmalloc s = do {
     (p, s) \<leftarrow> kalloc s;
     let s = s\<lparr>kpml4 := p, mem := memset (mem s) p 0 PGSIZE\<rparr>;
     (q, s) \<leftarrow> kalloc s;
     let s = s\<lparr>kpdpt := q, mem := memset (mem s) q 0 PGSIZE\<rparr>;
     let s = s\<lparr>mem := st64 (mem s) (entry (kpml4 s) (PMX KERNBASE)) (V2P (kpdpt s) OR PTE_P OR PTE_W)\<rparr>;
     let s = s\<lparr>mem := st64 (mem s) (entry (kpdpt s) 0) (0 OR PTE_PS OR PTE_P OR PTE_W)\<rparr>;
     let s = s\<lparr>mem := st64 (mem s) (entry (kpdpt s) 3)
               (0xC0000000 OR PTE_PS OR PTE_P OR PTE_W OR PTE_PWT OR PTE_PCD)\<rparr>;
     Some (switchkvm s)
   }"

text \<open>
  \<open>switchuvm\<close> for the process with page table \<open>pgdir\<close> and kernel stack \<open>kstack\<close>; \<open>local\<close> is the
  \<open>local\<close> page of the CPU, whose task-state segment starts at offset 1024.
\<close>

definition switchuvm :: "addr \<Rightarrow> addr \<Rightarrow> addr \<Rightarrow> 'z vm_scheme \<Rightarrow> 'z vm_scheme option" where
  "switchuvm local pgdir kstack s = do {
     let s = k_pushcli s;
     if pgdir = 0 then None
     else
       let stktop = kstack + KSTACKSIZE;
           s = s\<lparr>mem := st32 (mem s) (local + 1024 + 4) (ucast stktop)\<rparr>;
           s = s\<lparr>mem := st32 (mem s) (local + 1024 + 8) (ucast (drop_bit 32 stktop))\<rparr>;
           s = s\<lparr>cr3 := V2P pgdir\<rparr>
       in k_popcli s
   }"

section \<open>User address space\<close>

definition inituvm :: "addr \<Rightarrow> addr \<Rightarrow> u32 \<Rightarrow> 'z kmem_scheme \<Rightarrow> 'z kmem_scheme option" where
  "inituvm pgdir init sz s =
     (if ucast sz \<ge> PGSIZE then None
      else do {
        (p, s) \<leftarrow> kalloc s;
        let s = s\<lparr>mem := memset (mem s) p 0 PGSIZE\<rparr>;
        (r, s) \<leftarrow> mappages pgdir PGSIZE PGSIZE (V2P p) (PTE_W OR PTE_U) s;
        Some (s\<lparr>mem := memmove (mem s) p init sz\<rparr>)
      })"

partial_function (option) deallocuvm_loop ::
    "addr \<Rightarrow> addr \<Rightarrow> addr \<Rightarrow> 'z kmem_scheme \<Rightarrow> 'z kmem_scheme option" where
  "deallocuvm_loop pgdir a oldsz s =
     (if a < oldsz then do {
        (pte, s) \<leftarrow> walkpgdir pgdir a False s;
        s \<leftarrow> (case pte of None \<Rightarrow> Some s | Some pte \<Rightarrow>
          let e = ld64 (mem s) pte in
          if has e PTE_P then
            let pa = PTE_ADDR e in
            if pa = 0 then None
            else do { s \<leftarrow> kfree (P2V pa) s; Some (s\<lparr>mem := st64 (mem s) pte 0\<rparr>) }
          else Some s);
        deallocuvm_loop pgdir (a + PGSIZE) oldsz s
      } else Some s)"

definition deallocuvm :: "addr \<Rightarrow> u64 \<Rightarrow> u64 \<Rightarrow> 'z kmem_scheme \<Rightarrow> (u64 \<times> 'z kmem_scheme) option" where
  "deallocuvm pgdir oldsz newsz s =
     (if newsz \<ge> oldsz then Some (oldsz, s)
      else do { s \<leftarrow> deallocuvm_loop pgdir (PGROUNDUP newsz) oldsz s; Some (newsz, s) })"

partial_function (option) allocuvm_loop ::
    "addr \<Rightarrow> addr \<Rightarrow> u64 \<Rightarrow> u64 \<Rightarrow> 'z kmem_scheme \<Rightarrow> (u64 \<times> 'z kmem_scheme) option" where
  "allocuvm_loop pgdir a oldsz newsz s =
     (if a < newsz then do {
        (p, s) \<leftarrow> kalloc s;
        if p = 0 then do { (_, s) \<leftarrow> deallocuvm pgdir newsz oldsz s; Some (0, s) }
        else do {
          let s = s\<lparr>mem := memset (mem s) p 0 PGSIZE\<rparr>;
          (r, s) \<leftarrow> mappages pgdir a PGSIZE (V2P p) (PTE_W OR PTE_U) s;
          if r < 0 then do {
            (_, s) \<leftarrow> deallocuvm pgdir newsz oldsz s;
            s \<leftarrow> kfree p s;
            Some (0, s)
          }
          else allocuvm_loop pgdir (a + PGSIZE) oldsz newsz s
        }
      } else Some (newsz, s))"

definition allocuvm :: "addr \<Rightarrow> u64 \<Rightarrow> u64 \<Rightarrow> 'z kmem_scheme \<Rightarrow> (u64 \<times> 'z kmem_scheme) option" where
  "allocuvm pgdir oldsz newsz s =
     (if newsz \<ge> KERNBASE then Some (0, s)
      else if newsz < oldsz then Some (oldsz, s)
      else allocuvm_loop pgdir (PGROUNDUP oldsz) oldsz newsz s)"

text \<open>A counted loop over table indices \<open>i, i + 1, \<dots>, n - 1\<close>.\<close>

function for_upto :: "nat \<Rightarrow> nat \<Rightarrow> (nat \<Rightarrow> 's \<Rightarrow> 's option) \<Rightarrow> 's \<Rightarrow> 's option" where
  "for_upto i n body s =
     (if i < n then do { s \<leftarrow> body i s; for_upto (Suc i) n body s } else Some s)"
  by pat_completeness auto
termination by (relation "measure (\<lambda>(i, n, body, s). n - i)") auto

declare for_upto.simps [simp del]

text \<open>The four nested loops of \<open>freevm\<close>, innermost first.\<close>

definition freevm_pt :: "addr \<Rightarrow> 'z kmem_scheme \<Rightarrow> 'z kmem_scheme option" where
  "freevm_pt pt s = do {
     s \<leftarrow> for_upto 0 512 (\<lambda>l s. let e = ld64 (mem s) (entry pt (of_nat l)) in
            if has e PTE_P then kfree (P2V (PTE_ADDR e)) s else Some s) s;
     kfree pt s
   }"

definition freevm_pd :: "addr \<Rightarrow> 'z kmem_scheme \<Rightarrow> 'z kmem_scheme option" where
  "freevm_pd pd s = do {
     s \<leftarrow> for_upto 0 512 (\<lambda>k s. let e = ld64 (mem s) (entry pd (of_nat k)) in
            if has e PTE_P then freevm_pt (P2V (PTE_ADDR e)) s else Some s) s;
     kfree pd s
   }"

definition freevm_pdp :: "addr \<Rightarrow> 'z kmem_scheme \<Rightarrow> 'z kmem_scheme option" where
  "freevm_pdp pdp s = do {
     s \<leftarrow> for_upto 0 512 (\<lambda>j s. let e = ld64 (mem s) (entry pdp (of_nat j)) in
            if has e PTE_P then freevm_pd (P2V (PTE_ADDR e)) s else Some s) s;
     kfree pdp s
   }"

definition freevm :: "addr \<Rightarrow> 'z kmem_scheme \<Rightarrow> 'z kmem_scheme option" where
  "freevm pml4 s =
     (if pml4 = 0 then None
      else do {
        s \<leftarrow> for_upto 0 256 (\<lambda>i s. let e = ld64 (mem s) (entry pml4 (of_nat i)) in
               if has e PTE_P then freevm_pdp (P2V (PTE_ADDR e)) s else Some s) s;
        kfree pml4 s
      })"

definition clearpteu :: "addr \<Rightarrow> addr \<Rightarrow> 'z kmem_scheme \<Rightarrow> 'z kmem_scheme option" where
  "clearpteu pgdir uva s = do {
     (pte, s) \<leftarrow> walkpgdir pgdir uva False s;
     case pte of None \<Rightarrow> None
     | Some pte \<Rightarrow> Some (s\<lparr>mem := st64 (mem s) pte (ld64 (mem s) pte AND NOT PTE_U)\<rparr>)
   }"

text \<open>The loop of \<open>copyuvm\<close>; the parameter \<open>sz\<close> of the C function is a 32-bit \<open>uint\<close>.\<close>

partial_function (option) copyuvm_loop ::
    "addr \<Rightarrow> addr \<Rightarrow> addr \<Rightarrow> u64 \<Rightarrow> 'z kmem_scheme \<Rightarrow> (addr option \<times> 'z kmem_scheme) option" where
  "copyuvm_loop pgdir d i sz s =
     (if i < sz then do {
        (pte, s) \<leftarrow> walkpgdir pgdir i False s;
        case pte of None \<Rightarrow> None | Some pte \<Rightarrow>
          let e = ld64 (mem s) pte in
          if \<not> has e PTE_P then None
          else
            let pa = PTE_ADDR e; flags = PTE_FLAGS e in
            do {
              (p, s) \<leftarrow> kalloc s;
              if p = 0 then do { s \<leftarrow> freevm d s; Some (None, s) }
              else do {
                let s = s\<lparr>mem := memmove (mem s) p (P2V pa) (ucast PGSIZE)\<rparr>;
                (r, s) \<leftarrow> mappages d i PGSIZE (V2P p) flags s;
                if r < 0 then do { s \<leftarrow> freevm d s; Some (None, s) }
                else copyuvm_loop pgdir d (i + PGSIZE) sz s
              }
            }
      } else Some (Some d, s))"

definition copyuvm :: "addr \<Rightarrow> u32 \<Rightarrow> 'z vm_scheme \<Rightarrow> (addr option \<times> 'z vm_scheme) option" where
  "copyuvm pgdir sz s = do {
     (d, s) \<leftarrow> setupkvm s;
     if d = 0 then Some (None, s) else copyuvm_loop pgdir d PGSIZE (ucast sz) s
   }"

section \<open>Access to user memory\<close>

text \<open>\<open>uva2ka\<close> only reads: its result is the kernel address or null.\<close>

definition uva2ka :: "addr \<Rightarrow> addr \<Rightarrow> 'z kmem_scheme \<Rightarrow> (addr \<times> 'z kmem_scheme) option" where
  "uva2ka pgdir uva s = do {
     (pte, s) \<leftarrow> walkpgdir pgdir uva False s;
     case pte of None \<Rightarrow> Some (0, s) | Some pte \<Rightarrow>
       let e = ld64 (mem s) pte in
       if \<not> has e PTE_P then Some (0, s)
       else if \<not> has e PTE_U then Some (0, s)
       else let pa = PTE_ADDR e in
         if pa \<ge> PHYSTOP then Some (0, s) else Some (P2V pa, s)
   }"

text \<open>The loop of \<open>copyout\<close>: \<open>buf\<close> and \<open>len\<close> are the bytes still to be copied.\<close>

partial_function (option) copyout_loop ::
    "addr \<Rightarrow> addr \<Rightarrow> addr \<Rightarrow> u64 \<Rightarrow> 'z kmem_scheme \<Rightarrow> (int \<times> 'z kmem_scheme) option" where
  "copyout_loop pgdir va buf len s =
     (if len > 0 then
        let va0 = PGROUNDDOWN va in
        do {
          (pa0, s) \<leftarrow> uva2ka pgdir va0 s;
          if pa0 = 0 then Some (-1, s)
          else
            let n = PGSIZE - (va - va0);
                n = (if n > len then len else n);
                s = s\<lparr>mem := memmove (mem s) (pa0 + (va - va0)) buf (ucast n)\<rparr>
            in copyout_loop pgdir (va0 + PGSIZE) (buf + n) (len - n) s
        }
      else Some (0, s))"

definition copyout ::
    "addr \<Rightarrow> addr \<Rightarrow> addr \<Rightarrow> u64 \<Rightarrow> 'z kmem_scheme \<Rightarrow> (int \<times> 'z kmem_scheme) option" where
  "copyout pgdir va p len s = copyout_loop pgdir va p len s"

section \<open>The walk as a pure function\<close>

text \<open>
  Following one entry, following a list of indices, and the tables met on the way. A walk that
  does not allocate reads the memory through these.
\<close>

definition pt_step :: "memory \<Rightarrow> addr \<Rightarrow> u64 \<Rightarrow> addr option" where
  "pt_step m t i =
     (let e = ld64 m (entry t i) in if has e PTE_P then Some (P2V (PTE_ADDR e)) else None)"

fun pt_find :: "memory \<Rightarrow> u64 list \<Rightarrow> addr \<Rightarrow> addr option" where
  "pt_find m [] t = Some t"
| "pt_find m (i # ix) t = do { p \<leftarrow> pt_step m t i; pt_find m ix p }"

fun pt_tables :: "memory \<Rightarrow> u64 list \<Rightarrow> addr \<Rightarrow> addr list" where
  "pt_tables m [] t = [t]"
| "pt_tables m (i # ix) t = t # (case pt_step m t i of None \<Rightarrow> [] | Some p \<Rightarrow> pt_tables m ix p)"

definition pt_path :: "addr \<Rightarrow> u64 list" where
  "pt_path va = [PMX va, PDPX va, PDX va]"

text \<open>The address of the last-level entry of \<open>va\<close>, and the user page that \<open>va\<close> is mapped to.\<close>

definition pte_of :: "memory \<Rightarrow> addr \<Rightarrow> addr \<Rightarrow> addr option" where
  "pte_of m pgdir va = map_option (\<lambda>t. entry t (PTX va)) (pt_find m (pt_path va) pgdir)"

definition mapped :: "memory \<Rightarrow> addr \<Rightarrow> addr \<Rightarrow> u64 option" where
  "mapped m pgdir va =
     do { pte \<leftarrow> pte_of m pgdir va; let e = ld64 m pte in if has e PTE_P then Some e else None }"

definition upage :: "memory \<Rightarrow> addr \<Rightarrow> addr \<Rightarrow> addr" where
  "upage m pgdir va = (case mapped m pgdir va of None \<Rightarrow> 0 | Some e \<Rightarrow>
     if has e PTE_U \<and> PTE_ADDR e < PHYSTOP then P2V (PTE_ADDR e) else 0)"

fun walk_path ::
    "bool \<Rightarrow> u64 list \<Rightarrow> addr \<Rightarrow> 'z kmem_scheme \<Rightarrow> (addr option \<times> 'z kmem_scheme) option" where
  "walk_path alloc [] t s = Some (Some t, s)"
| "walk_path alloc (i # ix) t s = do {
     (p, s) \<leftarrow> walk_level t i alloc s;
     case p of None \<Rightarrow> Some (None, s) | Some p \<Rightarrow> walk_path alloc ix p s
   }"

lemma walkpgdir_path:
  "walkpgdir pml4 va alloc s = do {
     (t, s) \<leftarrow> walk_path alloc (pt_path va) pml4 s;
     Some (map_option (\<lambda>t. entry t (PTX va)) t, s) }"
  by (simp add: walkpgdir_def pt_path_def split: Option.bind_splits option.splits)

lemma walk_level_read: "walk_level t i False s = Some (pt_step (mem s) t i, s)"
  by (simp add: walk_level_def pt_step_def Let_def)

lemma walk_path_read: "walk_path False ix t s = Some (pt_find (mem s) ix t, s)"
  by (induction ix arbitrary: t) (auto simp: walk_level_read split: option.splits)

lemma walkpgdir_read: "walkpgdir pml4 va False s = Some (pte_of (mem s) pml4 va, s)"
  by (simp add: walkpgdir_path walk_path_read pte_of_def)

lemma uva2ka_read: "uva2ka pgdir va s = Some (upage (mem s) pgdir va, s)"
  by (auto simp: uva2ka_def walkpgdir_read upage_def mapped_def Let_def split: option.splits)

section \<open>Entries and the pages they lie in\<close>

definition aligned8 :: "addr \<Rightarrow> bool" where
  "aligned8 a \<longleftrightarrow> 8 dvd uint a"

lemma aligned8_diff: "aligned8 a \<Longrightarrow> aligned8 b \<Longrightarrow> aligned8 (a - b)"
  unfolding aligned8_def by (simp add: uint_word_ariths dvd_mod)

lemma aligned8_entry: "page_aligned t \<Longrightarrow> aligned8 (entry t i)"
proof -
  assume "page_aligned t"
  then have "(8 :: int) dvd uint t" unfolding page_aligned_dvd by (rule dvd_trans [rotated]) simp
  then show ?thesis unfolding aligned8_def entry_def by (simp add: uint_word_ariths dvd_mod)
qed

lemma apart8:
  assumes "aligned8 a" "aligned8 b" "a \<noteq> b"
  shows "apart a 8 b 8"
proof -
  have *: "8 \<le> unat (x - y)" if "aligned8 x" "aligned8 y" "x \<noteq> y" for x y
  proof -
    have "unat (x - y) \<noteq> 0" using that by (simp add: unat_eq_0)
    moreover have "(8 :: int) dvd int (unat (x - y))"
      using aligned8_diff [OF that(1,2)] by (simp add: aligned8_def)
    then have "8 dvd unat (x - y)" using of_nat_dvd_iff [of 8 "unat (x - y)", where ?'a = int] by simp
    ultimately show ?thesis by (simp add: dvd_imp_le)
  qed
  show ?thesis unfolding apart_def using * assms by auto
qed

text \<open>The entry lies in the page of its table.\<close>

definition in_page :: "addr \<Rightarrow> addr \<Rightarrow> bool" where
  "in_page p e \<longleftrightarrow> unat (e - p) + 8 \<le> 4096"

lemma in_page_entry: "i < 512 \<Longrightarrow> in_page t (entry t i)"
proof -
  assume "i < 512"
  then have "unat i < 512" by (simp add: word_less_nat_alt)
  then have "unat (8 * i) = 8 * unat i" by (simp add: unat_word_ariths)
  then show ?thesis using \<open>unat i < 512\<close> by (simp add: in_page_def entry_def)
qed

lemma entry_neq:
  assumes "page_aligned t" "page_aligned t'" "t \<noteq> t'" "i < 512" "i' < 512"
  shows "entry t i \<noteq> entry t' i'"
proof -
  have "apart (entry t i) 8 (entry t' i') 8"
    using assms in_page_entry [of i t] in_page_entry [of i' t']
    by (intro apart_pages [of t t']) (auto simp: in_page_def)
  then show ?thesis by (auto simp: apart_def)
qed

lemma pt_index_bound: "PMX va < 512" "PDPX va < 512" "PDX va < 512" "PTX va < 512"
proof -
  have "x AND 0x1FF < 512" for x :: u64
  proof -
    have "x AND mask 9 = take_bit 9 x" by (simp add: take_bit_eq_mask)
    then have "unat (x AND mask 9) < 2 ^ 9"
      using take_bit_nat_less_exp [of 9 "unat x"] by (simp add: unsigned_take_bit_eq)
    then show ?thesis by (simp add: word_less_nat_alt mask_eq_exp_minus_1)
  qed
  then show "PMX va < 512" "PDPX va < 512" "PDX va < 512" "PTX va < 512"
    by (simp_all add: PMX_def PDPX_def PDX_def PTX_def)
qed

lemma page_aligned_P2V: "page_aligned a \<Longrightarrow> page_aligned (P2V a)"
  unfolding P2V_def by (rule page_aligned_add) (auto simp: page_aligned_def KERNBASE_def)

lemma page_aligned_V2P: "page_aligned a \<Longrightarrow> page_aligned (V2P a)"
  unfolding V2P_def by (rule page_aligned_diff) (auto simp: page_aligned_def KERNBASE_def)

lemma pt_step_aligned: "pt_step m t i = Some p \<Longrightarrow> page_aligned p"
  by (auto simp: pt_step_def Let_def page_aligned_P2V split: if_splits)

lemma pt_find_aligned: "pt_find m ix t = Some p \<Longrightarrow> page_aligned t \<Longrightarrow> page_aligned p"
  by (induction m ix t rule: pt_find.induct) (auto simp: pt_step_aligned split: Option.bind_splits)

text \<open>A walk depends only on the pages of the tables it meets.\<close>

lemma within_entry: "i < 512 \<Longrightarrow> within t (entry t i) 8"
  using in_page_entry [of i t] by (simp add: in_page_def within_def)

lemma pt_find_agree:
  assumes "agree m m' (set (pt_tables m ix t))" "\<forall>i\<in>set ix. i < 512"
  shows "pt_find m' ix t = pt_find m ix t" "pt_tables m' ix t = pt_tables m ix t"
proof -
  have "pt_find m' ix t = pt_find m ix t \<and> pt_tables m' ix t = pt_tables m ix t" using assms
  proof (induction ix arbitrary: t)
    case (Cons i ix)
    have "ld64 m' (entry t i) = ld64 m (entry t i)"
      using Cons.prems within_entry by (intro agree_ld64 [OF Cons.prems(1), of t]) auto
    then have e: "pt_step m' t i = pt_step m t i" by (simp add: pt_step_def)
    show ?case
    proof (cases "pt_step m t i")
      case (Some p)
      then have "agree m m' (set (pt_tables m ix p))"
        using Cons.prems(1) by (auto intro: agree_mono)
      with Cons.IH [of p] Cons.prems(2) e Some show ?thesis by simp
    qed (simp add: e)
  qed simp
  then show "pt_find m' ix t = pt_find m ix t" "pt_tables m' ix t = pt_tables m ix t" by auto
qed

text \<open>The flags of an entry made from a page address and low bits.\<close>

lemma PTE_ADDR_low: "f < 4096 \<Longrightarrow> PTE_ADDR f = 0"
proof -
  assume "f < 4096"
  then have "unat f < 4096" by (simp add: word_less_nat_alt)
  then have "unat (PTE_ADDR f) = 0" by (simp add: unat_PTE_ADDR)
  then show ?thesis by (simp only: unat_eq_0)
qed

lemma PTE_ADDR_flags: "page_aligned a \<Longrightarrow> f < 4096 \<Longrightarrow> PTE_ADDR (a OR f) = a"
  by (simp add: PTE_ADDR_or PTE_ADDR_aligned PTE_ADDR_low)

lemma has_or: "has (a OR b) f \<longleftrightarrow> has a f \<or> has b f"
  by (simp add: has_def bit.conj_disj_distrib2 or_eq_0_iff)

lemma has_0 [simp]: "\<not> has 0 f"
  by (simp add: has_def)

lemma has_aligned: "page_aligned a \<Longrightarrow> f < 4096 \<Longrightarrow> \<not> has a f"
proof -
  assume h: "page_aligned a" "f < 4096"
  have "a AND f = (PTE_ADDR a) AND f" using h by (simp add: PTE_ADDR_aligned)
  also have "\<dots> = a AND (PTE_ADDR f)" by (simp add: PTE_ADDR_def ac_simps)
  finally show ?thesis using h by (simp add: has_def PTE_ADDR_low)
qed

lemma has_flags [simp]:
  "has PTE_P PTE_P" "has PTE_U PTE_U" "has PTE_W PTE_W" "\<not> has PTE_W PTE_P" "\<not> has PTE_U PTE_P"
  "\<not> has PTE_W PTE_U" "\<not> has PTE_P PTE_U"
  by (simp_all add: has_def layout)

section \<open>The walk that allocates\<close>

text \<open>
  What the allocating operations keep: an entry that is present and does not lie in a free page.
\<close>

definition entries_kept :: "addr list \<Rightarrow> memory \<Rightarrow> memory \<Rightarrow> bool" where
  "entries_kept ps m m' \<longleftrightarrow>
     (\<forall>t i. page_aligned t \<and> t \<notin> set ps \<and> i < 512 \<and> has (ld64 m (entry t i)) PTE_P
        \<longrightarrow> ld64 m' (entry t i) = ld64 m (entry t i))"

lemma entries_kept_refl: "entries_kept ps m m"
  by (simp add: entries_kept_def)

lemma entries_kept_trans:
  assumes "entries_kept ps m m'" "entries_kept qs m' m''" "set qs \<subseteq> set ps"
  shows "entries_kept ps m m''"
  unfolding entries_kept_def
proof (intro allI impI, elim conjE)
  fix t i
  assume h: "page_aligned t" "t \<notin> set ps" "i < 512" "has (ld64 m (entry t i)) PTE_P"
  then have "ld64 m' (entry t i) = ld64 m (entry t i)"
    using assms(1) by (simp add: entries_kept_def)
  moreover have "t \<notin> set qs" using h assms(3) by blast
  ultimately show "ld64 m'' (entry t i) = ld64 m (entry t i)"
    using h assms(2) by (simp add: entries_kept_def)
qed

lemma pt_step_kept:
  "pt_step m t i = Some p \<Longrightarrow> entries_kept ps m m' \<Longrightarrow> page_aligned t \<Longrightarrow> t \<notin> set ps \<Longrightarrow> i < 512 \<Longrightarrow>
   pt_step m' t i = Some p"
  by (auto simp: pt_step_def entries_kept_def Let_def split: if_splits)

lemma pt_find_kept:
  assumes "pt_find m ix t = Some p" "entries_kept ps m m'" "page_aligned t"
    "set (pt_tables m ix t) \<inter> set ps = {}" "\<forall>i\<in>set ix. i < 512"
  shows "pt_find m' ix t = Some p \<and> pt_tables m' ix t = pt_tables m ix t"
  using assms
proof (induction ix arbitrary: t)
  case (Cons i ix)
  then obtain q where q: "pt_step m t i = Some q" "pt_find m ix q = Some p"
    by (auto split: Option.bind_splits)
  have q': "pt_step m' t i = Some q" 
    by (rule pt_step_kept [OF q(1) Cons.prems(2,3)]) (use Cons.prems in auto)
  have "page_aligned q" "set (pt_tables m ix q) \<inter> set ps = {}" "\<forall>i\<in>set ix. i < 512"
    using Cons.prems q(1) pt_step_aligned [OF q(1)] by auto
  then show ?case using q q' Cons.IH [OF q(2) Cons.prems(2)] by simp
qed simp

text \<open>Nothing but the memory and the head of the free list has changed.\<close>

definition pages_only :: "'z kmem_scheme \<Rightarrow> 'z kmem_scheme \<Rightarrow> bool" where
  "pages_only s s' \<longleftrightarrow> s'\<lparr>mem := mem s, freelist := freelist s\<rparr> = s"

lemma pages_only_refl: "pages_only s s"
  by (simp add: pages_only_def)

lemma pages_only_update: "pages_only s (s\<lparr>mem := m, freelist := f\<rparr>)" "pages_only s (s\<lparr>mem := m\<rparr>)"
  by (simp_all add: pages_only_def)

lemma pages_only_trans:
  assumes "pages_only s s'" "pages_only s' s''"
  shows "pages_only s s''"
proof -
  have "s''\<lparr>mem := mem s, freelist := freelist s\<rparr> =
      (s''\<lparr>mem := mem s', freelist := freelist s'\<rparr>)\<lparr>mem := mem s, freelist := freelist s\<rparr>" by simp
  also have "\<dots> = s" using assms by (simp only: pages_only_def)
  finally show ?thesis by (simp only: pages_only_def)
qed

lemma pages_only_fields:
  assumes "pages_only s s'"
  shows "kend s' = kend s" "use_lock s' = use_lock s" "locks s' = locks s" "cpu_st s' = cpu_st s"
    "cpuid s' = cpuid s"
  using assms [unfolded pages_only_def, THEN arg_cong [where f = kend]]
    assms [unfolded pages_only_def, THEN arg_cong [where f = use_lock]]
    assms [unfolded pages_only_def, THEN arg_cong [where f = locks]]
    assms [unfolded pages_only_def, THEN arg_cong [where f = cpu_st]]
    assms [unfolded pages_only_def, THEN arg_cong [where f = cpuid]] by simp_all

text \<open>Linking a fresh zeroed page at an absent entry.\<close>

definition link_page :: "memory \<Rightarrow> addr \<Rightarrow> addr \<Rightarrow> memory" where
  "link_page m e p = st64 (mfill m p 0 4096) e (V2P p OR PTE_P OR PTE_W OR PTE_U)"

lemma ld64_link_page:
  assumes "page_aligned p" "page_aligned t" "i < 512" "t \<noteq> p" "page_aligned t'" "i' < 512"
  shows "ld64 (link_page m (entry t i) p) (entry t' i') =
    (if entry t' i' = entry t i then V2P p OR PTE_P OR PTE_W OR PTE_U
     else if t' = p then 0 else ld64 m (entry t' i'))"
proof (cases "entry t' i' = entry t i")
  case True
  then show ?thesis by (simp add: link_page_def mem_simps)
next
  case False
  have ap: "apart (entry t' i') 8 (entry t i) 8"
    using assms False by (intro apart8 aligned8_entry) auto
  have ip: "in_page t' (entry t' i')" using assms by (simp add: in_page_entry)
  show ?thesis
  proof (cases "t' = p")
    case True
    then have "mread (mfill m p 0 4096) (entry t' i') 8 = replicate 8 0"
      using ip by (intro mread_mfill_inside) (auto simp: in_page_def)
    then show ?thesis using True ap False
      by (simp add: link_page_def ld64_st64_apart) (simp add: ld64_def eval_nat_numeral)
  next
    case F: False
    have "apart (entry t' i') 8 p 4096"
      using assms F ip by (intro apart_pages [of t' p]) (auto simp: in_page_def)
    then show ?thesis using F ap False by (simp add: link_page_def mem_simps)
  qed
qed

lemma walk_level_alloc:
  assumes "kmem_wf s (p # ps)" "pt_step (mem s) t i = None"
  shows "walk_level t i True s =
    Some (Some p, s\<lparr>mem := link_page (mem s) (entry t i) p, freelist := ld64 (mem s) p\<rparr>)"
proof -
  have "p \<noteq> 0" using assms(1) by (auto simp: kmem_wf_def)
  then show ?thesis using assms kalloc_pop(1) [OF assms(1)]
    by (auto simp: walk_level_def pt_step_def Let_def memset_page link_page_def split: if_splits)
qed

lemma walk_level_exhausted:
  assumes "kmem_wf s []" "pt_step (mem s) t i = None"
  shows "walk_level t i True s = Some (None, s)"
  using assms by (auto simp: walk_level_def pt_step_def Let_def kalloc_empty split: if_splits)

lemma walk_level_present: "pt_step (mem s) t i = Some p \<Longrightarrow> walk_level t i True s = Some (Some p, s)"
  by (auto simp: walk_level_def pt_step_def Let_def split: if_splits)

lemma link_page_wf:
  assumes "kmem_wf s (p # ps)" "page_aligned t" "t \<notin> set (p # ps)" "i < 512"
  shows "kmem_wf (s\<lparr>mem := link_page (mem s) (entry t i) p, freelist := ld64 (mem s) p\<rparr>) ps"
proof -
  let ?s = "s\<lparr>freelist := ld64 (mem s) p\<rparr>" and ?m = "link_page (mem s) (entry t i) p"
  have w: "kmem_wf ?s ps" using assms(1) by (rule kalloc_pop)
  have "ld64 ?m q = ld64 (mem s) q" if "q \<in> set ps" for q
  proof -
    have "page_aligned q" "page_aligned p" "q \<noteq> p" "q \<noteq> t"
      using that assms by (auto simp: kmem_wf_def list_all_iff valid_page_def)
    moreover have "entry q 0 = q" by (simp add: entry_def)
    moreover have "q \<noteq> entry t i"
      using in_page_entry [OF assms(4), of t] page_distance [of q t] calculation assms(2) by (auto simp: in_page_def)
    ultimately show ?thesis
      using ld64_link_page [of p t i q 0 "mem s"] assms(2-4) by auto
  qed
  from free_chain_frame [of ps ?m "mem s", OF this] show ?thesis
    using w by (auto simp: kmem_wf_def kmem_lockable_def)
qed

lemma pt_step_link:
  assumes "page_aligned p" "page_aligned t" "i < 512" "t \<noteq> p"
  shows "pt_step (link_page m (entry t i) p) t i = Some p"
proof -
  have "PTE_ADDR (V2P p OR PTE_P OR PTE_W OR PTE_U) = V2P p"
    using assms by (intro PTE_ADDR_flags page_aligned_V2P) (simp_all add: layout)
  then show ?thesis using ld64_link_page [OF assms(1-4) assms(2,3), of m]
    by (simp add: pt_step_def Let_def has_or)
qed

lemma ld64_link_fresh:
  assumes "page_aligned p" "page_aligned t" "i < 512" "t \<noteq> p" "j < 512"
  shows "ld64 (link_page m (entry t i) p) (entry p j) = 0"
proof -
  have "entry p j \<noteq> entry t i" using entry_neq [OF assms(1,2) assms(4) [symmetric] assms(5,3)] .
  then show ?thesis using ld64_link_page [OF assms(1-4) assms(1,5), of m] by simp
qed

lemma pt_step_link_fresh:
  assumes "page_aligned p" "page_aligned t" "i < 512" "t \<noteq> p" "j < 512"
  shows "pt_step (link_page m (entry t i) p) p j = None"
  using ld64_link_fresh [OF assms, of m] by (simp add: pt_step_def)

lemma pt_tables_link:
  assumes "page_aligned p" "page_aligned t" "i < 512" "t \<noteq> p" "\<forall>j\<in>set ix. j < 512"
  shows "pt_tables (link_page m (entry t i) p) ix p = [p]"
  using assms by (cases ix) (simp_all add: pt_step_link_fresh)

lemma entries_kept_link:
  assumes "pt_step m t i = None" "page_aligned p" "page_aligned t" "i < 512" "t \<noteq> p"
  shows "entries_kept (p # ps) m (link_page m (entry t i) p)"
  unfolding entries_kept_def
proof (intro allI impI, elim conjE)
  fix t' i'
  assume h: "page_aligned t'" "t' \<notin> set (p # ps)" "i' < 512" "has (ld64 m (entry t' i')) PTE_P"
  moreover have "\<not> has (ld64 m (entry t i)) PTE_P"
    using assms(1) by (auto simp: pt_step_def Let_def split: if_splits)
  ultimately have "entry t' i' \<noteq> entry t i" by metis
  then show "ld64 (link_page m (entry t i) p) (entry t' i') = ld64 m (entry t' i')"
    using ld64_link_page [OF assms(2-5) h(1,3), of m] h(2) by auto
qed

text \<open>
  The allocating walk, when the free list holds \<open>ps\<close>: it uses up a prefix of the free list, it
  fails only when it has emptied it, on success the table it returns is the one that a later
  read-only walk finds, and no present entry changes.
\<close>

lemma walk_path_alloc:
  assumes "kmem_wf s ps" "page_aligned t" "set (pt_tables (mem s) ix t) \<inter> set ps = {}"
    "\<forall>i\<in>set ix. i < 512"
  shows "\<exists>r s' k. walk_path True ix t s = Some (r, s') \<and> k \<le> length ix \<and> k \<le> length ps \<and>
    kmem_wf s' (drop k ps) \<and> entries_kept ps (mem s) (mem s') \<and>
    pages_only s s' \<and>
    (case r of None \<Rightarrow> k = length ps \<and> k < length ix
     | Some p \<Rightarrow> pt_find (mem s') ix t = Some p \<and> set (pt_tables (mem s') ix t) \<inter> set (drop k ps) = {} \<and>
       (pt_find (mem s) ix t = None \<longrightarrow> (\<forall>j < 512. ld64 (mem s') (entry p j) = 0)))"
  using assms
proof (induction ix arbitrary: t s ps)
  case Nil
  then show ?case by (intro exI [of _ "Some t"] exI [of _ s] exI [of _ 0]) (simp add: entries_kept_refl pages_only_refl)
next
  case (Cons i ix)
  have t: "t \<notin> set ps" and i: "i < 512" "\<forall>i\<in>set ix. i < 512" using Cons.prems by auto
  show ?case
  proof (cases "pt_step (mem s) t i")
    case (Some p)
    have p: "page_aligned p" "set (pt_tables (mem s) ix p) \<inter> set ps = {}"
      using Some Cons.prems pt_step_aligned by auto
    from Cons.IH [OF Cons.prems(1) p i(2)] obtain r s' k where *:
      "walk_path True ix p s = Some (r, s')" "k \<le> length ix" "k \<le> length ps" "kmem_wf s' (drop k ps)"
      "entries_kept ps (mem s) (mem s')" "pages_only s s'"
      "case r of None \<Rightarrow> k = length ps \<and> k < length ix
       | Some q \<Rightarrow> pt_find (mem s') ix p = Some q \<and> set (pt_tables (mem s') ix p) \<inter> set (drop k ps) = {} \<and>
           (pt_find (mem s) ix p = None \<longrightarrow> (\<forall>j < 512. ld64 (mem s') (entry q j) = 0))"
      by blast
    have "pt_step (mem s') t i = Some p" using Some *(5) Cons.prems(2) t i(1) by (rule pt_step_kept)
    with *(7) t have "case r of None \<Rightarrow> k = length ps \<and> k < length (i # ix)
       | Some q \<Rightarrow> pt_find (mem s') (i # ix) t = Some q \<and> set (pt_tables (mem s') (i # ix) t) \<inter> set (drop k ps) = {} \<and>
           (pt_find (mem s) (i # ix) t = None \<longrightarrow> (\<forall>j < 512. ld64 (mem s') (entry q j) = 0))"
      using Some by (cases r) (auto dest: in_set_dropD)
    moreover have "walk_path True (i # ix) t s = Some (r, s')" using *(1) by (simp add: walk_level_present [OF Some])
    moreover have "k \<le> length (i # ix)" using *(2) by simp
    ultimately show ?thesis using *(3-6) by blast
  next
    case None
    show ?thesis
    proof (cases ps)
      case Nil
      then show ?thesis using Cons.prems None
        by (intro exI [of _ None] exI [of _ s] exI [of _ 0]) (simp add: walk_level_exhausted entries_kept_refl pages_only_refl)
    next
      case ps: (Cons p qs)
      let ?s = "s\<lparr>mem := link_page (mem s) (entry t i) p, freelist := ld64 (mem s) p\<rparr>"
      have wf: "kmem_wf s (p # qs)" using Cons.prems(1) ps by simp
      have pq: "page_aligned p" "p \<notin> set qs" "t \<noteq> p"
        using wf t ps by (auto simp: kmem_wf_def valid_page_def)
      have w2: "kmem_wf ?s qs" using wf Cons.prems(2) t i(1) ps by (intro link_page_wf) auto
      have st: "pt_step (mem ?s) t i = Some p" using pq Cons.prems(2) i(1) by (simp add: pt_step_link)
      have k1: "entries_kept ps (mem s) (mem ?s)"
        using None Cons.prems(2) i(1) pq ps by (simp add: entries_kept_link)
      have "set (pt_tables (mem ?s) ix p) \<inter> set qs = {}"
        using pq Cons.prems(2) i by (simp add: pt_tables_link)
      from Cons.IH [OF w2 pq(1) this i(2)] obtain r s' k where *:
        "walk_path True ix p ?s = Some (r, s')" "k \<le> length ix" "k \<le> length qs" "kmem_wf s' (drop k qs)"
        "entries_kept qs (mem ?s) (mem s')" "pages_only ?s s'"
        "case r of None \<Rightarrow> k = length qs \<and> k < length ix
         | Some q \<Rightarrow> pt_find (mem s') ix p = Some q \<and> set (pt_tables (mem s') ix p) \<inter> set (drop k qs) = {} \<and>
             (pt_find (mem ?s) ix p = None \<longrightarrow> (\<forall>j < 512. ld64 (mem s') (entry q j) = 0))"
        by blast
      have z: "\<forall>j < 512. ld64 (mem s') (entry q j) = 0" if "r = Some q" for q
      proof (cases ix)
        case Nil
        then show ?thesis using *(1) that pq Cons.prems(2) i(1) by (auto simp: ld64_link_fresh)
      next
        case (Cons j jx)
        then have "pt_find (mem ?s) ix p = None"
          using pq \<open>page_aligned t\<close> i by (simp add: pt_step_link_fresh)
        then show ?thesis using *(7) that by simp
      qed
      have tq: "t \<notin> set qs" using t ps by simp
      have st': "pt_step (mem s') t i = Some p" using st *(5) Cons.prems(2) tq i(1) by (rule pt_step_kept)
      have "entries_kept ps (mem s) (mem s')" using k1 *(5) ps by (rule_tac entries_kept_trans) auto
      moreover have "pages_only s s'" using pages_only_update(1) *(6) by (rule pages_only_trans)
      moreover have "case r of None \<Rightarrow> Suc k = length ps \<and> Suc k < length (i # ix)
         | Some q \<Rightarrow> pt_find (mem s') (i # ix) t = Some q \<and> set (pt_tables (mem s') (i # ix) t) \<inter> set (drop (Suc k) ps) = {} \<and>
             (pt_find (mem s) (i # ix) t = None \<longrightarrow> (\<forall>j < 512. ld64 (mem s') (entry q j) = 0))"
        using *(7) tq ps st' z by (cases r) (auto dest: in_set_dropD)
      moreover have "walk_path True (i # ix) t s = Some (r, s')" using *(1) by (simp add: walk_level_alloc [OF wf None])
      moreover have "Suc k \<le> length (i # ix)" "Suc k \<le> length ps" "kmem_wf s' (drop (Suc k) ps)"
        using *(2-4) ps by simp_all
      ultimately show ?thesis by blast
    qed
  qed
qed

lemma walk_path_found: "pt_find (mem s) ix t = Some p \<Longrightarrow> walk_path True ix t s = Some (Some p, s)"
  by (induction ix arbitrary: t) (auto simp: walk_level_present split: Option.bind_splits)

lemma last_table: "pt_find m ix t = Some p \<Longrightarrow> p \<in> set (pt_tables m ix t)"
  by (induction ix arbitrary: t) (auto split: Option.bind_splits)

lemma pt_path_bound: "\<forall>i\<in>set (pt_path va). i < 512"
  by (simp add: pt_path_def pt_index_bound)

section \<open>Mapping a page\<close>

lemma entries_kept_set:
  assumes "page_aligned t" "j < 512" "\<not> has (ld64 m (entry t j)) PTE_P"
  shows "entries_kept ps m (st64 m (entry t j) v)"
  unfolding entries_kept_def
proof (intro allI impI, elim conjE)
  fix t' i
  assume h: "page_aligned t'" "i < 512" "has (ld64 m (entry t' i)) PTE_P"
  then have "entry t' i \<noteq> entry t j" using assms(3) by metis
  then have "apart (entry t' i) 8 (entry t j) 8"
    using aligned8_entry [OF h(1)] aligned8_entry [OF assms(1)] by (intro apart8) auto
  then show "ld64 (st64 m (entry t j) v) (entry t' i) = ld64 m (entry t' i)" by (simp add: mem_simps)
qed

lemma set_entry_wf:
  assumes "kmem_wf s ps" "page_aligned t" "j < 512" "t \<notin> set ps"
  shows "kmem_wf (s\<lparr>mem := st64 (mem s) (entry t j) v\<rparr>) ps"
proof -
  have "ld64 (st64 (mem s) (entry t j) v) q = ld64 (mem s) q" if "q \<in> set ps" for q
  proof -
    have "page_aligned q" "q \<noteq> t" using that assms by (auto simp: kmem_wf_def list_all_iff valid_page_def)
    then have "entry q 0 \<noteq> entry t j" using assms by (intro entry_neq) auto
    then have "apart (entry q 0) 8 (entry t j) 8"
      using aligned8_entry [OF \<open>page_aligned q\<close>] aligned8_entry [OF assms(2)] by (intro apart8) auto
    then show ?thesis by (simp add: entry_def mem_simps)
  qed
  from free_chain_frame [OF this] show ?thesis using assms(1) by (simp add: kmem_wf_def kmem_lockable_def)
qed

text \<open>The tables that the walk to \<open>va\<close> meets are not free pages.\<close>

definition pt_safe :: "memory \<Rightarrow> addr \<Rightarrow> addr \<Rightarrow> addr list \<Rightarrow> bool" where
  "pt_safe m pgdir va ps \<longleftrightarrow> page_aligned pgdir \<and> set (pt_tables m (pt_path va) pgdir) \<inter> set ps = {}"

lemma mapped_kept:
  assumes "mapped m pgdir va = Some e" "entries_kept ps m m'" "pt_safe m pgdir va ps"
  shows "mapped m' pgdir va = Some e"
proof -
  from assms(1) obtain t where t: "pt_find m (pt_path va) pgdir = Some t"
    and e: "has (ld64 m (entry t (PTX va))) PTE_P" "e = ld64 m (entry t (PTX va))"
    by (auto simp: mapped_def pte_of_def Let_def split: Option.bind_splits if_splits)
  have al: "page_aligned pgdir" and ds: "set (pt_tables m (pt_path va) pgdir) \<inter> set ps = {}"
    using assms(3) by (auto simp: pt_safe_def)
  have "page_aligned t" using t al by (rule pt_find_aligned)
  moreover have "t \<notin> set ps" using last_table [OF t] ds by blast
  ultimately have "ld64 m' (entry t (PTX va)) = e"
    using assms(2) e by (simp add: entries_kept_def pt_index_bound)
  moreover have "pt_find m' (pt_path va) pgdir = Some t"
    using pt_find_kept [OF t assms(2) al ds pt_path_bound] by simp
  ultimately show ?thesis using e by (simp add: mapped_def pte_of_def)
qed

lemma walkpgdir_alloc:
  assumes "kmem_wf s ps" "pt_safe (mem s) pgdir va ps"
  shows "\<exists>r s' k. walkpgdir pgdir va True s = Some (r, s') \<and> k \<le> 3 \<and>
    kmem_wf s' (drop k ps) \<and> entries_kept ps (mem s) (mem s') \<and> pages_only s s' \<and>
    (case r of None \<Rightarrow> k = length ps \<and> k < 3
     | Some pte \<Rightarrow> \<exists>t. pte = entry t (PTX va) \<and> pt_find (mem s') (pt_path va) pgdir = Some t \<and>
         pt_safe (mem s') pgdir va (drop k ps) \<and>
         (mapped (mem s) pgdir va = None \<longrightarrow> \<not> has (ld64 (mem s') pte) PTE_P))"
proof -
  have al: "page_aligned pgdir" and ds: "set (pt_tables (mem s) (pt_path va) pgdir) \<inter> set ps = {}"
    using assms(2) by (auto simp: pt_safe_def)
  from walk_path_alloc [OF assms(1) al ds pt_path_bound] obtain r s' k where *:
    "walk_path True (pt_path va) pgdir s = Some (r, s')" "k \<le> length (pt_path va)"
    "kmem_wf s' (drop k ps)" "entries_kept ps (mem s) (mem s')" "pages_only s s'"
    "case r of None \<Rightarrow> k = length ps \<and> k < length (pt_path va)
     | Some p \<Rightarrow> pt_find (mem s') (pt_path va) pgdir = Some p \<and>
         set (pt_tables (mem s') (pt_path va) pgdir) \<inter> set (drop k ps) = {} \<and>
         (pt_find (mem s) (pt_path va) pgdir = None \<longrightarrow> (\<forall>j < 512. ld64 (mem s') (entry p j) = 0))"
    by blast
  have "\<not> has (ld64 (mem s') (entry t (PTX va))) PTE_P"
    if "r = Some t" "mapped (mem s) pgdir va = None" for t
  proof (cases "pt_find (mem s) (pt_path va) pgdir")
    case None
    then show ?thesis using *(6) that(1) by (simp add: pt_index_bound)
  next
    case (Some p)
    then have "r = Some p" "s' = s" using *(1) walk_path_found [OF Some] by auto
    then show ?thesis using that Some by (auto simp: mapped_def pte_of_def Let_def split: if_splits)
  qed
  moreover have "length (pt_path va) = 3" by (simp add: pt_path_def)
  ultimately show ?thesis using *(1-6) al
    by (intro exI [of _ "map_option (\<lambda>t. entry t (PTX va)) r"] exI [of _ s'] exI [of _ k])
      (cases r; simp add: walkpgdir_path pt_safe_def)
qed

lemma PGROUNDDOWN_aligned: "page_aligned a \<Longrightarrow> PGROUNDDOWN a = a"
  by (auto simp: word_unat_eq_iff unat_PGROUNDDOWN page_aligned_unat)

lemma PGROUNDDOWN_add:
  assumes "page_aligned a" "unat d < 4096"
  shows "PGROUNDDOWN (a + d) = a"
proof -
  have "4096 dvd unat a" using assms(1) by (simp add: page_aligned_unat mod_eq_0_iff_dvd)
  then obtain q where q: "unat a = 4096 * q" by blast
  with unat_lt64 [of a] have "4096 * q < 4096 * 2 ^ 52" by simp
  then have "q \<le> 2 ^ 52 - 1" by simp
  with q assms(2) have "unat a + unat d < 2 ^ 64" by simp
  then have "unat (a + d) = 4096 * q + unat d" using q by (simp add: unat_sum_no_wrap)
  then have "unat (PGROUNDDOWN (a + d)) = unat a" using q assms(2) by (simp add: unat_PGROUNDDOWN)
  then show ?thesis by (simp add: word_unat_eq_iff)
qed

lemma mappages_page:
  assumes "kmem_wf s ps" "pt_safe (mem s) pgdir va ps" "mapped (mem s) pgdir va = None" "page_aligned va"
  shows "\<exists>r s' k. mappages pgdir va PGSIZE pa perm s = Some (r, s') \<and> k \<le> 3 \<and>
    kmem_wf s' (drop k ps) \<and> entries_kept ps (mem s) (mem s') \<and> pages_only s s' \<and>
    (r = 0 \<and> mapped (mem s') pgdir va = Some (pa OR perm OR PTE_P) \<and> pt_safe (mem s') pgdir va (drop k ps) \<or>
     r = -1 \<and> k = length ps \<and> k < 3)"
proof -
  have "unat (PGSIZE - 1) < 4096" by (simp add: layout)
  from PGROUNDDOWN_add [OF assms(4) this] PGROUNDDOWN_aligned [OF assms(4)]
  have a: "PGROUNDDOWN va = va" "PGROUNDDOWN (va + PGSIZE - 1) = va"
    by (simp_all only: add_diff_eq)
  from walkpgdir_alloc [OF assms(1,2)] obtain r s' k where *:
    "walkpgdir pgdir va True s = Some (r, s')" "k \<le> 3" "kmem_wf s' (drop k ps)"
    "entries_kept ps (mem s) (mem s')" "pages_only s s'"
    "case r of None \<Rightarrow> k = length ps \<and> k < 3
     | Some pte \<Rightarrow> \<exists>t. pte = entry t (PTX va) \<and> pt_find (mem s') (pt_path va) pgdir = Some t \<and>
         pt_safe (mem s') pgdir va (drop k ps) \<and>
         (mapped (mem s) pgdir va = None \<longrightarrow> \<not> has (ld64 (mem s') pte) PTE_P)" by blast
  show ?thesis
  proof (cases r)
    case None
    have "mappages pgdir va PGSIZE pa perm s = Some (-1, s')"
      unfolding mappages_def a by (subst mappages_loop.simps) (simp add: *(1) None)
    then show ?thesis using *(2-6) None by auto
  next
    case (Some pte)
    with *(6) assms(3) obtain t where t: "pte = entry t (PTX va)" "pt_find (mem s') (pt_path va) pgdir = Some t"
      and sf: "pt_safe (mem s') pgdir va (drop k ps)" and np: "\<not> has (ld64 (mem s') pte) PTE_P" by auto
    let ?e = "pa OR perm OR PTE_P"
    let ?s = "s'\<lparr>mem := st64 (mem s') pte ?e\<rparr>"
    have m: "mappages pgdir va PGSIZE pa perm s = Some (0, ?s)"
      unfolding mappages_def a by (subst mappages_loop.simps) (simp add: *(1) Some np Let_def)
    have al: "page_aligned pgdir" and ds: "set (pt_tables (mem s') (pt_path va) pgdir) \<inter> set (drop k ps) = {}"
      using sf by (auto simp: pt_safe_def)
    have ta: "page_aligned t" using t(2) al by (rule pt_find_aligned)
    have tn: "t \<notin> set (drop k ps)" using last_table [OF t(2)] ds by blast
    have k2: "entries_kept qs (mem s') (mem ?s)" for qs
      using ta np unfolding t(1) by (simp add: entries_kept_set pt_index_bound)
    have "pt_find (mem ?s) (pt_path va) pgdir = Some t \<and> pt_tables (mem ?s) (pt_path va) pgdir = pt_tables (mem s') (pt_path va) pgdir"
      using pt_find_kept [OF t(2) k2 al ds pt_path_bound] .
    then have "mapped (mem ?s) pgdir va = Some ?e" "pt_safe (mem ?s) pgdir va (drop k ps)"
      using t(1) sf by (simp_all add: mapped_def pte_of_def mem_simps has_or pt_safe_def)
    moreover have "kmem_wf ?s (drop k ps)"
      unfolding t(1) using *(3) ta pt_index_bound(4) tn by (rule set_entry_wf)
    moreover have "entries_kept ps (mem s) (mem ?s)" using *(4) k2 [of ps] by (rule entries_kept_trans) simp
    moreover have "pages_only s ?s" using *(5) pages_only_update(2) by (rule pages_only_trans)
    ultimately show ?thesis using m *(2) by blast
  qed
qed

section \<open>Translation under agreement\<close>

text \<open>The tables that the translation of \<open>va\<close> reads.\<close>

definition va_tables :: "memory \<Rightarrow> addr \<Rightarrow> addr \<Rightarrow> addr set" where
  "va_tables m pgdir va = set (pt_tables m (pt_path va) pgdir)"

lemma mapped_agree:
  assumes "agree m m' (va_tables m pgdir va)"
  shows "mapped m' pgdir va = mapped m pgdir va" "va_tables m' pgdir va = va_tables m pgdir va"
proof -
  note f = pt_find_agree [OF assms [unfolded va_tables_def] pt_path_bound]
  show "va_tables m' pgdir va = va_tables m pgdir va" by (simp add: va_tables_def f)
  show "mapped m' pgdir va = mapped m pgdir va"
  proof (cases "pt_find m (pt_path va) pgdir")
    case None
    then show ?thesis using f by (simp add: mapped_def pte_of_def)
  next
    case (Some t)
    have "ld64 m' (entry t (PTX va)) = ld64 m (entry t (PTX va))"
      using last_table [OF Some] within_entry [OF pt_index_bound(4)]
      by (intro agree_ld64 [OF assms, of t]) (auto simp: va_tables_def)
    then show ?thesis using f Some by (simp add: mapped_def pte_of_def)
  qed
qed

lemma upage_agree: "agree m m' (va_tables m pgdir va) \<Longrightarrow> upage m' pgdir va = upage m pgdir va"
  by (simp add: upage_def mapped_agree)

text \<open>All addresses of a page translate alike.\<close>

lemma drop_bit_PGROUNDDOWN: "12 \<le> n \<Longrightarrow> drop_bit n (PGROUNDDOWN va) = drop_bit n va"
proof -
  assume "12 \<le> n"
  moreover have "PGROUNDDOWN va = push_bit 12 (drop_bit 12 va)"
    by (simp add: PGROUNDDOWN_def PGSIZE_def and_not_mask12)
  moreover have "bit va k \<Longrightarrow> k < 64" for k using bit_imp_le_length [of va k] by simp
  ultimately show ?thesis by (auto intro!: bit_word_eqI simp: bit_simps)
qed

lemma upage_PGROUNDDOWN: "upage m pgdir (PGROUNDDOWN va) = upage m pgdir va"
  by (simp add: upage_def mapped_def pte_of_def pt_path_def PMX_def PDPX_def PDX_def PTX_def
      drop_bit_PGROUNDDOWN)

section \<open>Properties\<close>

text \<open>C16: Mapping one page. When the page is not mapped yet and the tables of the walk are not free pages,
  \<open>mappages\<close> returns without a panic; it returns -1 only when it has used up the free pages (which
  takes fewer than three), and otherwise 0, with the page mapped to the given physical address and
  permissions. In both cases the free list keeps a suffix of its pages, and every translation
  that any address space had before is still there.\<close>

theorem mappages_maps_page:
  assumes "kmem_wf s ps" "pt_safe (mem s) pgdir va ps" "mapped (mem s) pgdir va = None" "page_aligned va"
  shows "\<exists>r s' k. mappages pgdir va PGSIZE pa perm s = Some (r, s') \<and> kmem_wf s' (drop k ps) \<and>
    (r = 0 \<and> mapped (mem s') pgdir va = Some (pa OR perm OR PTE_P) \<or> r = -1 \<and> k = length ps \<and> k < 3) \<and>
    (\<forall>pd va' e. pt_safe (mem s) pd va' ps \<longrightarrow> mapped (mem s) pd va' = Some e \<longrightarrow>
       mapped (mem s') pd va' = Some e)"
proof -
  from mappages_page [OF assms, of pa perm] obtain r s' k where
    "mappages pgdir va PGSIZE pa perm s = Some (r, s')" "kmem_wf s' (drop k ps)" "entries_kept ps (mem s) (mem s')"
    "r = 0 \<and> mapped (mem s') pgdir va = Some (pa OR perm OR PTE_P) \<or> r = -1 \<and> k = length ps \<and> k < 3"
    by blast
  moreover from this(3) have "\<forall>pd va' e. pt_safe (mem s) pd va' ps \<longrightarrow> mapped (mem s) pd va' = Some e \<longrightarrow>
      mapped (mem s') pd va' = Some e"
    using mapped_kept by blast
  ultimately show ?thesis by blast
qed

text \<open>
  A page table for one user page at address 4096: the pages 0 to 3 of the sample hold the four
  levels and page 4 is the page it is mapped to.
\<close>

definition install_pt :: "memory \<Rightarrow> memory" where
  "install_pt m =
     st64 (st64 (st64 (st64 m (entry (sample_page 0) 0) (V2P (sample_page 1) OR 7))
       (entry (sample_page 1) 0) (V2P (sample_page 2) OR 7))
       (entry (sample_page 2) 0) (V2P (sample_page 3) OR 7))
       (entry (sample_page 3) 1) (V2P (sample_page 4) OR 7)"

theorem mappages_maps_page_witness:
  "\<exists>r s'. mappages (sample_page 9) 4096 PGSIZE 0x5000 6 (fill_pool (map sample_page [0..<4]) sample_kmem) =
     Some (r, s') \<and> r = 0 \<and> mapped (mem s') (sample_page 9) 4096 = Some 0x5007"
proof -
  let ?s = "fill_pool (map sample_page [0..<4]) sample_kmem"
  have w: "kmem_wf ?s (map sample_page [0..<4])" by (rule sample_pool_wf) auto
  have al: "aligned_set (set (map sample_page [0..<4]))" and pa: "page_aligned (sample_page 9)"
    using sample_page_valid by (auto simp: aligned_set_def valid_page_def)
  have nin: "sample_page 9 \<notin> set (map sample_page [0..<4])" by (auto simp: sample_page_eq_iff)
  have "agree (mem sample_kmem) (mem ?s) {sample_page 9}"
    using al pa nin by (intro fill_pool_agree) (auto simp: aligned_set_def)
  from agree_ld64 [OF this, of "sample_page 9" "sample_page 9"]
  have "ld64 (mem ?s) (entry (sample_page 9) 0) = 0"
    by (simp add: entry_def sample_kmem_def ld64_def mread_def upt_rec)
  moreover have "pt_path 4096 = [0, 0, 0]" by (simp add: pt_path_def PMX_def PDPX_def PDX_def)
  ultimately have sf: "pt_safe (mem ?s) (sample_page 9) 4096 (map sample_page [0..<4])"
    and nm: "mapped (mem ?s) (sample_page 9) 4096 = None"
    using pa nin by (simp_all add: pt_safe_def pt_step_def mapped_def pte_of_def)
  have "page_aligned 4096" by (simp add: page_aligned_def)
  from mappages_maps_page [where pa = "0x5000" and perm = 6, OF w sf nm this] show ?thesis by (auto simp: PTE_P_def)
qed

end
