(* ===== verification/Copyout.thy ===== *)
theory Copyout
  imports Vm
begin

text \<open>
  Correctness of \<open>copyout\<close> (\<^verbatim>\<open>vm.c\<close>): the page-by-page loop as one copy of the whole range through
  the translation of the page table, for ranges that cross any number of pages.
\<close>

section \<open>Copying to user memory\<close>

text \<open>The kernel address of a user byte, and the pages that a user range is mapped to.\<close>

definition ukaddr :: "memory \<Rightarrow> addr \<Rightarrow> addr \<Rightarrow> addr" where
  "ukaddr m pgdir va = upage m pgdir va + (va - PGROUNDDOWN va)"

definition uframes :: "memory \<Rightarrow> addr \<Rightarrow> addr \<Rightarrow> nat \<Rightarrow> addr set" where
  "uframes m pgdir va n = (\<lambda>i. upage m pgdir (va + of_nat i)) ` {..<n}"

text \<open>The bytes from \<open>va\<close> to the end of its page.\<close>

definition page_rest :: "addr \<Rightarrow> nat" where
  "page_rest va = 4096 - unat va mod 4096"

lemma page_rest_pos: "0 < page_rest va" "page_rest va \<le> 4096"
  by (auto simp: page_rest_def)

lemma unat_page_offset: "unat (va - PGROUNDDOWN va) = unat va mod 4096"
proof -
  have "PGROUNDDOWN va \<le> va" by (simp add: word_le_nat_alt unat_PGROUNDDOWN)
  then have "unat (va - PGROUNDDOWN va) = unat va - unat (PGROUNDDOWN va)" by (rule unat_sub)
  then show ?thesis by (simp add: unat_PGROUNDDOWN minus_mult_div_eq_mod)
qed

lemma same_page:
  assumes "i < page_rest va"
  shows "PGROUNDDOWN (va + of_nat i) = PGROUNDDOWN va"
proof -
  let ?d = "(va - PGROUNDDOWN va) + of_nat i"
  have b: "unat va mod 4096 + i < 4096" using assms by (simp add: page_rest_def)
  then have "unat (of_nat i :: u64) = i" by (intro unat64_of_nat) simp
  then have "unat ?d = unat va mod 4096 + i"
    using b by (subst unat_sum_no_wrap) (simp_all add: unat_page_offset)
  with b have "unat ?d < 4096" by simp
  from PGROUNDDOWN_add [OF page_aligned_PGROUNDDOWN this, of va] show ?thesis
    by (simp add: algebra_simps)
qed

lemma upage_same_page: "i < page_rest va \<Longrightarrow> upage m pgdir (va + of_nat i) = upage m pgdir va"
  using upage_PGROUNDDOWN [of m pgdir "va + of_nat i"] upage_PGROUNDDOWN [of m pgdir va]
  by (simp add: same_page)

lemma ukaddr_same_page: "i < page_rest va \<Longrightarrow> ukaddr m pgdir (va + of_nat i) = ukaddr m pgdir va + of_nat i"
  by (simp add: ukaddr_def upage_same_page same_page)

lemma next_page: "PGROUNDDOWN va + PGSIZE = va + of_nat (page_rest va)"
proof -
  have "unat va mod 4096 < 4096" by simp
  then have "unat va mod 4096 \<le> 4096" by (rule less_imp_le)
  then have "(of_nat (page_rest va) :: u64) = 4096 - of_nat (unat va mod 4096)"
    unfolding page_rest_def by (subst of_nat_diff) simp_all
  also have "of_nat (unat va mod 4096) = va - PGROUNDDOWN va"
    using arg_cong [OF unat_page_offset [of va], of "of_nat :: nat \<Rightarrow> u64"] by simp
  finally show ?thesis by (simp add: PGSIZE_def)
qed

lemma upage_page: "upage m pgdir va \<noteq> 0 \<Longrightarrow> page_aligned (upage m pgdir va) \<and> unat (upage m pgdir va) < 2 ^ 64 - 8192"
proof -
  assume "upage m pgdir va \<noteq> 0"
  then obtain e where e: "upage m pgdir va = P2V (PTE_ADDR e)" "PTE_ADDR e < PHYSTOP"
    by (auto simp: upage_def split: option.splits if_splits)
  have "unat (PTE_ADDR e) < unat PHYSTOP" using e(2) by (simp add: word_less_nat_alt)
  moreover have "unat PHYSTOP = 234881024" "unat KERNBASE = 18446603336221196288" by (simp_all add: layout)
  ultimately have "unat (P2V (PTE_ADDR e)) < 2 ^ 64 - 8192"
    unfolding P2V_def by (subst unat_sum_no_wrap) simp_all
  then show ?thesis using e by (simp add: page_aligned_P2V)
qed

lemma unat_word32_small: "n < 2 ^ 32 \<Longrightarrow> unat (ucast (of_nat n :: u64) :: u32) = n"
  by (simp add: unsigned_ucast_eq unat64_of_nat take_bit_nat_eq_self_iff)

text \<open>
  When a range of user memory can be written from a kernel buffer: every page of it is mapped for
  the user, different pages to different frames, and neither the tables of the walk nor the
  source lie in those frames.
\<close>

definition copy_ok :: "memory \<Rightarrow> addr \<Rightarrow> addr \<Rightarrow> addr \<Rightarrow> nat \<Rightarrow> bool" where
  "copy_ok m pgdir va buf n \<longleftrightarrow>
     page_aligned pgdir \<and> unat va + n < 2 ^ 64 \<and> unat buf + n < 2 ^ 64 \<and>
     0 \<notin> uframes m pgdir va n \<and>
     (\<forall>i < n. va_tables m pgdir (va + of_nat i) \<inter> uframes m pgdir va n = {}) \<and>
     (\<forall>f \<in> uframes m pgdir va n. \<forall>i < n. 4096 \<le> unat (buf + of_nat i - f)) \<and>
     (\<forall>i < n. \<forall>j < n. upage m pgdir (va + of_nat i) = upage m pgdir (va + of_nat j) \<longrightarrow>
        PGROUNDDOWN (va + of_nat i) = PGROUNDDOWN (va + of_nat j))"

lemma pt_tables_aligned: "page_aligned t \<Longrightarrow> aligned_set (set (pt_tables m ix t))"
  by (induction ix arbitrary: t) (auto simp: aligned_set_def split: option.splits, metis pt_step_aligned)

lemma va_tables_aligned: "page_aligned pgdir \<Longrightarrow> aligned_set (va_tables m pgdir va)"
  by (simp add: va_tables_def pt_tables_aligned)

text \<open>One turn of the loop, as a single copy.\<close>

lemma copyout_turn:
  assumes f0: "upage (mem s) pgdir va \<noteq> 0" and "0 < len" and nb: "unat buf + unat len < 2 ^ 64"
  defines "n \<equiv> min (page_rest va) (unat len)"
  shows "copyout_loop pgdir va buf len s =
    copyout_loop pgdir (va + of_nat (page_rest va)) (buf + of_nat n) (len - of_nat n)
      (s\<lparr>mem := mcopy (mem s) (ukaddr (mem s) pgdir va) buf n\<rparr>)"
proof -
  let ?f = "upage (mem s) pgdir va"
  have f: "page_aligned ?f" "unat ?f < 2 ^ 64 - 8192" using upage_page [OF f0] by auto
  have r: "unat (of_nat (page_rest va) :: u64) = page_rest va"
    using page_rest_pos [of va] by (intro unat64_of_nat) simp
  have n: "n \<le> 4096" "n \<le> unat len" "n \<le> page_rest va"
    using page_rest_pos [of va] by (auto simp: n_def)
  have un: "unat (of_nat n :: u64) = n" using n by (intro unat64_of_nat) simp
  have d: "PGSIZE - (va - PGROUNDDOWN va) = of_nat (page_rest va)"
    using next_page [of va] by (simp add: algebra_simps)
  have "(if (of_nat (page_rest va) :: u64) > len then len else of_nat (page_rest va)) = of_nat n"
    by (simp add: n_def word_less_nat_alt r min_def)
  moreover have "memmove (mem s) (?f + (va - PGROUNDDOWN va)) buf (ucast (of_nat n :: u64)) =
      mcopy (mem s) (ukaddr (mem s) pgdir va) buf n"
  proof -
    have n32: "unat (ucast (of_nat n :: u64) :: u32) = n" using n by (intro unat_word32_small) simp
    have o: "unat (va - PGROUNDDOWN va) < 4096" by (simp add: unat_page_offset)
    have "unat (?f + (va - PGROUNDDOWN va)) = unat ?f + unat (va - PGROUNDDOWN va)"
      using f(2) o by (intro unat_sum_no_wrap) simp
    then have "unat (?f + (va - PGROUNDDOWN va)) + n < 2 ^ 64" using f(2) o n by simp
    moreover have "unat buf + n < 2 ^ 64" using nb n by simp
    ultimately show ?thesis
      using memmove_eq_mcopy [of "?f + (va - PGROUNDDOWN va)" "ucast (of_nat n :: u64)" buf "mem s"] n32
      by (simp add: ukaddr_def)
  qed
  ultimately show ?thesis using assms(2) f0
    by (subst copyout_loop.simps) (simp add: uva2ka_read upage_PGROUNDDOWN d next_page Let_def)
qed

lemma mcopy_outside:
  assumes "within f a n" "4096 \<le> unat (x - f)"
  shows "mcopy m a b n x = m x"
proof -
  have "\<not> unat (x - a) < n"
  proof
    assume "unat (x - a) < n"
    from within_byte [OF assms(1) this] assms(2) show False by simp
  qed
  then show ?thesis by (simp add: mcopy_def)
qed

lemma within_ukaddr: "n \<le> page_rest va \<Longrightarrow> within (upage m pgdir va) (ukaddr m pgdir va) n"
  by (simp add: ukaddr_def unat_page_offset page_rest_def)

text \<open>A write inside a frame of the range keeps the translation of the range.\<close>

lemma copy_ok_upage:
  assumes "copy_ok m pgdir va buf k" "f \<in> uframes m pgdir va k"
    and frame: "\<And>x. 4096 \<le> unat (x - f) \<Longrightarrow> m1 x = m x" and i: "i < k"
  shows "upage m1 pgdir (va + of_nat i) = upage m pgdir (va + of_nat i)"
    "va_tables m1 pgdir (va + of_nat i) = va_tables m pgdir (va + of_nat i)"
proof -
  have f0: "f \<noteq> 0" using assms(1,2) by (auto simp: copy_ok_def)
  then have fa: "page_aligned f" using assms(2) upage_page by (auto simp: uframes_def)
  have al: "aligned_set (va_tables m pgdir (va + of_nat i))"
    using assms(1) by (simp add: copy_ok_def va_tables_aligned)
  have nf: "f \<notin> va_tables m pgdir (va + of_nat i)" using assms i by (auto simp: copy_ok_def)
  have "agree m m1 (va_tables m pgdir (va + of_nat i))"
    unfolding agree_def
  proof (intro ballI allI impI)
    fix p x
    assume p: "p \<in> va_tables m pgdir (va + of_nat i)" "unat (x - p) < 4096"
    have "4096 \<le> unat (x - f)"
    proof (rule ccontr)
      assume "\<not> 4096 \<le> unat (x - f)"
      with p fa al nf have "apart x 1 x 1" by (intro apart_pages [of p f]) (auto simp: aligned_set_def)
      then show False by (simp add: apart_def)
    qed
    then show "m1 x = m x" by (rule frame)
  qed
  then show "upage m1 pgdir (va + of_nat i) = upage m pgdir (va + of_nat i)"
    "va_tables m1 pgdir (va + of_nat i) = va_tables m pgdir (va + of_nat i)"
    by (simp_all add: upage_agree mapped_agree)
qed

lemma copy_ok_step:
  assumes ok: "copy_ok m pgdir va buf k" and f: "f \<in> uframes m pgdir va k"
    and frame: "\<And>x. 4096 \<le> unat (x - f) \<Longrightarrow> m1 x = m x" and n: "n \<le> k"
  shows "copy_ok m1 pgdir (va + of_nat n) (buf + of_nat n) (k - n)"
    and "\<And>i. i < k - n \<Longrightarrow> upage m1 pgdir (va + of_nat n + of_nat i) = upage m pgdir (va + of_nat (n + i))"
proof -
  note up = copy_ok_upage [OF ok f frame]
  have un: "unat (a + of_nat n) = unat a + n" if "unat a + k < 2 ^ 64" for a :: u64
    using that n by (simp add: unat_add_of_nat)
  have sh: "a + of_nat n + of_nat i = a + of_nat (n + i)" for a :: u64 and i by (simp add: algebra_simps)
  show u: "upage m1 pgdir (va + of_nat n + of_nat i) = upage m pgdir (va + of_nat (n + i))" if "i < k - n" for i
    unfolding sh using that by (intro up) simp_all
  have t: "va_tables m1 pgdir (va + of_nat n + of_nat i) = va_tables m pgdir (va + of_nat (n + i))" if "i < k - n" for i
    unfolding sh using that by (intro up) simp_all
  have fr: "uframes m1 pgdir (va + of_nat n) (k - n) \<subseteq> uframes m pgdir va k"
  proof
    fix g assume "g \<in> uframes m1 pgdir (va + of_nat n) (k - n)"
    then obtain i where "i < k - n" "g = upage m1 pgdir (va + of_nat n + of_nat i)" by (auto simp: uframes_def)
    then have "g = upage m pgdir (va + of_nat (n + i))" "n + i < k" using u by auto
    then show "g \<in> uframes m pgdir va k" unfolding uframes_def by blast
  qed
  note ok' = ok [unfolded copy_ok_def]
  have o: "page_aligned pgdir" "unat va + k < 2 ^ 64" "unat buf + k < 2 ^ 64" "0 \<notin> uframes m pgdir va k"
    using ok' by blast+
  have o5: "va_tables m pgdir (va + of_nat i) \<inter> uframes m pgdir va k = {}" if "i < k" for i
    using ok' that by blast
  have o6: "4096 \<le> unat (buf + of_nat i - g)" if "g \<in> uframes m pgdir va k" "i < k" for g i
    using ok' that by blast
  have o7: "PGROUNDDOWN (va + of_nat i) = PGROUNDDOWN (va + of_nat j)"
    if "i < k" "j < k" "upage m pgdir (va + of_nat i) = upage m pgdir (va + of_nat j)" for i j
    using ok' that by blast
  show "copy_ok m1 pgdir (va + of_nat n) (buf + of_nat n) (k - n)"
    unfolding copy_ok_def
  proof (intro conjI allI ballI impI)
    show "page_aligned pgdir" by (fact o(1))
    show "unat (va + of_nat n) + (k - n) < 2 ^ 64" "unat (buf + of_nat n) + (k - n) < 2 ^ 64"
      using o(2,3) n by (simp_all add: un)
    show "0 \<notin> uframes m1 pgdir (va + of_nat n) (k - n)" using fr o(4) by blast
    fix i assume i: "i < k - n"
    show "va_tables m1 pgdir (va + of_nat n + of_nat i) \<inter> uframes m1 pgdir (va + of_nat n) (k - n) = {}"
    proof -
      have "n + i < k" using i by simp
      from o5 [OF this] fr show ?thesis unfolding t [OF i] by blast
    qed
    show "4096 \<le> unat (buf + of_nat n + of_nat i - g)"
      if "g \<in> uframes m1 pgdir (va + of_nat n) (k - n)" for g
      unfolding sh using that fr i by (intro o6) auto
    show "PGROUNDDOWN (va + of_nat n + of_nat i) = PGROUNDDOWN (va + of_nat n + of_nat j)"
      if "j < k - n" "upage m1 pgdir (va + of_nat n + of_nat i) = upage m1 pgdir (va + of_nat n + of_nat j)" for j
      unfolding sh using that i u [OF i] u [OF that(1)] by (intro o7) simp_all
  qed
qed

lemma other_page:
  assumes "page_rest va \<le> j" "unat va + j < 2 ^ 64"
  shows "PGROUNDDOWN (va + of_nat j) \<noteq> PGROUNDDOWN va"
proof
  assume "PGROUNDDOWN (va + of_nat j) = PGROUNDDOWN va"
  then have "4096 * ((unat va + j) div 4096) = 4096 * (unat va div 4096)"
    using unat_PGROUNDDOWN [of "va + of_nat j"] assms(2) by (simp add: unat_PGROUNDDOWN unat_add_of_nat)
  moreover have "4096 * (unat va div 4096) + 4096 \<le> unat va + j"
  proof -
    have "4096 * (unat va div 4096) + unat va mod 4096 = unat va" by simp
    moreover have "4096 \<le> unat va mod 4096 + j" using assms(1) by (simp add: page_rest_def)
    ultimately show ?thesis by linarith
  qed
  then have "unat va div 4096 + 1 \<le> (unat va + j) div 4096" by (simp add: less_eq_div_iff_mult_less_eq)
  ultimately show False by simp
qed

lemma page_disjoint:
  assumes "page_aligned f" "page_aligned g" "f \<noteq> g" "unat (x - f) < 4096"
  shows "4096 \<le> unat (x - g)"
proof (rule ccontr)
  assume "\<not> 4096 \<le> unat (x - g)"
  with assms have "apart x 1 x 1" by (intro apart_pages [of f g]) auto
  then show False by (simp add: apart_def)
qed

lemma copy_ok_src:
  "copy_ok m pgdir va buf k \<Longrightarrow> f \<in> uframes m pgdir va k \<Longrightarrow> i < k \<Longrightarrow> 4096 \<le> unat (buf + of_nat i - f)"
  unfolding copy_ok_def by blast

lemma copy_ok_other:
  assumes "copy_ok m pgdir va buf k" "i < k - n" "g = upage m pgdir (va + of_nat (n + i))" "n = page_rest va"
  shows "g \<in> uframes m pgdir va k \<and> g \<noteq> upage m pgdir va \<and> page_aligned g"
proof -
  have k: "n + i < k" using assms(2) by simp
  then have g: "g \<in> uframes m pgdir va k" unfolding uframes_def assms(3) by blast
  note ok = assms(1) [unfolded copy_ok_def]
  have "0 \<notin> uframes m pgdir va k" using ok by blast
  then have "g \<noteq> 0" using g by blast
  then have "page_aligned g" using upage_page assms(3) by blast
  moreover have "g \<noteq> upage m pgdir va"
  proof
    assume "g = upage m pgdir va"
    then have "upage m pgdir (va + of_nat (n + i)) = upage m pgdir (va + of_nat 0)" using assms(3) by simp
    moreover have "0 < k" using k by simp
    ultimately have "PGROUNDDOWN (va + of_nat (n + i)) = PGROUNDDOWN (va + of_nat 0)" using ok k by blast
    moreover have "unat va + (n + i) < 2 ^ 64" using ok k by linarith
    ultimately show False using other_page [of va "n + i"] assms(4) by simp
  qed
  ultimately show ?thesis using g by blast
qed

lemma copyout_loop_correct:
  assumes "copy_ok (mem s) pgdir va buf (unat len)"
  shows "\<exists>m'. copyout_loop pgdir va buf len s = Some (0, s\<lparr>mem := m'\<rparr>) \<and>
    (\<forall>x. (\<forall>f \<in> uframes (mem s) pgdir va (unat len). 4096 \<le> unat (x - f)) \<longrightarrow> m' x = mem s x) \<and>
    (\<forall>i < unat len. m' (ukaddr (mem s) pgdir (va + of_nat i)) = mem s (buf + of_nat i))"
  using assms
proof (induction "unat len" arbitrary: s va buf len rule: less_induct)
  case less
  show ?case
  proof (cases "len = 0")
    case True
    then show ?thesis by (subst copyout_loop.simps) (simp add: exI [of _ "mem s"])
  next
    case False
    let ?m = "mem s" and ?f = "upage (mem s) pgdir va" and ?k = "unat len"
    define n where "n = min (page_rest va) ?k"
    define m1 where "m1 = mcopy ?m (ukaddr ?m pgdir va) buf n"
    have k0: "0 < ?k" using False by (simp add: unat_gt_0)
    then have l0: "0 < len" by (simp add: word_less_nat_alt)
    have n: "0 < n" "n \<le> ?k" "n \<le> page_rest va" "n \<le> 4096"
      using k0 page_rest_pos [of va] by (auto simp: n_def)
    have un: "unat (of_nat n :: u64) = n" using n by (intro unat64_of_nat) simp
    have f: "?f \<in> uframes ?m pgdir va ?k"
      unfolding uframes_def using k0 by (intro image_eqI [of _ _ 0]) simp_all
    have f0: "?f \<noteq> 0"
    proof -
      have "0 \<notin> uframes ?m pgdir va ?k" using less.prems [unfolded copy_ok_def] by blast
      then show ?thesis using f by auto
    qed
    then have fal: "page_aligned ?f" using upage_page by blast
    have nb: "unat buf + ?k < 2 ^ 64" using less.prems [unfolded copy_ok_def] by blast
    have frame: "m1 x = ?m x" if "4096 \<le> unat (x - ?f)" for x
      unfolding m1_def using within_ukaddr [OF n(3)] that by (rule mcopy_outside)
    have copied: "m1 (ukaddr ?m pgdir (va + of_nat i)) = ?m (buf + of_nat i)" if "i < n" for i
      using that n by (simp add: ukaddr_same_page m1_def mcopy_def unat64_of_nat)
    have turn: "copyout_loop pgdir va buf len s = copyout_loop pgdir (va + of_nat (page_rest va))
        (buf + of_nat n) (len - of_nat n) (s\<lparr>mem := m1\<rparr>)"
      unfolding m1_def n_def using f0 l0 nb by (rule copyout_turn)
    have rest: "unat (len - of_nat n) = ?k - n" using n un by (simp add: unat_sub word_le_nat_alt)
    show ?thesis
    proof (cases "n = ?k")
      case True
      then have "len - of_nat n = 0" using rest by (simp add: unat_eq_0)
      then have "copyout_loop pgdir va buf len s = Some (0, s\<lparr>mem := m1\<rparr>)"
        unfolding turn by (subst copyout_loop.simps) simp
      then show ?thesis using frame copied f True by blast
    next
      case False
      then have nr: "n = page_rest va" using n by (auto simp: n_def min_def split: if_splits)
      have st1: "copy_ok m1 pgdir (va + of_nat n) (buf + of_nat n) (?k - n)"
        by (rule copy_ok_step(1) [OF less.prems f _ n(2)]) (rule frame)
      have st2: "upage m1 pgdir (va + of_nat n + of_nat i) = upage ?m pgdir (va + of_nat (n + i))" if "i < ?k - n" for i
        by (rule copy_ok_step(2) [OF less.prems f _ n(2) that]) (rule frame)
      have "unat (len - of_nat n) < ?k" using rest n by simp
      from less.hyps [OF this, of "s\<lparr>mem := m1\<rparr>" "va + of_nat n" "buf + of_nat n"] st1 rest
      obtain m' where m': "copyout_loop pgdir (va + of_nat n) (buf + of_nat n) (len - of_nat n) (s\<lparr>mem := m1\<rparr>) =
          Some (0, s\<lparr>mem := m'\<rparr>)"
        and fr': "\<And>x. (\<forall>g \<in> uframes m1 pgdir (va + of_nat n) (?k - n). 4096 \<le> unat (x - g)) \<Longrightarrow> m' x = m1 x"
        and cp': "\<And>i. i < ?k - n \<Longrightarrow> m' (ukaddr m1 pgdir (va + of_nat n + of_nat i)) = m1 (buf + of_nat n + of_nat i)"
        by auto
      have sh: "a + of_nat n + of_nat i = a + of_nat (n + i)" for a :: u64 and i by (simp add: algebra_simps)
      have other: "g \<in> uframes ?m pgdir va ?k \<and> g \<noteq> ?f \<and> page_aligned g"
        if "g \<in> uframes m1 pgdir (va + of_nat n) (?k - n)" for g
      proof -
        from that obtain i where i: "i < ?k - n" "g = upage m1 pgdir (va + of_nat n + of_nat i)"
          unfolding uframes_def by blast
        show ?thesis using copy_ok_other [OF less.prems i(1) _ nr, of g] i(2) st2 [OF i(1)] by simp
      qed
      have out: "4096 \<le> unat (x - g)"
        if "unat (x - ?f) < 4096" "g \<in> uframes m1 pgdir (va + of_nat n) (?k - n)" for x g
        using other [OF that(2)] that(1) fal by (intro page_disjoint [of ?f]) auto
      have "m' (ukaddr ?m pgdir (va + of_nat i)) = ?m (buf + of_nat i)" if i: "i < ?k" for i
      proof (cases "i < n")
        case True
        have "unat (ukaddr ?m pgdir (va + of_nat i) - ?f) < 4096"
          using True n within_byte [OF within_ukaddr [OF n(3)] True] by (simp add: ukaddr_same_page)
        then show ?thesis using fr' out copied [OF True] by auto
      next
        case False
        then obtain j where j: "i = n + j" "j < ?k - n" using i by (metis add_diff_inverse_nat diff_less_mono not_less)
        have "m' (ukaddr m1 pgdir (va + of_nat n + of_nat j)) = ?m (buf + of_nat i)"
          using cp' [OF j(2)] frame [OF copy_ok_src [OF less.prems f i]] j(1) sh [of buf j] by simp
        moreover have "ukaddr m1 pgdir (va + of_nat n + of_nat j) = ukaddr ?m pgdir (va + of_nat i)"
          using st2 [OF j(2)] j(1) sh [of va j] by (simp only: ukaddr_def)
        ultimately show ?thesis by (simp only:)
      qed
      moreover have "m' x = ?m x" if "\<forall>g \<in> uframes ?m pgdir va ?k. 4096 \<le> unat (x - g)" for x
        using that f frame [of x] fr' [of x] other by metis
      ultimately show ?thesis using m' turn nr by auto
    qed
  qed
qed


text \<open>The bytes of a user range.\<close>

definition ubytes :: "memory \<Rightarrow> addr \<Rightarrow> addr \<Rightarrow> nat \<Rightarrow> byte list" where
  "ubytes m pgdir va n = map (\<lambda>i. m (ukaddr m pgdir (va + of_nat i))) [0..<n]"

lemma length_ubytes [simp]: "length (ubytes m pgdir va n) = n"
  by (simp add: ubytes_def)

lemma ubytes_add: "ubytes m pgdir va (n + k) = ubytes m pgdir va n @ ubytes m pgdir (va + of_nat n) k"
  by (rule nth_equalityI) (auto simp: ubytes_def nth_append algebra_simps)

lemma ubytes_page: "n \<le> page_rest va \<Longrightarrow> ubytes m pgdir va n = mread m (ukaddr m pgdir va) n"
  by (rule nth_equalityI) (auto simp: ubytes_def ukaddr_same_page)

text \<open>The copy does not disturb the translation of the range.\<close>

lemma copy_ok_stable:
  assumes ok: "copy_ok m pgdir va buf n"
    and frame: "\<forall>x. (\<forall>f \<in> uframes m pgdir va n. 4096 \<le> unat (x - f)) \<longrightarrow> m' x = m x" and i: "i < n"
  shows "upage m' pgdir (va + of_nat i) = upage m pgdir (va + of_nat i)"
proof (rule upage_agree)
  let ?T = "va_tables m pgdir (va + of_nat i)"
  note o = ok [unfolded copy_ok_def]
  have al: "aligned_set ?T" using o by (simp add: va_tables_aligned)
  have dj: "?T \<inter> uframes m pgdir va n = {}" using o i by blast
  have fa: "page_aligned f" if "f \<in> uframes m pgdir va n" for f
  proof -
    have "f \<noteq> 0" using o that by auto
    then show ?thesis using that upage_page unfolding uframes_def by blast
  qed
  show "agree m m' ?T"
    unfolding agree_def
  proof (intro ballI allI impI)
    fix t x assume t: "t \<in> ?T" "unat (x - t) < 4096"
    have "4096 \<le> unat (x - f)" if "f \<in> uframes m pgdir va n" for f
      using t al dj fa [OF that] that by (intro page_disjoint [of t]) (auto simp: aligned_set_def)
    then show "m' x = m x" using frame by blast
  qed
qed

section \<open>Address spaces\<close>

text \<open>
  The tables of an address space lie in \<open>T\<close> and its user frames in \<open>U\<close>. Whatever is copied out, to
  mapped or unmapped addresses, touches nothing but \<open>U\<close>.
\<close>

definition aspace :: "memory \<Rightarrow> addr \<Rightarrow> addr set \<Rightarrow> addr set \<Rightarrow> bool" where
  "aspace m pgdir T U \<longleftrightarrow> page_aligned pgdir \<and> aligned_set T \<and> T \<inter> U = {} \<and>
     (\<forall>va. va_tables m pgdir va \<subseteq> T) \<and> (\<forall>va. upage m pgdir va \<noteq> 0 \<longrightarrow> upage m pgdir va \<in> U)"

lemma aspace_agree:
  assumes "aspace m pgdir T U" "agree m m' T"
  shows "aspace m' pgdir T U" "upage m' pgdir va = upage m pgdir va"
proof -
  have "upage m' pgdir va = upage m pgdir va" "va_tables m' pgdir va = va_tables m pgdir va" for va
  proof -
    have "va_tables m pgdir va \<subseteq> T" using assms(1) by (simp add: aspace_def)
    then have "agree m m' (va_tables m pgdir va)" using assms(2) agree_mono by blast
    then show "upage m' pgdir va = upage m pgdir va" "va_tables m' pgdir va = va_tables m pgdir va"
      by (simp_all add: upage_agree mapped_agree)
  qed
  then show "aspace m' pgdir T U" "upage m' pgdir va = upage m pgdir va" using assms(1) by (simp_all add: aspace_def)
qed

lemma copyout_frame:
  assumes "aspace (mem s) pgdir T U" "unat buf + unat len < 2 ^ 64"
  shows "\<exists>r m'. copyout_loop pgdir va buf len s = Some (r, s\<lparr>mem := m'\<rparr>) \<and> (r = 0 \<or> r = -1) \<and>
    (\<forall>P. aligned_set P \<longrightarrow> P \<inter> U = {} \<longrightarrow> agree (mem s) m' P)"
  using assms
proof (induction "unat len" arbitrary: s va buf len rule: less_induct)
  case less
  let ?m = "mem s" and ?f = "upage (mem s) pgdir va" and ?k = "unat len"
  show ?case
  proof (cases "len = 0 \<or> ?f = 0")
    case True
    then have "copyout_loop pgdir va buf len s = Some (if len = 0 then 0 else -1, s\<lparr>mem := ?m\<rparr>)"
      by (subst copyout_loop.simps) (auto simp: uva2ka_read upage_PGROUNDDOWN Let_def word_gt_0)
    then show ?thesis by (intro exI [of _ "if len = 0 then 0 else -1"] exI [of _ ?m]) simp
  next
    case False
    define n where "n = min (page_rest va) ?k"
    define m1 where "m1 = mcopy ?m (ukaddr ?m pgdir va) buf n"
    have l0: "0 < len" using False by (simp add: word_gt_0)
    then have k0: "0 < ?k" by (simp add: word_less_nat_alt)
    have n: "0 < n" "n \<le> ?k" "n \<le> page_rest va" "n \<le> 4096"
      using k0 page_rest_pos [of va] by (auto simp: n_def)
    have un: "unat (of_nat n :: u64) = n" using n by (intro unat64_of_nat) simp
    have rest: "unat (len - of_nat n) = ?k - n" using n un by (simp add: unat_sub word_le_nat_alt)
    have fU: "?f \<in> U" "page_aligned ?f" using False less.prems(1) upage_page by (auto simp: aspace_def)
    have turn: "copyout_loop pgdir va buf len s = copyout_loop pgdir (va + of_nat (page_rest va))
        (buf + of_nat n) (len - of_nat n) (s\<lparr>mem := m1\<rparr>)"
      unfolding m1_def n_def using False l0 less.prems(2) by (intro copyout_turn) simp_all
    have ag: "agree ?m m1 P" if "aligned_set P" "P \<inter> U = {}" for P
      unfolding m1_def using that fU within_ukaddr [OF n(3)] by (intro agree_mcopy [of ?f]) auto
    have "agree ?m m1 T" using less.prems(1) by (intro ag) (auto simp: aspace_def)
    then have as: "aspace m1 pgdir T U" using less.prems(1) aspace_agree by blast
    have "unat (buf + of_nat n) = unat buf + n" using less.prems(2) n by (simp add: unat_add_of_nat)
    then have "unat (buf + of_nat n) + unat (len - of_nat n) < 2 ^ 64" using rest n less.prems(2) by simp
    moreover have lt: "unat (len - of_nat n) < ?k" using rest n by simp
    ultimately obtain r m' where h: "copyout_loop pgdir (va + of_nat (page_rest va)) (buf + of_nat n) (len - of_nat n)
        (s\<lparr>mem := m1\<rparr>) = Some (r, s\<lparr>mem := m'\<rparr>)" "r = 0 \<or> r = -1"
      "\<forall>P. aligned_set P \<longrightarrow> P \<inter> U = {} \<longrightarrow> agree m1 m' P"
      using less.hyps [OF lt, of "s\<lparr>mem := m1\<rparr>" "buf + of_nat n" "va + of_nat (page_rest va)"] as by auto
    have "agree ?m m' P" if "aligned_set P" "P \<inter> U = {}" for P
      using ag [OF that] h(3) that agree_trans by blast
    then show ?thesis using h(1,2) unfolding turn by (intro exI [of _ r] exI [of _ m']) simp
  qed
qed

section \<open>Properties\<close>

text \<open>C12: Copying out. When every page of the user range is mapped for the user, different pages to
  different frames, and neither the source nor the page tables lie in those frames, \<open>copyout\<close>
  returns 0 and afterwards the process reads at \<open>va\<close> exactly the \<open>len\<close> bytes of the kernel
  buffer, however many pages the range crosses; nothing outside the frames of the range changes.\<close>

theorem copyout_delivers:
  assumes "copy_ok (mem s) pgdir va p (unat len)"
  shows "\<exists>m'. copyout pgdir va p len s = Some (0, s\<lparr>mem := m'\<rparr>) \<and>
    ubytes m' pgdir va (unat len) = mread (mem s) p (unat len) \<and>
    (\<forall>x. (\<forall>f \<in> uframes (mem s) pgdir va (unat len). 4096 \<le> unat (x - f)) \<longrightarrow> m' x = mem s x)"
proof -
  from copyout_loop_correct [OF assms] obtain m' where m':
    "copyout_loop pgdir va p len s = Some (0, s\<lparr>mem := m'\<rparr>)"
    "\<forall>x. (\<forall>f \<in> uframes (mem s) pgdir va (unat len). 4096 \<le> unat (x - f)) \<longrightarrow> m' x = mem s x"
    "\<forall>i < unat len. m' (ukaddr (mem s) pgdir (va + of_nat i)) = mem s (p + of_nat i)"
    by blast
  have "ubytes m' pgdir va (unat len) = mread (mem s) p (unat len)"
    using m'(3) copy_ok_stable [OF assms m'(2)] by (auto simp: ubytes_def mread_def ukaddr_def)
  then show ?thesis using m' by (auto simp: copyout_def)
qed

text \<open>The sample page table translates the page at 4096.\<close>

lemma sample_upage:
  assumes "va AND - 4096 = 4096"
  shows "upage (install_pt m) (sample_page 0) va = sample_page 4"
    "va_tables (install_pt m) (sample_page 0) va = sample_page ` {0, 1, 2, 3}"
proof -
  let ?m = "install_pt m"
  have pg: "PGROUNDDOWN va = 4096" using assms by (simp add: PGROUNDDOWN_def PGSIZE_def)
  have ix: "PMX va = 0" "PDPX va = 0" "PDX va = 0" "PTX va = 1"
    using drop_bit_PGROUNDDOWN [of 39 va] drop_bit_PGROUNDDOWN [of 30 va] drop_bit_PGROUNDDOWN [of 21 va]
      drop_bit_PGROUNDDOWN [of 12 va] by (simp_all add: pg PMX_def PDPX_def PDX_def PTX_def)
  have ld: "ld64 ?m (entry (sample_page 0) 0) = V2P (sample_page 1) OR 7"
    "ld64 ?m (entry (sample_page 1) 0) = V2P (sample_page 2) OR 7"
    "ld64 ?m (entry (sample_page 2) 0) = V2P (sample_page 3) OR 7"
    "ld64 ?m (entry (sample_page 3) 1) = V2P (sample_page 4) OR 7"
    by (simp_all add: install_pt_def mem_simps apart_def entry_def sample_page_def layout)
  have st: "pt_step ?m (sample_page 0) 0 = Some (sample_page 1)" "pt_step ?m (sample_page 1) 0 = Some (sample_page 2)"
    "pt_step ?m (sample_page 2) 0 = Some (sample_page 3)"
    unfolding pt_step_def ld Let_def by (simp_all add: has_def PTE_ADDR_def V2P_def P2V_def sample_page_def layout)
  then show "va_tables ?m (sample_page 0) va = sample_page ` {0, 1, 2, 3}"
    by (simp add: va_tables_def pt_path_def ix)
  have "mapped ?m (sample_page 0) va = Some (V2P (sample_page 4) OR 7)"
    using st ld(4) by (simp add: mapped_def pte_of_def pt_path_def ix)
      (simp add: has_def PTE_P_def V2P_def sample_page_def layout)
  then show "upage ?m (sample_page 0) va = sample_page 4"
    by (simp add: upage_def has_def PTE_ADDR_def V2P_def P2V_def sample_page_def layout)
qed

theorem copyout_delivers_witness:
  "\<exists>m'. copyout (sample_page 0) 4100 (sample_page 5) 2 (sample_kmem\<lparr>mem := install_pt (\<lambda>_. 7)\<rparr>) =
      Some (0, sample_kmem\<lparr>mem := m'\<rparr>) \<and> ubytes m' (sample_page 0) 4100 2 = [7, 7]"
proof -
  let ?m = "install_pt (\<lambda>_. 7)" and ?s = "sample_kmem\<lparr>mem := install_pt (\<lambda>_. 7)\<rparr>"
  have u: "upage ?m (sample_page 0) (4100 + of_nat i) = sample_page 4"
    "va_tables ?m (sample_page 0) (4100 + of_nat i) = sample_page ` {0, 1, 2, 3}"
    "PGROUNDDOWN (4100 + of_nat i) = 4096" if "i < 2" for i
    using that sample_upage [of "4100 + of_nat i"] by (auto simp: less_2_cases_iff PGROUNDDOWN_def PGSIZE_def)
  have fr: "uframes ?m (sample_page 0) 4100 2 = {sample_page 4}"
    using u(1) by (auto simp: uframes_def image_def intro!: exI [of _ "0 :: nat"])
  have "copy_ok (mem ?s) (sample_page 0) 4100 (sample_page 5) (unat (2 :: u64))"
    unfolding copy_ok_def
    by (simp add: fr u)
      (auto simp: sample_page_eq_iff less_2_cases_iff sample_page_def page_aligned_def layout)
  from copyout_delivers [OF this] obtain m' where
    "copyout (sample_page 0) 4100 (sample_page 5) 2 ?s = Some (0, sample_kmem\<lparr>mem := m'\<rparr>)"
    "ubytes m' (sample_page 0) 4100 2 = mread ?m (sample_page 5) 2" by auto
  moreover have "mread ?m (sample_page 5) 2 = [7, 7]"
    by (simp add: install_pt_def st64_def mem_simps apart_def entry_def sample_page_def layout)
      (simp add: mread_def upt_rec)
  ultimately show ?thesis by auto
qed

text \<open>C17: Only user pages are reachable through \<open>uva2ka\<close>: it never changes the state; a non-null result is
  the direct-map address of the frame of a present page with the user bit, below \<open>PHYSTOP\<close>; and
  \<open>copyout\<close> to an address where it is null writes nothing and returns -1.\<close>

theorem uva2ka_user_only:
  assumes "uva2ka pgdir va s = Some (k, s')"
  shows "s' = s \<and>
    (k \<noteq> 0 \<longrightarrow> (\<exists>e. mapped (mem s) pgdir va = Some e \<and> has e PTE_U \<and> PTE_ADDR e < PHYSTOP \<and> k = P2V (PTE_ADDR e))) \<and>
    (k = 0 \<longrightarrow> 0 < len \<longrightarrow> copyout pgdir va p len s = Some (-1, s))"
proof (intro conjI impI)
  have k: "k = upage (mem s) pgdir va" "s' = s" using assms by (auto simp: uva2ka_read)
  then show "s' = s" by simp
  show "\<exists>e. mapped (mem s) pgdir va = Some e \<and> has e PTE_U \<and> PTE_ADDR e < PHYSTOP \<and> k = P2V (PTE_ADDR e)" if "k \<noteq> 0"
    using that k by (auto simp: upage_def split: option.splits if_splits)
  show "copyout pgdir va p len s = Some (-1, s)" if "k = 0" "0 < len"
    using that k by (simp add: copyout_def, subst copyout_loop.simps) (simp add: uva2ka_read upage_PGROUNDDOWN Let_def)
qed

theorem uva2ka_user_only_witness:
  "copyout (sample_page 9) 4096 (sample_page 5) 2 sample_kmem = Some (-1, sample_kmem)"
proof -
  have "ld64 (\<lambda>_. 0) a = 0" for a by (simp add: ld64_def mread_def upt_rec)
  then have "upage (mem sample_kmem) (sample_page 9) 4096 = 0"
    by (simp add: upage_def mapped_def pte_of_def pt_path_def pt_step_def sample_kmem_def)
  then have "uva2ka (sample_page 9) 4096 sample_kmem = Some (0, sample_kmem)" by (simp add: uva2ka_read)
  from uva2ka_user_only [OF this, of 2 "sample_page 5"] show ?thesis by simp
qed

end
