(* ===== verification/Proc.thy ===== *)
theory Proc
  imports Copyout
begin

text \<open>
  Processes (\<^verbatim>\<open>proc.c\<close>, \<^verbatim>\<open>proc.h\<close>): the process table, allocation of a process, growing it,
  \<open>sleep\<close>, \<open>wakeup\<close>, \<open>kill\<close>, \<open>wait\<close> and the two halves of a context switch.

  A process pointer is an index into the table. A wait channel is a value of \<open>chan\<close>, one
  constructor per kind of object whose address the kernel sleeps on, so that distinct objects are
  distinct channels. \<open>swtch\<close> hands the CPU to another stack: a routine that calls \<open>sched\<close> is given
  as the part before the switch and the part after it, and the routines that may sleep return
  \<open>Asleep\<close> with the state at the switch.
\<close>

section \<open>State\<close>

datatype procstate = UNUSED | EMBRYO | SLEEPING | RUNNABLE | RUNNING | ZOMBIE

datatype chan =
    Nochan | Ch_addr addr | Ch_proc nat | Ch_ticks | Ch_input | Ch_log
  | Ch_nread addr | Ch_nwrite addr | Ch_buf nat | Ch_inode nat

record proc =
  p_sz :: u64
  p_pgdir :: addr
  p_kstack :: addr
  p_state :: procstate
  p_pid :: u32
  p_parent :: "nat option"
  p_tf :: addr
  p_context :: addr
  p_chan :: chan
  p_killed :: bool
  p_ofile :: "nat option list"
  p_cwd :: "nat option"
  p_name :: "byte list"

text \<open>
  \<open>p_name\<close> holds the bytes before the terminating NUL. \<open>curproc\<close> is the per-CPU variable \<open>proc\<close>; \<open>cpu_local\<close> is \<open>cpu->local\<close>; the last two fields are
  the addresses of the functions \<open>forkret\<close> and \<open>syscall_trapret\<close>.
\<close>

record pstate = vm +
  ptable :: "proc list"
  initproc :: "nat option"
  nextpid :: u32
  curproc :: "nat option"
  cpu_local :: addr
  forkret_addr :: addr
  trapret_addr :: addr

definition NPROC :: nat where
  "NPROC = 64"

definition upd_proc :: "nat \<Rightarrow> (proc \<Rightarrow> proc) \<Rightarrow> 'z pstate_scheme \<Rightarrow> 'z pstate_scheme" where
  "upd_proc i f s = s\<lparr>ptable := (ptable s)[i := f (ptable s ! i)]\<rparr>"

definition myproc :: "'z pstate_scheme \<Rightarrow> nat option" where
  "myproc s = curproc s"

definition pinit :: "'z pstate_scheme \<Rightarrow> 'z pstate_scheme" where
  "pinit s = s\<lparr>locks := (locks s)(Ptable_lock := initlock (locks s Ptable_lock))\<rparr>"

text \<open>The result of a routine that may sleep.\<close>

datatype 'a outcome = Ret 'a | Asleep

section \<open>The trap frame\<close>

text \<open>The offsets of the fields of \<open>struct trapframe\<close>, and the sizes used on the kernel stack.\<close>

definition tf_rax :: u64 where "tf_rax = 0"
definition tf_rcx :: u64 where "tf_rcx = 16"
definition tf_rdx :: u64 where "tf_rdx = 24"
definition tf_rsi :: u64 where "tf_rsi = 40"
definition tf_rdi :: u64 where "tf_rdi = 48"
definition tf_r8 :: u64 where "tf_r8 = 56"
definition tf_r9 :: u64 where "tf_r9 = 64"
definition tf_r10 :: u64 where "tf_r10 = 72"
definition tf_r11 :: u64 where "tf_r11 = 80"
definition tf_rsp :: u64 where "tf_rsp = 160"
definition sizeof_trapframe :: u64 where "sizeof_trapframe = 176"
definition sizeof_context :: u64 where "sizeof_context = 56"

section \<open>Allocating a process\<close>

definition allocproc :: "'z pstate_scheme \<Rightarrow> (nat option \<times> 'z pstate_scheme) option" where
  "allocproc s = do {
     s \<leftarrow> k_acquire Ptable_lock s;
     case List.find (\<lambda>i. p_state (ptable s ! i) = UNUSED) [0..<length (ptable s)] of
       None \<Rightarrow> do { s \<leftarrow> k_release Ptable_lock s; Some (None, s) }
     | Some i \<Rightarrow> do {
         let s = upd_proc i (\<lambda>p. p\<lparr>p_state := EMBRYO, p_pid := nextpid s\<rparr>) s;
         let s = s\<lparr>nextpid := nextpid s + 1\<rparr>;
         s \<leftarrow> k_release Ptable_lock s;
         (ks, s) \<leftarrow> kalloc s;
         let s = upd_proc i (\<lambda>p. p\<lparr>p_kstack := ks\<rparr>) s;
         if ks = 0 then Some (None, upd_proc i (\<lambda>p. p\<lparr>p_state := UNUSED\<rparr>) s)
         else
           let sp = ks + KSTACKSIZE;
               sp = sp - sizeof_trapframe;
               s = upd_proc i (\<lambda>p. p\<lparr>p_tf := sp\<rparr>) s;
               sp = sp - 8;
               s = s\<lparr>mem := st64 (mem s) sp (trapret_addr s)\<rparr>;
               sp = sp - sizeof_context;
               s = upd_proc i (\<lambda>p. p\<lparr>p_context := sp\<rparr>) s;
               s = s\<lparr>mem := memset (mem s) sp 0 sizeof_context\<rparr>;
               s = s\<lparr>mem := st64 (mem s) (sp + 48) (forkret_addr s)\<rparr>
           in Some (Some i, s)
       }
   }"

text \<open>
  \<open>userinit\<close> up to \<open>namei\<close>, whose result is the argument \<open>root\<close>; \<open>initcode\<close> and \<open>initsize\<close> are the
  linker's symbols for the embedded first program. \<open>FL_IF\<close> is \<open>0x200\<close>.
\<close>

definition userinit ::
    "addr \<Rightarrow> u32 \<Rightarrow> nat option \<Rightarrow> 'z pstate_scheme \<Rightarrow> 'z pstate_scheme option" where
  "userinit initcode initsize root s = do {
     (p, s) \<leftarrow> allocproc s;
     case p of None \<Rightarrow> None
     | Some i \<Rightarrow> do {
         let s = s\<lparr>initproc := Some i\<rparr>;
         (pd, s) \<leftarrow> setupkvm s;
         let s = upd_proc i (\<lambda>p. p\<lparr>p_pgdir := pd\<rparr>) s;
         if pd = 0 then None
         else do {
           s \<leftarrow> inituvm pd initcode initsize s;
           let s = upd_proc i (\<lambda>p. p\<lparr>p_sz := PGSIZE * 2\<rparr>) s;
           let tf = p_tf (ptable s ! i);
           let m = memset (mem s) tf 0 sizeof_trapframe;
           let m = st64 m (tf + tf_r11) 0x200;
           let m = st64 m (tf + tf_rsp) (p_sz (ptable s ! i));
           let m = st64 m (tf + tf_rcx) PGSIZE;
           let s = s\<lparr>mem := m\<rparr>;
           let s = upd_proc i (\<lambda>p. p\<lparr>p_name := map (of_nat \<circ> of_char) ''initcode''\<rparr>) s;
           let s = upd_proc i (\<lambda>p. p\<lparr>p_cwd := root\<rparr>) s;
           Some (upd_proc i (\<lambda>p. p\<lparr>p_state := RUNNABLE\<rparr>) s)
         }
       }
   }"

definition growproc :: "u64 \<Rightarrow> 'z pstate_scheme \<Rightarrow> (int \<times> 'z pstate_scheme) option" where
  "growproc n s = (case curproc s of None \<Rightarrow> None | Some me \<Rightarrow>
     let sz = p_sz (ptable s ! me); pd = p_pgdir (ptable s ! me) in
     do {
       (sz, s) \<leftarrow> (if sint n > 0 then allocuvm pd sz (sz + n) s
                   else if sint n < 0 then deallocuvm pd sz (sz + n) s
                   else Some (sz, s));
       if sint n \<noteq> 0 \<and> sz = 0 then Some (-1, s)
       else do {
         let s = upd_proc me (\<lambda>p. p\<lparr>p_sz := sz\<rparr>) s;
         s \<leftarrow> switchuvm (cpu_local s) (p_pgdir (ptable s ! me)) (p_kstack (ptable s ! me)) s;
         Some (0, s)
       }
     })"

section \<open>Context switches\<close>

text \<open>
  \<open>sched\<close> up to \<open>swtch\<close>: its four checks, and the value of \<open>intena\<close> it keeps on the stack of the
  process; and what it does when the process runs again.
\<close>

definition sched_out :: "'z pstate_scheme \<Rightarrow> (bool \<times> 'z pstate_scheme) option" where
  "sched_out s = (case curproc s of None \<Rightarrow> None | Some me \<Rightarrow>
     if \<not> holding (cpuid s) (locks s Ptable_lock) then None
     else if ncli (cpu_st s) \<noteq> 1 then None
     else if p_state (ptable s ! me) = RUNNING then None
     else if iflag (cpu_st s) then None
     else Some (intena (cpu_st s), s))"

definition sched_in :: "bool \<Rightarrow> 'z pstate_scheme \<Rightarrow> 'z pstate_scheme" where
  "sched_in ie s = s\<lparr>cpu_st := (cpu_st s)\<lparr>intena := ie\<rparr>\<rparr>"

text \<open>One turn of the scheduler's inner loop: up to the switch to process \<open>i\<close>, and back.\<close>

definition scheduler_run :: "nat \<Rightarrow> 'z pstate_scheme \<Rightarrow> 'z pstate_scheme option" where
  "scheduler_run i s =
     (if p_state (ptable s ! i) \<noteq> RUNNABLE then None
      else do {
        let s = s\<lparr>curproc := Some i\<rparr>;
        s \<leftarrow> switchuvm (cpu_local s) (p_pgdir (ptable s ! i)) (p_kstack (ptable s ! i)) s;
        Some (upd_proc i (\<lambda>p. p\<lparr>p_state := RUNNING\<rparr>) s)
      })"

definition scheduler_back :: "'z pstate_scheme \<Rightarrow> 'z pstate_scheme" where
  "scheduler_back s = (let s = switchkvm s in s\<lparr>curproc := None\<rparr>)"

text \<open>
  One pass of \<open>scheduler\<close> over the table: \<open>run\<close> is what the chosen process does until it switches
  back. \<open>skipped\<close> counts the processes passed over since the last one that ran.
\<close>

fun scheduler_scan ::
    "('z pstate_scheme \<Rightarrow> 'z pstate_scheme option) \<Rightarrow> nat list \<Rightarrow> nat \<Rightarrow> 'z pstate_scheme
       \<Rightarrow> (nat \<times> 'z pstate_scheme) option" where
  "scheduler_scan run [] skipped s = Some (skipped, s)"
| "scheduler_scan run (i # ix) skipped s =
     (if p_state (ptable s ! i) \<noteq> RUNNABLE then scheduler_scan run ix (skipped + 1) s
      else do {
        s \<leftarrow> scheduler_run i s;
        s \<leftarrow> run s;
        scheduler_scan run ix 0 (scheduler_back s)
      })"

definition scheduler_pass ::
    "('z pstate_scheme \<Rightarrow> 'z pstate_scheme option) \<Rightarrow> nat \<Rightarrow> 'z pstate_scheme
       \<Rightarrow> (nat \<times> 'z pstate_scheme) option" where
  "scheduler_pass run skipped s = do {
     let s = s\<lparr>cpu_st := (cpu_st s)\<lparr>iflag := True\<rparr>\<rparr>;
     s \<leftarrow> k_acquire Ptable_lock s;
     (skipped, s) \<leftarrow> scheduler_scan run [0..<length (ptable s)] skipped s;
     s \<leftarrow> k_release Ptable_lock s;
     Some (if skipped > NPROC then 0 else skipped, s)
   }"

definition yield_out :: "'z pstate_scheme \<Rightarrow> (bool \<times> 'z pstate_scheme) option" where
  "yield_out s = (case curproc s of None \<Rightarrow> None | Some me \<Rightarrow> do {
     s \<leftarrow> k_acquire Ptable_lock s;
     let s = upd_proc me (\<lambda>p. p\<lparr>p_state := RUNNABLE\<rparr>) s;
     sched_out s
   })"

definition yield_in :: "bool \<Rightarrow> 'z pstate_scheme \<Rightarrow> 'z pstate_scheme option" where
  "yield_in ie s = k_release Ptable_lock (sched_in ie s)"

section \<open>Sleep, wakeup, kill\<close>

definition sleep_out ::
    "chan \<Rightarrow> lockname \<Rightarrow> 'z pstate_scheme \<Rightarrow> (bool \<times> 'z pstate_scheme) option" where
  "sleep_out ch lk s = (case curproc s of None \<Rightarrow> None | Some me \<Rightarrow> do {
     s \<leftarrow> (if lk \<noteq> Ptable_lock then do { s \<leftarrow> k_acquire Ptable_lock s; k_release lk s } else Some s);
     let s = upd_proc me (\<lambda>p. p\<lparr>p_chan := ch\<rparr>) s;
     let s = upd_proc me (\<lambda>p. p\<lparr>p_state := SLEEPING\<rparr>) s;
     sched_out s
   })"

definition sleep_in :: "lockname \<Rightarrow> bool \<Rightarrow> 'z pstate_scheme \<Rightarrow> 'z pstate_scheme option" where
  "sleep_in lk ie s = (case curproc s of None \<Rightarrow> None | Some me \<Rightarrow> do {
     let s = sched_in ie s;
     let s = upd_proc me (\<lambda>p. p\<lparr>p_chan := Nochan\<rparr>) s;
     if lk \<noteq> Ptable_lock then do { s \<leftarrow> k_release Ptable_lock s; k_acquire lk s } else Some s
   })"

definition wakeup1 :: "chan \<Rightarrow> 'z pstate_scheme \<Rightarrow> 'z pstate_scheme" where
  "wakeup1 ch s = s\<lparr>ptable := map (\<lambda>p. if p_state p = SLEEPING \<and> p_chan p = ch
     then p\<lparr>p_state := RUNNABLE\<rparr> else p) (ptable s)\<rparr>"

definition wakeup :: "chan \<Rightarrow> 'z pstate_scheme \<Rightarrow> 'z pstate_scheme option" where
  "wakeup ch s = do {
     s \<leftarrow> k_acquire Ptable_lock s;
     k_release Ptable_lock (wakeup1 ch s)
   }"

definition kill :: "u32 \<Rightarrow> 'z pstate_scheme \<Rightarrow> (int \<times> 'z pstate_scheme) option" where
  "kill pid s = do {
     s \<leftarrow> k_acquire Ptable_lock s;
     case List.find (\<lambda>i. p_pid (ptable s ! i) = pid) [0..<length (ptable s)] of
       None \<Rightarrow> do { s \<leftarrow> k_release Ptable_lock s; Some (-1, s) }
     | Some i \<Rightarrow> do {
         let s = upd_proc i (\<lambda>p. p\<lparr>p_killed := True\<rparr>) s;
         let s = (if p_state (ptable s ! i) = SLEEPING
                  then upd_proc i (\<lambda>p. p\<lparr>p_state := RUNNABLE\<rparr>) s else s);
         s \<leftarrow> k_release Ptable_lock s;
         Some (0, s)
       }
   }"

section \<open>Exit and wait\<close>

text \<open>
  \<open>exit\<close> from the acquisition of the table lock on (its first half closes files): wake the
  parent, give the children to \<open>init\<close>, become a zombie and leave the CPU for good.
\<close>

fun reparent :: "nat \<Rightarrow> nat list \<Rightarrow> 'z pstate_scheme \<Rightarrow> 'z pstate_scheme" where
  "reparent me [] s = s"
| "reparent me (i # ix) s =
     (if p_parent (ptable s ! i) = Some me then
        let s = upd_proc i (\<lambda>p. p\<lparr>p_parent := initproc s\<rparr>) s;
            s = (if p_state (ptable s ! i) = ZOMBIE
                 then wakeup1 (case initproc s of None \<Rightarrow> Nochan | Some j \<Rightarrow> Ch_proc j) s else s)
        in reparent me ix s
      else reparent me ix s)"

definition exit_zombie :: "'z pstate_scheme \<Rightarrow> (bool \<times> 'z pstate_scheme) option" where
  "exit_zombie s = (case curproc s of None \<Rightarrow> None | Some me \<Rightarrow> do {
     s \<leftarrow> k_acquire Ptable_lock s;
     let s = wakeup1 (case p_parent (ptable s ! me) of None \<Rightarrow> Nochan | Some j \<Rightarrow> Ch_proc j) s;
     let s = reparent me [0..<length (ptable s)] s;
     let s = upd_proc me (\<lambda>p. p\<lparr>p_state := ZOMBIE\<rparr>) s;
     sched_out s
   })"

text \<open>The scan of \<open>wait\<close>: the first zombie child, if any, and whether there is a child at all.\<close>

fun wait_scan :: "nat \<Rightarrow> proc list \<Rightarrow> nat list \<Rightarrow> bool \<Rightarrow> nat option \<times> bool" where
  "wait_scan me pt [] havekids = (None, havekids)"
| "wait_scan me pt (i # ix) havekids =
     (if p_parent (pt ! i) \<noteq> Some me then wait_scan me pt ix havekids
      else if p_state (pt ! i) = ZOMBIE then (Some i, True)
      else wait_scan me pt ix True)"

definition reap :: "nat \<Rightarrow> 'z pstate_scheme \<Rightarrow> 'z pstate_scheme option" where
  "reap i s = do {
     s \<leftarrow> kfree (p_kstack (ptable s ! i)) s;
     let s = upd_proc i (\<lambda>p. p\<lparr>p_kstack := 0\<rparr>) s;
     s \<leftarrow> freevm (p_pgdir (ptable s ! i)) s;
     Some (upd_proc i (\<lambda>p. p\<lparr>p_pid := 0, p_parent := None, p_name := [],
       p_killed := False, p_state := UNUSED\<rparr>) s)
   }"

text \<open>One turn of the endless loop of \<open>wait\<close>, with the table lock held.\<close>

definition wait_turn :: "'z pstate_scheme \<Rightarrow> (u32 outcome \<times> 'z pstate_scheme) option" where
  "wait_turn s = (case curproc s of None \<Rightarrow> None | Some me \<Rightarrow>
     case wait_scan me (ptable s) [0..<length (ptable s)] False of
       (Some i, _) \<Rightarrow> do {
         let pid = p_pid (ptable s ! i);
         s \<leftarrow> reap i s;
         s \<leftarrow> k_release Ptable_lock s;
         Some (Ret pid, s)
       }
     | (None, havekids) \<Rightarrow>
         if \<not> havekids \<or> p_killed (ptable s ! me) then do {
           s \<leftarrow> k_release Ptable_lock s;
           Some (Ret (-1), s)
         }
         else do { (ie, s) \<leftarrow> sleep_out (Ch_proc me) Ptable_lock s; Some (Asleep, s) })"

definition wait :: "'z pstate_scheme \<Rightarrow> (u32 outcome \<times> 'z pstate_scheme) option" where
  "wait s = do { s \<leftarrow> k_acquire Ptable_lock s; wait_turn s }"

section \<open>Sample states\<close>

definition unused_proc :: proc where
  "unused_proc = \<lparr>p_sz = 0, p_pgdir = 0, p_kstack = 0, p_state = UNUSED, p_pid = 0, p_parent = None, p_tf = 0,
     p_context = 0, p_chan = Nochan, p_killed = False, p_ofile = [], p_cwd = None, p_name = []\<rparr>"

definition sample_pstate :: "proc list \<Rightarrow> nat option \<Rightarrow> pstate" where
  "sample_pstate ps me = \<lparr>cpuid = 0, cpu_st = \<lparr>ncli = 0, intena = True, iflag = True\<rparr>, locks = (\<lambda>_. free_lock),
     klog = [], mem = (\<lambda>_. 0), freelist = 0, use_lock = True, kend = KERNBASE + 0x200000,
     kpml4 = 0, kpdpt = 0, cr3 = 0, ptable = ps, initproc = None, nextpid = 1, curproc = me, cpu_local = 0,
     forkret_addr = 0, trapret_addr = 0\<rparr>"

lemma sample_settled: "settled (cpu_st (sample_pstate ps me))"
  by (simp add: sample_pstate_def settled_def)

end
