(* ===== verification/Syscall.thy ===== *)
theory Syscall
  imports Proc
begin

text \<open>
  Fetching system-call arguments (\<^verbatim>\<open>syscall.c\<close>) and the process system calls of \<^verbatim>\<open>sysproc.c\<close>.

  The kernel reads user memory at its user address, through the page table that is in force;
  \<open>user_byte\<close> is that access (\<open>None\<close>: no page is mapped there). The C functions return -1 for an
  error and store through a pointer otherwise; here the result is an \<open>option\<close> for the value.
\<close>

section \<open>Reading the memory of the current process\<close>

definition user_byte :: "memory \<Rightarrow> addr \<Rightarrow> addr \<Rightarrow> byte option" where
  "user_byte m pgdir va = (case mapped m pgdir va of None \<Rightarrow> None
     | Some e \<Rightarrow> Some (m (P2V (PTE_ADDR e) + (va - PGROUNDDOWN va))))"

fun user_bytes :: "memory \<Rightarrow> addr \<Rightarrow> addr \<Rightarrow> nat \<Rightarrow> byte list option" where
  "user_bytes m pgdir va 0 = Some []"
| "user_bytes m pgdir va (Suc n) =
     do { b \<leftarrow> user_byte m pgdir va; bs \<leftarrow> user_bytes m pgdir (va + 1) n; Some (b # bs) }"

text \<open>
  \<open>fetchint\<close> and \<open>fetchaddr\<close> for a process of size \<open>sz\<close>: \<open>None\<close> is a fault, \<open>Some None\<close> is -1.
\<close>

definition fetchint :: "memory \<Rightarrow> addr \<Rightarrow> u64 \<Rightarrow> addr \<Rightarrow> u32 option option" where
  "fetchint m pgdir sz a =
     (if a < PGSIZE \<or> a \<ge> sz \<or> a + 4 > sz then Some None
      else do { bs \<leftarrow> user_bytes m pgdir a 4; Some (Some (from_le bs)) })"

definition fetchaddr :: "memory \<Rightarrow> addr \<Rightarrow> u64 \<Rightarrow> addr \<Rightarrow> u64 option option" where
  "fetchaddr m pgdir sz a =
     (if a < PGSIZE \<or> a \<ge> sz \<or> a + 8 > sz then Some None
      else do { bs \<leftarrow> user_bytes m pgdir a 8; Some (Some (from_le bs)) })"

text \<open>The scan of \<open>fetchstr\<close> for the terminating NUL; the result is the length of the string.\<close>

function fetchstr_loop :: "memory \<Rightarrow> addr \<Rightarrow> addr \<Rightarrow> addr \<Rightarrow> nat \<Rightarrow> nat option option" where
  "fetchstr_loop m pgdir ep s n =
     (if s < ep then
        case user_byte m pgdir s of None \<Rightarrow> None
        | Some b \<Rightarrow> if b = 0 then Some (Some n) else fetchstr_loop m pgdir ep (s + 1) (Suc n)
      else Some None)"
  by pat_completeness auto

lemma succ_below: "(s :: u64) < ep \<Longrightarrow> unat (s + 1) = Suc (unat s)"
proof -
  assume "s < ep"
  then have "unat s + unat (1 :: u64) < 2 ^ 64" using unat_lt64 [of ep] by (simp add: word_less_nat_alt)
  then have "unat (s + 1) = unat s + unat (1 :: u64)" by (rule unat_sum_no_wrap)
  then show ?thesis by simp
qed

termination fetchstr_loop
proof (relation "measure (\<lambda>(m, pgdir, ep, s, n). unat ep - unat s)", goal_cases)
  case (2 m pgdir ep s n b)
  then show ?case using succ_below [of s ep] by (simp add: word_less_nat_alt)
qed simp

declare fetchstr_loop.simps [simp del]

definition fetchstr :: "memory \<Rightarrow> addr \<Rightarrow> u64 \<Rightarrow> addr \<Rightarrow> nat option option" where
  "fetchstr m pgdir sz a =
     (if a < PGSIZE \<or> a \<ge> sz then Some None else fetchstr_loop m pgdir sz a 0)"

section \<open>Arguments\<close>

text \<open>The saved register that holds argument \<open>n\<close>, for the trap frame at \<open>tf\<close>.\<close>

definition fetcharg :: "memory \<Rightarrow> addr \<Rightarrow> nat \<Rightarrow> u64 option" where
  "fetcharg m tf n =
     (if n = 0 then Some (ld64 m (tf + tf_rdi))
      else if n = 1 then Some (ld64 m (tf + tf_rsi))
      else if n = 2 then Some (ld64 m (tf + tf_rdx))
      else if n = 3 then Some (ld64 m (tf + tf_r10))
      else if n = 4 then Some (ld64 m (tf + tf_r8))
      else if n = 5 then Some (ld64 m (tf + tf_r9))
      else None)"

definition cur_tf :: "'z pstate_scheme \<Rightarrow> addr option" where
  "cur_tf s = map_option (\<lambda>i. p_tf (ptable s ! i)) (curproc s)"

definition argint :: "nat \<Rightarrow> 'z pstate_scheme \<Rightarrow> u32 option" where
  "argint n s = do { tf \<leftarrow> cur_tf s; a \<leftarrow> fetcharg (mem s) tf n; Some (ucast a) }"

definition argaddr :: "nat \<Rightarrow> 'z pstate_scheme \<Rightarrow> u64 option" where
  "argaddr n s = do { tf \<leftarrow> cur_tf s; fetcharg (mem s) tf n }"

text \<open>
  \<open>argptr\<close>: the bounds are checked on the low 32 bits of the argument, and \<open>(uint)i + size\<close> is
  32-bit arithmetic; the pointer stored is the full 64-bit argument.
\<close>

definition argptr :: "nat \<Rightarrow> u32 \<Rightarrow> 'z pstate_scheme \<Rightarrow> addr option option" where
  "argptr n sz s = do {
     a \<leftarrow> argaddr n s;
     me \<leftarrow> curproc s;
     let psz = p_sz (ptable s ! me);
     let i = (ucast a :: u32);
     if sint sz < 0 \<or> ucast i \<ge> psz \<or> ucast (i + sz) > psz then Some None
     else Some (Some a)
   }"

text \<open>\<open>argstr\<close> passes the argument through an \<open>int\<close>, so the address is sign-extended from 32 bits.\<close>

definition argstr :: "nat \<Rightarrow> 'z pstate_scheme \<Rightarrow> (addr \<times> nat) option option" where
  "argstr n s = do {
     i \<leftarrow> argint n s;
     me \<leftarrow> curproc s;
     let a = (scast i :: u64);
     r \<leftarrow> fetchstr (mem s) (p_pgdir (ptable s ! me)) (p_sz (ptable s ! me)) a;
     Some (map_option (\<lambda>n. (a, n)) r)
   }"

section \<open>Process system calls\<close>

definition sys_wait :: "'z pstate_scheme \<Rightarrow> (u32 outcome \<times> 'z pstate_scheme) option" where
  "sys_wait s = wait s"

definition sys_kill :: "'z pstate_scheme \<Rightarrow> (int \<times> 'z pstate_scheme) option" where
  "sys_kill s = do { pid \<leftarrow> argint 0 s; kill pid s }"

definition sys_getpid :: "'z pstate_scheme \<Rightarrow> u32 option" where
  "sys_getpid s = map_option (\<lambda>me. p_pid (ptable s ! me)) (curproc s)"

definition sys_sbrk :: "'z pstate_scheme \<Rightarrow> (u64 \<times> 'z pstate_scheme) option" where
  "sys_sbrk s = do {
     n \<leftarrow> argaddr 0 s;
     me \<leftarrow> curproc s;
     let a = p_sz (ptable s ! me);
     (r, s) \<leftarrow> growproc n s;
     if r < 0 then Some (-1, s) else Some (a, s)
   }"

text \<open>
  One turn of the loop of \<open>sys_sleep\<close> with \<open>tickslock\<close> held, for the tick count \<open>ticks\<close>; the comparison
  is unsigned, as \<open>n\<close> is converted to \<open>uint\<close>.
\<close>

definition sys_sleep_turn ::
    "u32 \<Rightarrow> u32 \<Rightarrow> u32 \<Rightarrow> 'z pstate_scheme \<Rightarrow> (int outcome \<times> 'z pstate_scheme) option" where
  "sys_sleep_turn n ticks0 ticks s = (case curproc s of None \<Rightarrow> None | Some me \<Rightarrow>
     if ticks - ticks0 < n then
       if p_killed (ptable s ! me) then do { s \<leftarrow> k_release Ticks_lock s; Some (Ret (-1), s) }
       else do { (ie, s) \<leftarrow> sleep_out Ch_ticks Ticks_lock s; Some (Asleep, s) }
     else do { s \<leftarrow> k_release Ticks_lock s; Some (Ret 0, s) })"

definition sys_uptime :: "u32 \<Rightarrow> 'z pstate_scheme \<Rightarrow> (u32 \<times> 'z pstate_scheme) option" where
  "sys_uptime ticks s = do {
     s \<leftarrow> k_acquire Ticks_lock s;
     let xticks = ticks;
     s \<leftarrow> k_release Ticks_lock s;
     Some (xticks, s)
   }"

section \<open>Dispatch\<close>

text \<open>
  \<open>syscall\<close> for a table of handlers: \<open>None\<close> in the table is a null entry. A handler that falls
  asleep leaves the saved \<open>rax\<close> alone; the flag of the result says that the process must exit. The log keeps the numbers that
  a message prints, not its strings, so the name of the process is not in the message about an unknown call.
\<close>

definition syscall ::
    "(u64 \<Rightarrow> ('z pstate_scheme \<Rightarrow> (u64 outcome \<times> 'z pstate_scheme) option) option) \<Rightarrow> addr
       \<Rightarrow> 'z pstate_scheme \<Rightarrow> (bool outcome \<times> 'z pstate_scheme) option" where
  "syscall syscalls tf s = (case curproc s of None \<Rightarrow> None | Some me \<Rightarrow> do {
     let s = upd_proc me (\<lambda>p. p\<lparr>p_tf := tf\<rparr>) s;
     let num = ld64 (mem s) (tf + tf_rax);
     (r, s) \<leftarrow> (case (if num > 0 \<and> num < 26 then syscalls num else None) of
         Some h \<Rightarrow> h s
       | None \<Rightarrow> Some (Ret (-1), cprintf ''%d %s: unknown sys call %d'' [ucast (p_pid (ptable s ! me)), num] s));
     case r of
       Asleep \<Rightarrow> Some (Asleep, s)
     | Ret v \<Rightarrow>
         let s = s\<lparr>mem := st64 (mem s) (tf + tf_rax) v\<rparr> in
         Some (Ret (p_killed (ptable s ! me)), s)
   })"

end
