(* ===== verification/E1000.thy ===== *)
theory E1000
  imports Syscall
begin

text \<open>
  The network card driver, transmit side and set-up (\<^verbatim>\<open>e1000.c\<close>, \<^verbatim>\<open>e1000_dev.h\<close>); the receive side
  calls up into the network stack and is in a later theory.

  The descriptor rings are lists of records with the fields of the C structs; \<open>regs\<close> is the
  register window, read and written as 32-bit words. The device itself is not code of the kernel:
  it is the step relation \<open>nic_step\<close> of that later theory, which sets the done bits and writes
  received frames.
\<close>

section \<open>Registers and descriptors\<close>

text \<open>Register numbers: the macros divide the byte offset by four.\<close>

definition E1000_CTL :: nat where "E1000_CTL = 0x00000 div 4"
definition E1000_STATUS :: nat where "E1000_STATUS = 0x00008 div 4"
definition E1000_ICR :: nat where "E1000_ICR = 0x000C0 div 4"
definition E1000_IMS :: nat where "E1000_IMS = 0x000D0 div 4"
definition E1000_RCTL :: nat where "E1000_RCTL = 0x00100 div 4"
definition E1000_TCTL :: nat where "E1000_TCTL = 0x00400 div 4"
definition E1000_TIPG :: nat where "E1000_TIPG = 0x00410 div 4"
definition E1000_RDBAL :: nat where "E1000_RDBAL = 0x02800 div 4"
definition E1000_RDBAH :: nat where "E1000_RDBAH = 0x02804 div 4"
definition E1000_RDLEN :: nat where "E1000_RDLEN = 0x02808 div 4"
definition E1000_RDH :: nat where "E1000_RDH = 0x02810 div 4"
definition E1000_RDT :: nat where "E1000_RDT = 0x02818 div 4"
definition E1000_RDTR :: nat where "E1000_RDTR = 0x02820 div 4"
definition E1000_RADV :: nat where "E1000_RADV = 0x0282C div 4"
definition E1000_TDBAL :: nat where "E1000_TDBAL = 0x03800 div 4"
definition E1000_TDBAH :: nat where "E1000_TDBAH = 0x03804 div 4"
definition E1000_TDLEN :: nat where "E1000_TDLEN = 0x03808 div 4"
definition E1000_TDH :: nat where "E1000_TDH = 0x03810 div 4"
definition E1000_TDT :: nat where "E1000_TDT = 0x03818 div 4"
definition E1000_MTA :: nat where "E1000_MTA = 0x05200 div 4"
definition E1000_RA :: nat where "E1000_RA = 0x05400 div 4"

lemmas e1000_regs =
  E1000_CTL_def E1000_STATUS_def E1000_ICR_def E1000_IMS_def E1000_RCTL_def E1000_TCTL_def
  E1000_TIPG_def E1000_RDBAL_def E1000_RDBAH_def E1000_RDLEN_def E1000_RDH_def E1000_RDT_def
  E1000_RDTR_def E1000_RADV_def E1000_TDBAL_def E1000_TDBAH_def E1000_TDLEN_def E1000_TDH_def
  E1000_TDT_def E1000_MTA_def E1000_RA_def

definition E1000_CTL_RST :: u32 where "E1000_CTL_RST = 0x04000000"
definition E1000_TCTL_EN :: u32 where "E1000_TCTL_EN = 0x00000002"
definition E1000_TCTL_PSP :: u32 where "E1000_TCTL_PSP = 0x00000008"
definition E1000_RCTL_EN :: u32 where "E1000_RCTL_EN = 0x00000002"
definition E1000_RCTL_BAM :: u32 where "E1000_RCTL_BAM = 0x00008000"
definition E1000_RCTL_SZ_2048 :: u32 where "E1000_RCTL_SZ_2048 = 0"
definition E1000_RCTL_SECRC :: u32 where "E1000_RCTL_SECRC = 0x04000000"
definition E1000_TXD_CMD_EOP :: byte where "E1000_TXD_CMD_EOP = 0x01"
definition E1000_TXD_CMD_RS :: byte where "E1000_TXD_CMD_RS = 0x08"
definition E1000_TXD_STAT_DD :: byte where "E1000_TXD_STAT_DD = 0x01"
definition E1000_RXD_STAT_DD :: byte where "E1000_RXD_STAT_DD = 0x01"
definition E1000_RXD_STAT_EOP :: byte where "E1000_RXD_STAT_EOP = 0x02"

definition TX_RING_SIZE :: nat where "TX_RING_SIZE = 16"
definition RX_RING_SIZE :: nat where "RX_RING_SIZE = 16"

record tx_desc =
  tx_addr :: u64
  tx_length :: u16
  tx_cso :: byte
  tx_cmd :: byte
  tx_status :: byte
  tx_css :: byte
  tx_special :: u16

record rx_desc =
  rx_addr :: u64
  rx_length :: u16
  rx_csum :: u16
  rx_status :: byte
  rx_errors :: byte
  rx_special :: u16

definition zero_tx_desc :: tx_desc where
  "zero_tx_desc = \<lparr>tx_addr = 0, tx_length = 0, tx_cso = 0, tx_cmd = 0, tx_status = 0, tx_css = 0,
     tx_special = 0\<rparr>"

definition zero_rx_desc :: rx_desc where
  "zero_rx_desc = \<lparr>rx_addr = 0, rx_length = 0, rx_csum = 0, rx_status = 0, rx_errors = 0,
     rx_special = 0\<rparr>"

text \<open>The driver's static data; \<open>tx_ring_va\<close> and \<open>rx_ring_va\<close> are the addresses of the two arrays.\<close>

record e1000 = pstate +
  regs_base :: addr
  regs :: "nat \<Rightarrow> u32"
  tx_ring :: "tx_desc list"
  rx_ring :: "rx_desc list"
  tx_bufs :: "addr list"
  rx_bufs :: "addr list"
  tx_ring_va :: addr
  rx_ring_va :: addr

definition set_reg :: "nat \<Rightarrow> u32 \<Rightarrow> 'z e1000_scheme \<Rightarrow> 'z e1000_scheme" where
  "set_reg r v s = s\<lparr>regs := (regs s)(r := v)\<rparr>"

section \<open>Initialisation\<close>

text \<open>The loop that gives the card a page for each receive descriptor.\<close>

fun rx_fill :: "nat list \<Rightarrow> 'z e1000_scheme \<Rightarrow> 'z e1000_scheme option" where
  "rx_fill [] s = Some s"
| "rx_fill (i # ix) s = do {
     (buf, s) \<leftarrow> kalloc s;
     if buf = 0 then None
     else
       let s = s\<lparr>rx_bufs := (rx_bufs s)[i := buf]\<rparr>;
           s = s\<lparr>rx_ring := (rx_ring s)[i := (rx_ring s ! i)\<lparr>rx_addr := V2P buf\<rparr>]\<rparr>;
           s = s\<lparr>rx_ring := (rx_ring s)[i := (rx_ring s ! i)\<lparr>rx_status := 0\<rparr>]\<rparr>
       in rx_fill ix s
   }"

definition e1000_reset :: "'z e1000_scheme \<Rightarrow> 'z e1000_scheme" where
  "e1000_reset s =
     (let s = set_reg E1000_IMS 0 s;
          s = set_reg E1000_CTL (regs s E1000_CTL OR E1000_CTL_RST) s
      in set_reg E1000_IMS 0 s)"

definition e1000_tx_setup :: "'z e1000_scheme \<Rightarrow> 'z e1000_scheme" where
  "e1000_tx_setup s =
     (let s = s\<lparr>tx_ring := replicate TX_RING_SIZE zero_tx_desc\<rparr>;
          s = s\<lparr>tx_ring := map (\<lambda>d. d\<lparr>tx_status := E1000_TXD_STAT_DD, tx_addr := 0\<rparr>) (tx_ring s),
                tx_bufs := replicate TX_RING_SIZE 0\<rparr>;
          tx_pa = V2P (tx_ring_va s);
          s = set_reg E1000_TDBAL (ucast tx_pa) s;
          s = set_reg E1000_TDBAH (ucast (drop_bit 32 tx_pa)) s;
          s = set_reg E1000_TDLEN (of_nat (16 * TX_RING_SIZE)) s;
          s = set_reg E1000_TDT 0 s
      in set_reg E1000_TDH 0 s)"

definition e1000_rx_setup :: "'z e1000_scheme \<Rightarrow> 'z e1000_scheme option" where
  "e1000_rx_setup s = do {
     let s = s\<lparr>rx_ring := replicate RX_RING_SIZE zero_rx_desc\<rparr>;
     s \<leftarrow> rx_fill [0..<RX_RING_SIZE] s;
     let rx_pa = V2P (rx_ring_va s);
     let s = set_reg E1000_RDBAL (ucast rx_pa) s;
     let s = set_reg E1000_RDBAH (ucast (drop_bit 32 rx_pa)) s;
     let s = set_reg E1000_RDLEN (of_nat (16 * RX_RING_SIZE)) s;
     let s = set_reg E1000_RDH 0 s;
     Some (set_reg E1000_RDT (of_nat (RX_RING_SIZE - 1)) s)
   }"

definition e1000_enable :: "'z e1000_scheme \<Rightarrow> 'z e1000_scheme" where
  "e1000_enable s =
     (let s = set_reg E1000_RA 0x12005452 s;
          s = set_reg (E1000_RA + 1) (0x5634 OR push_bit 31 1) s;
          s = fold (\<lambda>i s. set_reg (E1000_MTA + i) 0 s) [0..<4096 div 32] s;
          s = set_reg E1000_TCTL (E1000_TCTL_EN OR E1000_TCTL_PSP OR push_bit 4 0x10 OR push_bit 12 0x40) s;
          s = set_reg E1000_TIPG (10 OR push_bit 10 8 OR push_bit 20 6) s;
          s = set_reg E1000_RCTL
                (E1000_RCTL_EN OR E1000_RCTL_BAM OR E1000_RCTL_SZ_2048 OR E1000_RCTL_SECRC) s;
          s = set_reg E1000_RDTR 0 s;
          s = set_reg E1000_RADV 0 s
      in set_reg E1000_IMS (push_bit 7 1) s)"

definition e1000_init :: "addr \<Rightarrow> 'z e1000_scheme \<Rightarrow> 'z e1000_scheme option" where
  "e1000_init xregs s = do {
     let s = cprintf ''e1000_init: ENTER xregs=%p'' [xregs] s;
     let s = s\<lparr>locks := (locks s)(E1000_lock := initlock (locks s E1000_lock))\<rparr>;
     let s = s\<lparr>regs_base := xregs\<rparr>;
     let s = e1000_reset s;
     let s = e1000_tx_setup s;
     s \<leftarrow> e1000_rx_setup s;
     let s = e1000_enable s;
     Some (cprintf ''e1000_init: STATUS=0x%x'' [ucast (regs s E1000_STATUS)] s)
   }"

section \<open>Transmit\<close>

text \<open>The index that the tail register selects: \<open>t_raw % TX_RING_SIZE\<close>.\<close>

definition tx_tail :: "'z e1000_scheme \<Rightarrow> nat" where
  "tx_tail s = unat (regs s E1000_TDT mod of_nat TX_RING_SIZE)"

definition e1000_transmit :: "addr \<Rightarrow> u32 \<Rightarrow> 'z e1000_scheme \<Rightarrow> (int \<times> 'z e1000_scheme) option" where
  "e1000_transmit buf len s = do {
     let s = k_pushcli s;
     s \<leftarrow> k_acquire E1000_lock s;
     let t = tx_tail s;
     if tx_status (tx_ring s ! t) AND E1000_TXD_STAT_DD = 0 then do {
       s \<leftarrow> k_release E1000_lock s;
       s \<leftarrow> k_popcli s;
       Some (-1, s)
     }
     else do {
       s \<leftarrow> (if tx_bufs s ! t \<noteq> 0 then kfree (tx_bufs s ! t) s else Some s);
       let d = (tx_ring s ! t)\<lparr>tx_addr := V2P buf, tx_length := ucast len,
                 tx_cmd := E1000_TXD_CMD_EOP OR E1000_TXD_CMD_RS, tx_status := 0\<rparr>;
       let s = s\<lparr>tx_ring := (tx_ring s)[t := d]\<rparr>;
       let s = s\<lparr>tx_bufs := (tx_bufs s)[t := buf]\<rparr>;
       let s = set_reg E1000_TDT (of_nat ((t + 1) mod TX_RING_SIZE)) s;
       s \<leftarrow> k_release E1000_lock s;
       s \<leftarrow> k_popcli s;
       Some (0, s)
     }
   }"

end
