(* ===== verification/Net.thy ===== *)
theory Net
  imports E1000
begin

text \<open>
  The network stack (\<^verbatim>\<open>net.c\<close>, \<^verbatim>\<open>net.h\<close>): byte order, headers, the Internet checksum, the UDP port
  queues, the system calls \<open>bind\<close>, \<open>send\<close> and \<open>recv\<close>, and the handlers of received frames.

  Frames, port queues and queued packets live in kernel pages and are read and written in the
  byte memory at the offsets of the C structs.
\<close>

section \<open>Byte order\<close>

definition bswaps :: "u16 \<Rightarrow> u16" where
  "bswaps v = push_bit 8 (v AND 0x00ff) OR drop_bit 8 (v AND 0xff00)"

definition bswapl :: "u32 \<Rightarrow> u32" where
  "bswapl v = push_bit 24 (v AND 0x000000ff) OR push_bit 8 (v AND 0x0000ff00) OR
     drop_bit 8 (v AND 0x00ff0000) OR drop_bit 24 (v AND 0xff000000)"

abbreviation ntohs :: "u16 \<Rightarrow> u16" where "ntohs \<equiv> bswaps"
abbreviation htons :: "u16 \<Rightarrow> u16" where "htons \<equiv> bswaps"
abbreviation ntohl :: "u32 \<Rightarrow> u32" where "ntohl \<equiv> bswapl"
abbreviation htonl :: "u32 \<Rightarrow> u32" where "htonl \<equiv> bswapl"

section \<open>Headers\<close>

text \<open>Sizes and field offsets of \<open>struct eth\<close>, \<open>struct ip\<close>, \<open>struct udp\<close> and \<open>struct arp\<close>.\<close>

definition sizeof_eth :: nat where "sizeof_eth = 14"
definition sizeof_ip :: nat where "sizeof_ip = 20"
definition sizeof_udp :: nat where "sizeof_udp = 8"
definition sizeof_arp :: nat where "sizeof_arp = 28"
definition ETHTYPE_IP :: u16 where "ETHTYPE_IP = 0x0800"
definition ETHTYPE_ARP :: u16 where "ETHTYPE_ARP = 0x0806"
definition IPPROTO_UDP :: byte where "IPPROTO_UDP = 17"
definition ARP_HRD_ETHER :: u16 where "ARP_HRD_ETHER = 1"
definition ARP_OP_REPLY :: u16 where "ARP_OP_REPLY = 2"

definition MAKE_IP_ADDR :: "u32 \<Rightarrow> u32 \<Rightarrow> u32 \<Rightarrow> u32 \<Rightarrow> u32" where
  "MAKE_IP_ADDR a b c d = push_bit 24 a OR push_bit 16 b OR push_bit 8 c OR d"

definition local_mac :: "byte list" where
  "local_mac = [0x52, 0x54, 0x00, 0x12, 0x34, 0x56]"

definition local_ip :: u32 where
  "local_ip = MAKE_IP_ADDR 10 0 2 15"

definition host_mac :: "byte list" where
  "host_mac = [0x52, 0x55, 0x0a, 0x00, 0x02, 0x02]"

text \<open>\<open>struct eth\<close>: \<open>dhost\<close> at 0, \<open>shost\<close> at 6, \<open>type\<close> at 12.\<close>

definition eth_shost :: "addr \<Rightarrow> addr" where "eth_shost e = e + 6"
definition eth_type :: "addr \<Rightarrow> addr" where "eth_type e = e + 12"

definition ip_vhl :: "addr \<Rightarrow> addr" where "ip_vhl p = p"
definition ip_tos :: "addr \<Rightarrow> addr" where "ip_tos p = p + 1"
definition ip_len :: "addr \<Rightarrow> addr" where "ip_len p = p + 2"
definition ip_id :: "addr \<Rightarrow> addr" where "ip_id p = p + 4"
definition ip_off :: "addr \<Rightarrow> addr" where "ip_off p = p + 6"
definition ip_ttl :: "addr \<Rightarrow> addr" where "ip_ttl p = p + 8"
definition ip_p :: "addr \<Rightarrow> addr" where "ip_p p = p + 9"
definition ip_sum :: "addr \<Rightarrow> addr" where "ip_sum p = p + 10"
definition ip_src :: "addr \<Rightarrow> addr" where "ip_src p = p + 12"
definition ip_dst :: "addr \<Rightarrow> addr" where "ip_dst p = p + 16"

definition udp_sport :: "addr \<Rightarrow> addr" where "udp_sport u = u"
definition udp_dport :: "addr \<Rightarrow> addr" where "udp_dport u = u + 2"
definition udp_ulen :: "addr \<Rightarrow> addr" where "udp_ulen u = u + 4"

definition arp_hrd :: "addr \<Rightarrow> addr" where "arp_hrd p = p"
definition arp_pro :: "addr \<Rightarrow> addr" where "arp_pro p = p + 2"
definition arp_hln :: "addr \<Rightarrow> addr" where "arp_hln p = p + 4"
definition arp_pln :: "addr \<Rightarrow> addr" where "arp_pln p = p + 5"
definition arp_op :: "addr \<Rightarrow> addr" where "arp_op p = p + 6"
definition arp_sha :: "addr \<Rightarrow> addr" where "arp_sha p = p + 8"
definition arp_sip :: "addr \<Rightarrow> addr" where "arp_sip p = p + 14"
definition arp_tha :: "addr \<Rightarrow> addr" where "arp_tha p = p + 18"
definition arp_tip :: "addr \<Rightarrow> addr" where "arp_tip p = p + 24"

lemmas hdr_offsets =
  eth_shost_def eth_type_def ip_vhl_def ip_tos_def ip_len_def ip_id_def ip_off_def ip_ttl_def
  ip_p_def ip_sum_def ip_src_def ip_dst_def udp_sport_def udp_dport_def udp_ulen_def arp_hrd_def
  arp_pro_def arp_hln_def arp_pln_def arp_op_def arp_sha_def arp_sip_def arp_tha_def arp_tip_def

section \<open>Port queues\<close>

text \<open>Offsets of \<open>struct udp_pkt\<close> and \<open>struct port_queue\<close>.\<close>

definition pkt_fullbuf :: "addr \<Rightarrow> addr" where "pkt_fullbuf p = p"
definition pkt_payload :: "addr \<Rightarrow> addr" where "pkt_payload p = p + 8"
definition pkt_payload_len :: "addr \<Rightarrow> addr" where "pkt_payload_len p = p + 16"
definition pkt_src_ip :: "addr \<Rightarrow> addr" where "pkt_src_ip p = p + 20"
definition pkt_src_port :: "addr \<Rightarrow> addr" where "pkt_src_port p = p + 24"
definition pkt_next :: "addr \<Rightarrow> addr" where "pkt_next p = p + 32"

definition pq_port :: "addr \<Rightarrow> addr" where "pq_port q = q"
definition pq_head :: "addr \<Rightarrow> addr" where "pq_head q = q + 8"
definition pq_tail :: "addr \<Rightarrow> addr" where "pq_tail q = q + 16"
definition pq_count :: "addr \<Rightarrow> addr" where "pq_count q = q + 24"
definition pq_next :: "addr \<Rightarrow> addr" where "pq_next q = q + 32"

lemmas queue_offsets =
  pkt_fullbuf_def pkt_payload_def pkt_payload_len_def pkt_src_ip_def pkt_src_port_def pkt_next_def
  pq_port_def pq_head_def pq_tail_def pq_count_def pq_next_def

definition MAX_QUEUED_PER_PORT :: int where
  "MAX_QUEUED_PER_PORT = 16"

text \<open>
  \<open>port_list\<close> heads the list of bound ports; \<open>seen_ip\<close> and \<open>seen_arp\<close> are the static flags of the
  two handlers; \<open>recv_locals\<close> is where the local variables \<open>src_ip\<close> and \<open>src_port\<close> of \<open>sys_recv\<close> lie on
  the kernel stack.
\<close>

record net = e1000 +
  port_list :: addr
  seen_ip :: bool
  seen_arp :: bool
  recv_locals :: addr

text \<open>The search runs for ever on a cyclic list.\<close>

partial_function (option) find_port_from :: "memory \<Rightarrow> addr \<Rightarrow> u16 \<Rightarrow> addr option" where
  "find_port_from m pq port =
     (if pq = 0 then Some 0
      else if ld16 m (pq_port pq) = port then Some pq
      else find_port_from m (ld64 m (pq_next pq)) port)"

definition find_port_queue :: "u16 \<Rightarrow> 'z net_scheme \<Rightarrow> addr option" where
  "find_port_queue port s = find_port_from (mem s) (port_list s) port"

definition netinit :: "'z net_scheme \<Rightarrow> 'z net_scheme" where
  "netinit s = s\<lparr>locks := (locks s)(Netlock := initlock (locks s Netlock))\<rparr>"

section \<open>bind\<close>

definition sys_bind :: "'z net_scheme \<Rightarrow> (u64 \<times> 'z net_scheme) option" where
  "sys_bind s = do {
     port \<leftarrow> argint 0 s;
     if sint port < 0 \<or> sint port > 0xFFFF then Some (-1, s)
     else do {
       s \<leftarrow> k_acquire Netlock s;
       q \<leftarrow> find_port_queue (ucast port) s;
       if q \<noteq> 0 then do { s \<leftarrow> k_release Netlock s; Some (-1, s) }
       else do {
         (pq, s) \<leftarrow> kalloc s;
         if pq = 0 then do { s \<leftarrow> k_release Netlock s; Some (-1, s) }
         else do {
           let m = memset (mem s) pq 0 PGSIZE;
           let m = st16 m (pq_port pq) (ucast port);
           let m = st64 m (pq_tail pq) 0;
           let m = st64 m (pq_head pq) 0;
           let m = st32 m (pq_count pq) 0;
           let m = st64 m (pq_next pq) (port_list s);
           let s = s\<lparr>mem := m, port_list := pq\<rparr>;
           s \<leftarrow> k_release Netlock s;
           Some (0, s)
         }
       }
     }
   }"

definition sys_unbind :: "'z net_scheme \<Rightarrow> (u64 \<times> 'z net_scheme) option" where
  "sys_unbind s = Some (0, s)"

section \<open>recv\<close>

record recv_args =
  ra_src :: u64
  ra_sport :: u64
  ra_buf :: u64
  ra_maxlen :: u32

text \<open>Drop the packet: \<open>kfree(pkt->fullbuf); kfree(pkt)\<close>.\<close>

definition free_pkt :: "addr \<Rightarrow> 'z net_scheme \<Rightarrow> 'z net_scheme option" where
  "free_pkt pkt s = do { s \<leftarrow> kfree (ld64 (mem s) (pkt_fullbuf pkt)) s; kfree pkt s }"

text \<open>How many bytes of the payload are copied.\<close>

definition tocpy :: "int \<Rightarrow> int \<Rightarrow> int" where
  "tocpy plen maxlen =
     (let t = plen;
          t = (if t > maxlen then maxlen else t);
          t = (if t < 0 then 0 else t)
      in if t > 1500 then 1500 else t)"

definition recv_copy ::
    "addr \<Rightarrow> addr \<Rightarrow> recv_args \<Rightarrow> 'z net_scheme \<Rightarrow> (u64 \<times> 'z net_scheme) option" where
  "recv_copy pgdir pkt a s = do {
     let s = s\<lparr>mem := st32 (mem s) (recv_locals s) (ld32 (mem s) (pkt_src_ip pkt))\<rparr>;
     let s = s\<lparr>mem := st16 (mem s) (recv_locals s + 4) (ld16 (mem s) (pkt_src_port pkt))\<rparr>;
     (r, s) \<leftarrow> copyout pgdir (ra_src a) (recv_locals s) 4 s;
     if r < 0 then do { s \<leftarrow> free_pkt pkt s; Some (-1, s) }
     else do {
       (r, s) \<leftarrow> copyout pgdir (ra_sport a) (recv_locals s + 4) 2 s;
       if r < 0 then do { s \<leftarrow> free_pkt pkt s; Some (-1, s) }
       else do {
         let n = tocpy (sint (ld32 (mem s) (pkt_payload_len pkt))) (sint (ra_maxlen a));
         (r, s) \<leftarrow> (if n > 0
            then copyout pgdir (ra_buf a) (ld64 (mem s) (pkt_payload pkt)) (of_int n) s
            else Some (0, s));
         s \<leftarrow> free_pkt pkt s;
         if r < 0 then Some (-1, s) else Some (of_int n, s)
       }
     }
   }"

text \<open>Unlink the first packet of the queue.\<close>

definition pop_pkt :: "memory \<Rightarrow> addr \<Rightarrow> addr \<times> memory" where
  "pop_pkt m pq =
     (let pkt = ld64 m (pq_head pq);
          m = st64 m (pq_head pq) (ld64 m (pkt_next pkt));
          m = (if ld64 m (pq_head pq) = 0 then st64 m (pq_tail pq) 0 else m);
          m = st32 m (pq_count pq) (ld32 m (pq_count pq) - 1)
      in (pkt, m))"

text \<open>
  The part of \<open>sys_recv\<close> that runs with \<open>netlock\<close> held and the queue found: one test of the loop
  condition, and either sleep or take a packet. After a sleep, \<open>recv_resume\<close> goes back to the test.
\<close>

definition recv_turn ::
    "addr \<Rightarrow> addr \<Rightarrow> recv_args \<Rightarrow> 'z net_scheme \<Rightarrow> (u64 outcome \<times> 'z net_scheme) option" where
  "recv_turn pgdir pq a s =
     (if ld32 (mem s) (pq_count pq) = 0 then do {
        (ie, s) \<leftarrow> sleep_out (Ch_addr pq) Netlock s;
        Some (Asleep, s)
      }
      else do {
        let (pkt, m) = pop_pkt (mem s) pq;
        let s = s\<lparr>mem := m\<rparr>;
        s \<leftarrow> k_release Netlock s;
        (r, s) \<leftarrow> recv_copy pgdir pkt a s;
        Some (Ret r, s)
      })"

definition recv_resume ::
    "bool \<Rightarrow> addr \<Rightarrow> addr \<Rightarrow> recv_args \<Rightarrow> 'z net_scheme \<Rightarrow> (u64 outcome \<times> 'z net_scheme) option" where
  "recv_resume ie pgdir pq a s = do { s \<leftarrow> sleep_in Netlock ie s; recv_turn pgdir pq a s }"

definition sys_recv :: "'z net_scheme \<Rightarrow> (u64 outcome \<times> 'z net_scheme) option" where
  "sys_recv s = do {
     me \<leftarrow> curproc s;
     let pgdir = p_pgdir (ptable s ! me);
     dport \<leftarrow> argint 0 s;
     src \<leftarrow> argaddr 1 s;
     sport \<leftarrow> argaddr 2 s;
     buf \<leftarrow> argaddr 3 s;
     maxlen \<leftarrow> argint 4 s;
     let a = \<lparr>ra_src = src, ra_sport = sport, ra_buf = buf, ra_maxlen = maxlen\<rparr>;
     s \<leftarrow> k_acquire Netlock s;
     pq \<leftarrow> find_port_queue (ucast dport) s;
     if pq = 0 then do { s \<leftarrow> k_release Netlock s; Some (Ret (-1), s) }
     else recv_turn pgdir pq a s
   }"

section \<open>send\<close>

text \<open>The 32-bit sum of the 16-bit words of \<open>n\<close> bytes, an odd last byte padded with zero.\<close>

fun cksum_add :: "memory \<Rightarrow> addr \<Rightarrow> nat \<Rightarrow> u32 \<Rightarrow> u32" where
  "cksum_add m a 0 acc = acc"
| "cksum_add m a (Suc 0) acc = acc + ucast (m a)"
| "cksum_add m a (Suc (Suc n)) acc = cksum_add m (a + 2) n (acc + ucast (ld16 m a))"

definition cksum_fold :: "u32 \<Rightarrow> u16" where
  "cksum_fold sm =
     (let sm = (sm AND 0xffff) + drop_bit 16 sm; sm = sm + drop_bit 16 sm in ucast (NOT sm))"

text \<open>The length is an \<open>int\<close> in the source; all callers pass a size.\<close>

definition in_cksum :: "memory \<Rightarrow> addr \<Rightarrow> nat \<Rightarrow> u16" where
  "in_cksum m a len = cksum_fold (cksum_add m a len 0)"

text \<open>\<open>copyin_user\<close>: \<open>n\<close> is a 32-bit \<open>uint\<close>, the length is 64 bits wide.\<close>

partial_function (option) copyin_user ::
    "addr \<Rightarrow> addr \<Rightarrow> addr \<Rightarrow> u64 \<Rightarrow> 'z kmem_scheme \<Rightarrow> (int \<times> 'z kmem_scheme) option" where
  "copyin_user pgdir dst srcva len s =
     (if len > 0 then do {
        (k, s) \<leftarrow> uva2ka pgdir srcva s;
        if k = 0 then Some (-1, s)
        else
          let off = (ucast (srcva AND (PGSIZE - 1)) :: u32);
              n = (ucast PGSIZE - off :: u32);
              n = (if ucast n > len then ucast len else n);
              s = s\<lparr>mem := memmove (mem s) dst (k + ucast off) n\<rparr>
          in copyin_user pgdir (dst + ucast n) (srcva + ucast n) (len - ucast n) s
      } else Some (0, s))"

text \<open>The headers that \<open>sys_send\<close> writes into the page at \<open>buf\<close>; \<open>len\<close> is the C \<open>int\<close>.\<close>

definition put_eth :: "addr \<Rightarrow> memory \<Rightarrow> memory" where
  "put_eth buf m =
     (let m = mwrite m buf host_mac;
          m = mwrite m (eth_shost buf) local_mac
      in st16 m (eth_type buf) (htons ETHTYPE_IP))"

definition put_ip :: "addr \<Rightarrow> u32 \<Rightarrow> u32 \<Rightarrow> memory \<Rightarrow> memory" where
  "put_ip ip dst len m =
     (let m = st8 m (ip_vhl ip) 0x45;
          m = st8 m (ip_tos ip) 0;
          m = st16 m (ip_len ip) (htons (ucast (of_nat (sizeof_ip + sizeof_udp) + len)));
          m = st16 m (ip_id ip) 0;
          m = st16 m (ip_off ip) 0;
          m = st8 m (ip_ttl ip) 100;
          m = st8 m (ip_p ip) IPPROTO_UDP;
          m = st32 m (ip_src ip) (htonl local_ip);
          m = st32 m (ip_dst ip) (htonl dst)
      in st16 m (ip_sum ip) (in_cksum m ip sizeof_ip))"

definition put_udp :: "addr \<Rightarrow> u32 \<Rightarrow> u32 \<Rightarrow> u32 \<Rightarrow> memory \<Rightarrow> memory" where
  "put_udp udp sport dport len m =
     (let m = st16 m (udp_sport udp) (htons (ucast sport));
          m = st16 m (udp_dport udp) (htons (ucast dport))
      in st16 m (udp_ulen udp) (htons (ucast (len + of_nat sizeof_udp))))"

definition sys_send :: "'z net_scheme \<Rightarrow> (u64 \<times> 'z net_scheme) option" where
  "sys_send s = do {
     me \<leftarrow> curproc s;
     let pgdir = p_pgdir (ptable s ! me);
     sport \<leftarrow> argint 0 s;
     dst \<leftarrow> argint 1 s;
     dport \<leftarrow> argint 2 s;
     bufaddr \<leftarrow> argaddr 3 s;
     len \<leftarrow> argint 4 s;
     let total = len + of_nat (sizeof_eth + sizeof_ip + sizeof_udp);
     if sint total > 4096 then Some (-1, s)
     else do {
       (buf, s) \<leftarrow> kalloc s;
       if buf = 0 then Some (-1, cprintf ''sys_send: kalloc failed'' [] s)
       else do {
         let s = s\<lparr>mem := memset (mem s) buf 0 PGSIZE\<rparr>;
         let s = s\<lparr>mem := put_eth buf (mem s)\<rparr>;
         let ip = buf + of_nat sizeof_eth;
         let s = s\<lparr>mem := put_ip ip dst len (mem s)\<rparr>;
         let udp = ip + of_nat sizeof_ip;
         let s = s\<lparr>mem := put_udp udp sport dport len (mem s)\<rparr>;
         let payload = udp + of_nat sizeof_udp;
         (r, s) \<leftarrow> copyin_user pgdir payload bufaddr (scast len) s;
         if r < 0 then do {
           s \<leftarrow> kfree buf s;
           Some (-1, cprintf ''send: copyin failed'' [] s)
         }
         else do {
           (txret, s) \<leftarrow> e1000_transmit buf total s;
           if txret < 0 then do { s \<leftarrow> kfree buf s; Some (-1, s) }
           else Some (0, s)
         }
       }
     }
   }"

section \<open>Received frames\<close>

text \<open>Append the packet to the queue.\<close>

definition push_pkt :: "memory \<Rightarrow> addr \<Rightarrow> addr \<Rightarrow> memory" where
  "push_pkt m pq pkt =
     (let m = (if ld64 m (pq_tail pq) \<noteq> 0
               then let m = st64 m (pkt_next (ld64 m (pq_tail pq))) pkt in st64 m (pq_tail pq) pkt
               else let m = st64 m (pq_tail pq) pkt in st64 m (pq_head pq) pkt)
      in st32 m (pq_count pq) (ld32 m (pq_count pq) + 1))"

text \<open>The node for the frame at \<open>buf\<close>, whose UDP header is at \<open>udp\<close>.\<close>

definition fill_pkt :: "addr \<Rightarrow> addr \<Rightarrow> addr \<Rightarrow> memory \<Rightarrow> memory" where
  "fill_pkt pkt buf udp m0 =
     (let ip = buf + of_nat sizeof_eth;
          m = memset m0 pkt 0 PGSIZE;
          m = st64 m (pkt_fullbuf pkt) buf;
          m = st64 m (pkt_payload pkt) (udp + of_nat sizeof_udp);
          m = st32 m (pkt_payload_len pkt)
                (ucast (ntohs (ld16 m0 (udp_ulen udp))) - of_nat sizeof_udp);
          m = st32 m (pkt_src_ip pkt) (ntohl (ld32 m (ip_src ip)));
          m = st16 m (pkt_src_port pkt) (ntohs (ld16 m0 (udp_sport udp)))
      in st64 m (pkt_next pkt) 0)"

text \<open>The part of \<open>ip_rx\<close> that allocates the node and queues the frame, with \<open>netlock\<close> held.\<close>

definition ip_queue :: "addr \<Rightarrow> addr \<Rightarrow> addr \<Rightarrow> 'z net_scheme \<Rightarrow> 'z net_scheme option" where
  "ip_queue buf udp pq s = do {
     (pkt, s) \<leftarrow> kalloc s;
     if pkt = 0 then do { s \<leftarrow> k_release Netlock s; kfree buf s }
     else do {
       let s = s\<lparr>mem := fill_pkt pkt buf udp (mem s)\<rparr>;
       let s = s\<lparr>mem := push_pkt (mem s) pq pkt\<rparr>;
       s \<leftarrow> wakeup (Ch_addr pq) s;
       k_release Netlock s
     }
   }"

definition ip_rx :: "addr \<Rightarrow> u32 \<Rightarrow> 'z net_scheme \<Rightarrow> 'z net_scheme option" where
  "ip_rx buf len s = do {
     let s = (if \<not> seen_ip s then cprintf ''ip_rx: received an IP packet'' [] s else s);
     let s = s\<lparr>seen_ip := True\<rparr>;
     let ip = buf + of_nat sizeof_eth;
     if mem s (ip_p ip) \<noteq> IPPROTO_UDP then kfree buf s
     else do {
       let ihl = mem s (ip_vhl ip) AND 0x0f;
       let udp = ip + 4 * ucast ihl;
       let dport = ntohs (ld16 (mem s) (udp_dport udp));
       s \<leftarrow> k_acquire Netlock s;
       pq \<leftarrow> find_port_queue dport s;
       if pq = 0 then do { s \<leftarrow> k_release Netlock s; kfree buf s }
       else if sint (ld32 (mem s) (pq_count pq)) \<ge> MAX_QUEUED_PER_PORT then
         do { s \<leftarrow> k_release Netlock s; kfree buf s }
       else ip_queue buf udp pq s
     }
   }"

text \<open>The reply that \<open>arp_rx\<close> builds in \<open>buf\<close> from the request in \<open>inbuf\<close>.\<close>

definition arp_reply :: "addr \<Rightarrow> addr \<Rightarrow> memory \<Rightarrow> memory" where
  "arp_reply buf inbuf m =
     (let m = memmove m buf (eth_shost inbuf) 6;
          m = mwrite m (eth_shost buf) local_mac;
          m = st16 m (eth_type buf) (htons ETHTYPE_ARP);
          arp = buf + of_nat sizeof_eth;
          m = st16 m (arp_hrd arp) (htons ARP_HRD_ETHER);
          m = st16 m (arp_pro arp) (htons ETHTYPE_IP);
          m = st8 m (arp_hln arp) 6;
          m = st8 m (arp_pln arp) 4;
          m = st16 m (arp_op arp) (htons ARP_OP_REPLY);
          m = mwrite m (arp_sha arp) local_mac;
          m = st32 m (arp_sip arp) (htonl local_ip);
          m = memmove m (arp_tha arp) (eth_shost inbuf) 6
      in st32 m (arp_tip arp) (ld32 m (arp_sip (inbuf + of_nat sizeof_eth))))"

definition arp_rx :: "addr \<Rightarrow> 'z net_scheme \<Rightarrow> 'z net_scheme option" where
  "arp_rx inbuf s =
     (if seen_arp s then kfree inbuf s
      else do {
        let s = cprintf ''arp_rx: received an ARP packet'' [] s;
        let s = s\<lparr>seen_arp := True\<rparr>;
        (buf, s) \<leftarrow> kalloc s;
        if buf = 0 then None
        else do {
          let s = s\<lparr>mem := arp_reply buf inbuf (mem s)\<rparr>;
          (r, s) \<leftarrow> e1000_transmit buf (of_nat (sizeof_eth + sizeof_arp)) s;
          kfree inbuf s
        }
      })"

definition net_rx :: "addr \<Rightarrow> u32 \<Rightarrow> 'z net_scheme \<Rightarrow> 'z net_scheme option" where
  "net_rx buf len s =
     (let ty = ntohs (ld16 (mem s) (eth_type buf)) in
      if sint len \<ge> int (sizeof_eth + sizeof_arp) \<and> ty = ETHTYPE_ARP then arp_rx buf s
      else if sint len \<ge> int (sizeof_eth + sizeof_ip) \<and> ty = ETHTYPE_IP then ip_rx buf len s
      else kfree buf s)"

section \<open>Copying from user memory\<close>

text \<open>
  When \<open>n\<close> bytes of user memory can be read into the kernel page \<open>p\<close>: the pages are mapped for the
  user, and \<open>p\<close> is neither one of them nor a table of the walk.
\<close>

definition copyin_ok :: "memory \<Rightarrow> addr \<Rightarrow> addr \<Rightarrow> addr \<Rightarrow> nat \<Rightarrow> bool" where
  "copyin_ok m pgdir p va n \<longleftrightarrow>
     page_aligned pgdir \<and> page_aligned p \<and> unat p < 2 ^ 64 - 8192 \<and>
     0 \<notin> uframes m pgdir va n \<and> p \<notin> uframes m pgdir va n \<and>
     (\<forall>i < n. p \<notin> va_tables m pgdir (va + of_nat i))"

text \<open>Writing into \<open>p\<close> keeps the range and its translation.\<close>

lemma copyin_ok_agree:
  assumes "copyin_ok m pgdir p va n" "agree m m' (- {p} \<inter> {q. page_aligned q})" "i < n"
  shows "upage m' pgdir (va + of_nat i) = upage m pgdir (va + of_nat i)"
    "va_tables m' pgdir (va + of_nat i) = va_tables m pgdir (va + of_nat i)"
    "m' (ukaddr m' pgdir (va + of_nat i)) = m (ukaddr m pgdir (va + of_nat i))"
proof -
  let ?x = "va + of_nat i"
  have "aligned_set (va_tables m pgdir ?x)" "p \<notin> va_tables m pgdir ?x"
    using assms(1,3) by (auto simp: copyin_ok_def va_tables_aligned)
  then have "agree m m' (va_tables m pgdir ?x)"
    using assms(2) by (elim agree_mono) (auto simp: aligned_set_def)
  then show u: "upage m' pgdir ?x = upage m pgdir ?x" "va_tables m' pgdir ?x = va_tables m pgdir ?x"
    by (simp_all add: upage_agree mapped_agree)
  have "upage m pgdir ?x \<in> uframes m pgdir va n" using assms(3) unfolding uframes_def by blast
  then have "upage m pgdir ?x \<noteq> 0" "upage m pgdir ?x \<noteq> p" using assms(1) by (auto simp: copyin_ok_def)
  then have f: "upage m pgdir ?x \<in> - {p} \<inter> {q. page_aligned q}" using upage_page by auto
  have "within (upage m pgdir ?x) (ukaddr m pgdir ?x) 1"
    using page_rest_pos [of ?x] by (intro within_ukaddr) simp
  from agree_byte [OF assms(2) f this] show
    "m' (ukaddr m' pgdir ?x) = m (ukaddr m pgdir ?x)" by (simp add: ukaddr_def u)
qed

lemma copyin_ok_step:
  assumes "copyin_ok m pgdir p va k" "agree m m' (- {p} \<inter> {q. page_aligned q})" "n \<le> k"
  shows "copyin_ok m' pgdir p (va + of_nat n) (k - n)"
    and "ubytes m' pgdir (va + of_nat n) (k - n) = ubytes m pgdir (va + of_nat n) (k - n)"
proof -
  have sh: "va + of_nat n + of_nat i = va + of_nat (n + i)" for i by (simp add: algebra_simps)
  note ag = copyin_ok_agree [OF assms(1,2)]
  have u: "upage m' pgdir (va + of_nat n + of_nat i) = upage m pgdir (va + of_nat (n + i))"
    "va_tables m' pgdir (va + of_nat n + of_nat i) = va_tables m pgdir (va + of_nat (n + i))"
    "m' (ukaddr m' pgdir (va + of_nat n + of_nat i)) = m (ukaddr m pgdir (va + of_nat n + of_nat i))"
    if "i < k - n" for i
  proof -
    have "n + i < k" using that by simp
    from ag [OF this] show
      "upage m' pgdir (va + of_nat n + of_nat i) = upage m pgdir (va + of_nat (n + i))"
      "va_tables m' pgdir (va + of_nat n + of_nat i) = va_tables m pgdir (va + of_nat (n + i))"
      "m' (ukaddr m' pgdir (va + of_nat n + of_nat i)) = m (ukaddr m pgdir (va + of_nat n + of_nat i))"
      by (simp_all only: sh)
  qed
  have "uframes m' pgdir (va + of_nat n) (k - n) \<subseteq> uframes m pgdir va k"
  proof
    fix g assume "g \<in> uframes m' pgdir (va + of_nat n) (k - n)"
    then obtain i where i: "i < k - n" "g = upage m' pgdir (va + of_nat n + of_nat i)"
      unfolding uframes_def by blast
    then have "g = upage m pgdir (va + of_nat (n + i))" "n + i < k" using u(1) [OF i(1)] by simp_all
    then show "g \<in> uframes m pgdir va k" unfolding uframes_def by blast
  qed
  moreover have "p \<notin> va_tables m' pgdir (va + of_nat n + of_nat i)" if "i < k - n" for i
  proof -
    have "n + i < k" using that by simp
    then show ?thesis using assms(1) u(2) [OF that] by (auto simp: copyin_ok_def)
  qed
  ultimately show "copyin_ok m' pgdir p (va + of_nat n) (k - n)"
    using assms(1) unfolding copyin_ok_def by blast
  show "ubytes m' pgdir (va + of_nat n) (k - n) = ubytes m pgdir (va + of_nat n) (k - n)"
    unfolding ubytes_def using u(3) by simp
qed

lemma unat_widen: "unat (ucast (x :: u32) :: u64) = unat x"
proof -
  have "unat x < 2 ^ LENGTH(32)" by (rule unsigned_less)
  then have "unat x < 2 ^ 64" by simp
  then show ?thesis by (simp add: unsigned_ucast_eq take_bit_nat_eq_self_iff)
qed

lemma page_offset_and: "va AND (PGSIZE - 1) = va - PGROUNDDOWN va"
proof -
  have "va AND mask 12 = take_bit 12 va" by (simp add: take_bit_eq_mask)
  then have "unat (va AND (PGSIZE - 1)) = unat va mod 4096"
    by (simp add: PGSIZE_def mask_eq_exp_minus_1 take_bit_eq_mod unat_mod_distrib)
  then show ?thesis by (simp add: word_unat_eq_iff unat_page_offset)
qed

lemma within_no_wrap: "within p a k \<Longrightarrow> unat p < 2 ^ 64 - 8192 \<Longrightarrow> unat a + k < 2 ^ 64"
proof -
  assume w: "within p a k" and p: "unat p < 2 ^ 64 - 8192"
  have d: "unat (a - p) + k \<le> 4096" using w by (simp add: within_def)
  have "unat (p + (a - p)) = unat p + unat (a - p)" using p d by (intro unat_sum_no_wrap) simp
  then show ?thesis using p d by simp
qed

lemma copyin_turn:
  assumes f0: "upage (mem s) pgdir va \<noteq> 0" and "0 < len"
  defines "n \<equiv> min (page_rest va) (unat len)"
  assumes dst: "unat dst + n < 2 ^ 64"
  shows "copyin_user pgdir dst va len s =
    copyin_user pgdir (dst + of_nat n) (va + of_nat n) (len - of_nat n)
      (s\<lparr>mem := mwrite (mem s) dst (ubytes (mem s) pgdir va n)\<rparr>)"
proof -
  let ?f = "upage (mem s) pgdir va" and ?off = "ucast (va AND (PGSIZE - 1)) :: u32"
  have f: "unat ?f < 2 ^ 64 - 8192" using f0 upage_page by blast
  have n: "n \<le> 4096" "n \<le> unat len" "n \<le> page_rest va"
    using page_rest_pos [of va] by (auto simp: n_def)
  have o: "unat ?off = unat va mod 4096"
    unfolding page_offset_and by (simp add: unsigned_ucast_eq unat_page_offset take_bit_nat_eq_self_iff)
  then have uo: "(ucast ?off :: u64) = va - PGROUNDDOWN va"
    using unat_widen [of ?off] by (simp only: word_unat_eq_iff unat_page_offset)
  have n1: "unat (ucast PGSIZE - ?off :: u32) = page_rest va"
  proof -
    have "unat (ucast PGSIZE :: u32) = 4096" by (simp add: PGSIZE_def)
    moreover have "?off \<le> ucast PGSIZE" using o calculation by (simp add: word_le_nat_alt)
    then have "unat (ucast PGSIZE - ?off) = unat (ucast PGSIZE :: u32) - unat ?off" by (rule unat_sub)
    ultimately show ?thesis using o by (simp add: page_rest_def)
  qed
  define n32 :: u32 where "n32 = (if ucast (ucast PGSIZE - ?off :: u32) > len then ucast len else ucast PGSIZE - ?off)"
  have n32: "unat n32 = n"
  proof (cases "page_rest va > unat len")
    case True
    then have "n32 = ucast len" by (simp add: n32_def word_less_nat_alt unat_widen n1)
    moreover have "unat len < 2 ^ 32" using True page_rest_pos(2) [of va] by simp
    ultimately show ?thesis using True by (simp add: unsigned_ucast_eq take_bit_nat_eq_self_iff n_def)
  next
    case False
    then show ?thesis by (simp add: n32_def word_less_nat_alt unat_widen n1 n_def)
  qed
  then have n64: "(ucast n32 :: u64) = of_nat n" by (metis of_nat_unat_ucast)
  have "memmove (mem s) dst (?f + ucast ?off) n32 = mwrite (mem s) dst (ubytes (mem s) pgdir va n)"
  proof -
    have ob: "unat (va - PGROUNDDOWN va) < 4096" by (simp add: unat_page_offset)
    have "unat (?f + (va - PGROUNDDOWN va)) = unat ?f + unat (va - PGROUNDDOWN va)"
      using f ob by (intro unat_sum_no_wrap) simp
    then have "unat (?f + (va - PGROUNDDOWN va)) + n < 2 ^ 64" using f ob n by simp
    moreover note dst
    ultimately have "memmove (mem s) dst (?f + ucast ?off) n32 = mcopy (mem s) dst (ukaddr (mem s) pgdir va) n"
      using memmove_eq_mcopy [of dst n32 "?f + ucast ?off" "mem s"] n32 by (simp add: ukaddr_def uo)
    then show ?thesis using n by (simp add: mcopy_eq_mwrite ubytes_page)
  qed
  then show ?thesis using assms(2) f0 n64
    by (subst copyin_user.simps) (simp add: uva2ka_read Let_def n32_def [symmetric])
qed

lemma copyin_user_correct:
  assumes "copyin_ok (mem s) pgdir p va (unat len)" "within p dst (unat len)"
  shows "copyin_user pgdir dst va len s =
    Some (0, s\<lparr>mem := mwrite (mem s) dst (ubytes (mem s) pgdir va (unat len))\<rparr>)"
  using assms
proof (induction "unat len" arbitrary: s dst va len rule: less_induct)
  case less
  show ?case
  proof (cases "len = 0")
    case True
    then show ?thesis by (subst copyin_user.simps) (simp add: ubytes_def)
  next
    case False
    let ?m = "mem s" and ?k = "unat len"
    define n where "n = min (page_rest va) ?k"
    define m1 where "m1 = mwrite ?m dst (ubytes ?m pgdir va n)"
    have k0: "0 < ?k" using False by (simp add: unat_gt_0)
    then have l0: "0 < len" by (simp add: word_less_nat_alt)
    have n: "0 < n" "n \<le> ?k" "n \<le> 4096" using k0 page_rest_pos [of va] by (auto simp: n_def)
    have un: "unat (of_nat n :: u64) = n" using n by (intro unat64_of_nat) simp
    have rest: "unat (len - of_nat n) = ?k - n" using n un by (simp add: unat_sub word_le_nat_alt)
    have turn: "copyin_user pgdir dst va len s =
        copyin_user pgdir (dst + of_nat n) (va + of_nat n) (len - of_nat n) (s\<lparr>mem := m1\<rparr>)"
      unfolding m1_def n_def
    proof (rule copyin_turn [OF _ l0])
      have "upage ?m pgdir va \<in> uframes ?m pgdir va ?k"
        unfolding uframes_def using k0 by (intro image_eqI [of _ _ 0]) simp_all
      then show "upage ?m pgdir va \<noteq> 0" using less.prems(1) by (auto simp: copyin_ok_def)
      show "unat dst + min (page_rest va) ?k < 2 ^ 64"
        using within_no_wrap [OF less.prems(2)] less.prems(1) by (simp add: copyin_ok_def)
    qed
    have ap: "page_aligned p" using less.prems by (simp add: copyin_ok_def)
    have wn: "within p dst n" using less.prems(2) n by (simp add: within_def)
    have ag: "agree ?m m1 (- {p} \<inter> {q. page_aligned q})"
      unfolding m1_def using ap wn by (intro agree_mwrite [of p]) (auto simp: aligned_set_def)
    note st = copyin_ok_step [OF less.prems(1) ag n(2)]
    have "unat (len - of_nat n) < ?k" using rest n by simp
    from less.hyps [OF this, of "s\<lparr>mem := m1\<rparr>" "va + of_nat n" "dst + of_nat n"]
    have "copyin_user pgdir (dst + of_nat n) (va + of_nat n) (len - of_nat n) (s\<lparr>mem := m1\<rparr>) =
        Some (0, s\<lparr>mem := mwrite m1 (dst + of_nat n) (ubytes m1 pgdir (va + of_nat n) (?k - n))\<rparr>)"
      using st(1) rest within_shift [OF less.prems(2) n(2)] by simp
    moreover have "mwrite m1 (dst + of_nat n) (ubytes m1 pgdir (va + of_nat n) (?k - n)) =
        mwrite ?m dst (ubytes ?m pgdir va ?k)"
    proof -
      have "?k \<le> 2 ^ 64" using unat_lt64 [of len] by simp
      then show ?thesis unfolding st(2) unfolding m1_def
        using mwrite_append [of "ubytes ?m pgdir va n" "ubytes ?m pgdir (va + of_nat n) (?k - n)" ?m dst]
          ubytes_add [of ?m pgdir va n "?k - n"] n by simp
    qed
    ultimately show ?thesis using turn by simp
  qed
qed

text \<open>Whatever is read, mapped or not, only the destination page is written.\<close>

lemma copyin_frame:
  assumes "aspace (mem s) pgdir T U" "page_aligned p" "p \<notin> T" "unat p < 2 ^ 64 - 8192" "within p dst (unat len)"
  shows "\<exists>r m'. copyin_user pgdir dst va len s = Some (r, s\<lparr>mem := m'\<rparr>) \<and> (r = 0 \<or> r = -1) \<and>
    (\<forall>P. aligned_set P \<longrightarrow> p \<notin> P \<longrightarrow> agree (mem s) m' P)"
  using assms(1,5)
proof (induction "unat len" arbitrary: s dst va len rule: less_induct)
  case less
  let ?m = "mem s" and ?f = "upage (mem s) pgdir va" and ?k = "unat len"
  show ?case
  proof (cases "len = 0 \<or> ?f = 0")
    case True
    then have "copyin_user pgdir dst va len s = Some (if len = 0 then 0 else -1, s\<lparr>mem := ?m\<rparr>)"
      by (subst copyin_user.simps) (auto simp: uva2ka_read Let_def word_gt_0)
    then show ?thesis by (intro exI [of _ "if len = 0 then 0 else -1"] exI [of _ ?m]) simp
  next
    case False
    define n where "n = min (page_rest va) ?k"
    define m1 where "m1 = mwrite ?m dst (ubytes ?m pgdir va n)"
    have l0: "0 < len" using False by (simp add: word_gt_0)
    then have k0: "0 < ?k" by (simp add: word_less_nat_alt)
    have n: "0 < n" "n \<le> ?k" "n \<le> 4096" using k0 page_rest_pos [of va] by (auto simp: n_def)
    have un: "unat (of_nat n :: u64) = n" using n by (intro unat64_of_nat) simp
    have rest: "unat (len - of_nat n) = ?k - n" using n un by (simp add: unat_sub word_le_nat_alt)
    have turn: "copyin_user pgdir dst va len s =
        copyin_user pgdir (dst + of_nat n) (va + of_nat n) (len - of_nat n) (s\<lparr>mem := m1\<rparr>)"
      unfolding m1_def n_def using False within_no_wrap [OF less.prems(2) assms(4)] by (intro copyin_turn [OF _ l0]) simp_all
    have wn: "within p dst n" using less.prems(2) n by (simp add: within_def)
    have ag: "agree ?m m1 P" if "aligned_set P" "p \<notin> P" for P
      unfolding m1_def using assms(2) that wn by (intro agree_mwrite [of p]) simp_all
    have "agree ?m m1 T" using less.prems(1) assms(3) by (intro ag) (auto simp: aspace_def)
    then have as: "aspace m1 pgdir T U" using less.prems(1) aspace_agree by blast
    have w: "within p (dst + of_nat n) (unat (len - of_nat n))"
      unfolding rest using less.prems(2) n(2) by (rule within_shift)
    have lt: "unat (len - of_nat n) < ?k" using rest n by simp
    then obtain r m' where h: "copyin_user pgdir (dst + of_nat n) (va + of_nat n) (len - of_nat n) (s\<lparr>mem := m1\<rparr>) =
        Some (r, s\<lparr>mem := m'\<rparr>)" "r = 0 \<or> r = -1" "\<forall>P. aligned_set P \<longrightarrow> p \<notin> P \<longrightarrow> agree m1 m' P"
      using less.hyps [OF lt, of "s\<lparr>mem := m1\<rparr>" "dst + of_nat n" "va + of_nat n"] as w by auto
    have "agree ?m m' P" if "aligned_set P" "p \<notin> P" for P
      using ag [OF that] h(3) that agree_trans by blast
    then show ?thesis using h(1,2) unfolding turn by (intro exI [of _ r] exI [of _ m']) simp
  qed
qed

section \<open>A sample state\<close>

definition sample_e1000 :: "proc list \<Rightarrow> nat option \<Rightarrow> e1000" where
  "sample_e1000 ps me = pstate.extend (sample_pstate ps me)
     (e1000.fields 0 (\<lambda>_. 0) (replicate 16 (zero_tx_desc\<lparr>tx_status := 1\<rparr>)) (replicate 16 zero_rx_desc)
       (replicate 16 0) (replicate 16 0) 0 0)"

definition sample_net :: "proc list \<Rightarrow> nat option \<Rightarrow> net" where
  "sample_net ps me = e1000.extend (sample_e1000 ps me) (net.fields 0 False False 0)"

end
