(* ===== verification/Nic.thy ===== *)
theory Nic
  imports Net
begin

text \<open>
  The receive side of the network card driver (\<open>e1000_recv\<close> and \<open>e1000_intr\<close> of \<^verbatim>\<open>e1000.c\<close>) and the
  behaviour of the card that the driver relies on.

  The card is the relation \<open>nic_step\<close>: it finishes a transmit descriptor between head and tail, or
  writes a frame of at most 2048 bytes through a receive descriptor between head and tail.
\<close>

section \<open>The interrupt handler\<close>

text \<open>The descriptor that is looked at next: \<open>(r + 1) % RX_RING_SIZE\<close>.\<close>

definition rx_next :: "'z e1000_scheme \<Rightarrow> nat" where
  "rx_next s = unat ((regs s E1000_RDT + 1) mod of_nat RX_RING_SIZE)"

text \<open>The copy of a received frame into a fresh page; the result is 0 when there is none.\<close>

definition rx_copy :: "u32 \<Rightarrow> addr \<Rightarrow> 'z e1000_scheme \<Rightarrow> (addr \<times> 'z e1000_scheme) option" where
  "rx_copy len src s =
     (if 0 < sint len \<and> sint len \<le> 4096 then do {
        (dst, s) \<leftarrow> kalloc s;
        Some (dst, if dst \<noteq> 0 then s\<lparr>mem := memmove (mem s) dst src len\<rparr> else s)
      } else Some (0, s))"

text \<open>
  The part of an iteration of \<open>e1000_recv\<close> that holds \<open>e1000_lock\<close>: whether there was a frame, the page it
  has been copied to (0 for none) and its length.
\<close>

definition e1000_recv_take :: "'z net_scheme \<Rightarrow> (bool \<times> addr \<times> u32 \<times> 'z net_scheme) option" where
  "e1000_recv_take s = do {
     s \<leftarrow> k_acquire E1000_lock s;
     let i = rx_next s;
     if rx_status (rx_ring s ! i) AND E1000_RXD_STAT_DD = 0 then do {
       s \<leftarrow> k_release E1000_lock s;
       Some (False, 0, 0, s)
     }
     else do {
       let len = (ucast (rx_length (rx_ring s ! i)) :: u32);
       (dst, s) \<leftarrow> rx_copy len (rx_bufs s ! i) s;
       let s = s\<lparr>rx_ring := (rx_ring s)[i := (rx_ring s ! i)\<lparr>rx_status := 0\<rparr>]\<rparr>;
       let s = set_reg E1000_RDT (of_nat i) s;
       s \<leftarrow> k_release E1000_lock s;
       Some (True, dst, len, s)
     }
   }"

text \<open>One iteration of the loop of \<open>e1000_recv\<close>; \<open>False\<close> is the \<open>break\<close>.\<close>

definition e1000_recv_turn :: "'z net_scheme \<Rightarrow> (bool \<times> 'z net_scheme) option" where
  "e1000_recv_turn s = do {
     (more_work, dst, len, s) \<leftarrow> e1000_recv_take s;
     if \<not> more_work then Some (False, s)
     else do {
       s \<leftarrow> (if dst \<noteq> 0 then net_rx dst len s else Some s);
       Some (True, s)
     }
   }"

partial_function (option) e1000_recv :: "'z net_scheme \<Rightarrow> 'z net_scheme option" where
  "e1000_recv s = do {
     (more_work, s) \<leftarrow> e1000_recv_turn s;
     if more_work then e1000_recv s else Some s
   }"

definition e1000_intr :: "'z net_scheme \<Rightarrow> 'z net_scheme option" where
  "e1000_intr s = e1000_recv (set_reg E1000_ICR 0xffffffff s)"

section \<open>The card\<close>

text \<open>The descriptors from \<open>h\<close> up to but not including \<open>t\<close>, around the ring.\<close>

definition in_ring :: "nat \<Rightarrow> nat \<Rightarrow> nat \<Rightarrow> nat \<Rightarrow> bool" where
  "in_ring n h t i \<longleftrightarrow> i < n \<and> (i + n - h) mod n < (t + n - h) mod n"

abbreviation tdh :: "'z e1000_scheme \<Rightarrow> nat" where "tdh s \<equiv> unat (regs s E1000_TDH)"
abbreviation rdh :: "'z e1000_scheme \<Rightarrow> nat" where "rdh s \<equiv> unat (regs s E1000_RDH)"
abbreviation rdt :: "'z e1000_scheme \<Rightarrow> nat" where "rdt s \<equiv> unat (regs s E1000_RDT)"

inductive nic_step :: "'z e1000_scheme \<Rightarrow> 'z e1000_scheme \<Rightarrow> bool" where
  sent: "tdh s \<noteq> tx_tail s \<Longrightarrow> d = tx_ring s ! tdh s \<Longrightarrow>
    nic_step s (set_reg E1000_TDH (of_nat ((tdh s + 1) mod TX_RING_SIZE))
      (s\<lparr>tx_ring := (tx_ring s)[tdh s := d\<lparr>tx_status := tx_status d OR E1000_TXD_STAT_DD\<rparr>]\<rparr>))"
| received: "rdh s \<noteq> rdt s \<Longrightarrow> d = rx_ring s ! rdh s \<Longrightarrow> 0 < length frame \<Longrightarrow> length frame \<le> 2048 \<Longrightarrow>
    nic_step s (set_reg E1000_RDH (of_nat ((rdh s + 1) mod RX_RING_SIZE))
      (s\<lparr>mem := mwrite (mem s) (P2V (rx_addr d)) frame,
         rx_ring := (rx_ring s)[rdh s := d\<lparr>rx_length := of_nat (length frame),
           rx_status := E1000_RXD_STAT_DD OR E1000_RXD_STAT_EOP\<rparr>]\<rparr>))"

end
