(* ===== verification/Ports.thy ===== *)
theory Ports
  imports Net
begin

text \<open>
  The UDP port queues of \<^verbatim>\<open>net.c\<close> as data: which linked structures in memory represent which list of
  bound ports with which queued datagrams, that the C operations on them are the list operations,
  and that they depend only on the pages they own.
\<close>

section \<open>Linked structures\<close>

text \<open>
  A queued packet is a pair of pages, the node and the received frame. The node points to its
  frame, and the part of the payload that \<open>recv\<close> may copy lies in the frame's page.
\<close>

definition pkt_fields :: "memory \<Rightarrow> addr \<Rightarrow> addr \<Rightarrow> bool" where
  "pkt_fields m k b \<longleftrightarrow> ld64 m (pkt_fullbuf k) = b \<and> within b (ld64 m (pkt_payload k)) 1500"

fun pkt_chain :: "memory \<Rightarrow> addr \<Rightarrow> (addr \<times> addr) list \<Rightarrow> bool" where
  "pkt_chain m p [] \<longleftrightarrow> p = 0"
| "pkt_chain m p ((k, b) # ks) \<longleftrightarrow> p = k \<and> k \<noteq> 0 \<and> pkt_fields m k b \<and> pkt_chain m (ld64 m (pkt_next k)) ks"

definition is_queue :: "memory \<Rightarrow> addr \<Rightarrow> u16 \<Rightarrow> (addr \<times> addr) list \<Rightarrow> bool" where
  "is_queue m q port ks \<longleftrightarrow> ld16 m (pq_port q) = port \<and> pkt_chain m (ld64 m (pq_head q)) ks \<and>
     ld64 m (pq_tail q) = (if ks = [] then 0 else fst (last ks)) \<and>
     ld32 m (pq_count q) = of_nat (length ks) \<and> length ks \<le> 16"

fun port_chain :: "memory \<Rightarrow> addr \<Rightarrow> (addr \<times> u16 \<times> (addr \<times> addr) list) list \<Rightarrow> bool" where
  "port_chain m p [] \<longleftrightarrow> p = 0"
| "port_chain m p ((q, port, ks) # qs) \<longleftrightarrow>
     p = q \<and> q \<noteq> 0 \<and> is_queue m q port ks \<and> port_chain m (ld64 m (pq_next q)) qs"

text \<open>The pages that the structures own.\<close>

definition pkt_pages :: "(addr \<times> addr) list \<Rightarrow> addr list" where
  "pkt_pages ks = concat (map (\<lambda>(k, b). [k, b]) ks)"

definition queue_pages :: "addr \<times> u16 \<times> (addr \<times> addr) list \<Rightarrow> addr list" where
  "queue_pages = (\<lambda>(q, port, ks). q # pkt_pages ks)"

definition pages_of :: "(addr \<times> u16 \<times> (addr \<times> addr) list) list \<Rightarrow> addr list" where
  "pages_of qs = concat (map queue_pages qs)"

lemma pkt_pages_simps [simp]:
  "pkt_pages [] = []" "pkt_pages ((k, b) # ks) = k # b # pkt_pages ks" "pkt_pages (ks @ js) = pkt_pages ks @ pkt_pages js"
  by (simp_all add: pkt_pages_def)

lemma pages_of_simps [simp]:
  "pages_of [] = []" "pages_of ((q, port, ks) # qs) = q # pkt_pages ks @ pages_of qs"
  "pages_of (qs @ rs) = pages_of qs @ pages_of rs"
  by (simp_all add: pages_of_def queue_pages_def)

section \<open>What the structures depend on\<close>

lemma pkt_fields_agree: "agree m m' P \<Longrightarrow> k \<in> P \<Longrightarrow> pkt_fields m' k b \<longleftrightarrow> pkt_fields m k b"
  by (simp add: pkt_fields_def queue_offsets agree_ld64 [of m m' P k])

lemma pkt_chain_agree: "agree m m' (set (pkt_pages ks)) \<Longrightarrow> pkt_chain m' p ks \<longleftrightarrow> pkt_chain m p ks"
proof (induction ks arbitrary: p)
  case (Cons kb ks)
  obtain k b where kb: "kb = (k, b)" by (cases kb)
  have k: "k \<in> set (pkt_pages (kb # ks))" by (simp add: kb)
  have "agree m m' (set (pkt_pages ks))" using Cons.prems by (rule agree_mono) (auto simp: kb)
  then show ?case
    using Cons.IH pkt_fields_agree [OF Cons.prems k] agree_ld64 [OF Cons.prems k, of "pkt_next k"]
    by (simp add: kb queue_offsets)
qed simp

lemma queue_fields_agree:
  assumes "agree m m' P" "q \<in> P"
  shows "ld16 m' (pq_port q) = ld16 m (pq_port q)" "ld64 m' (pq_head q) = ld64 m (pq_head q)"
    "ld64 m' (pq_tail q) = ld64 m (pq_tail q)" "ld32 m' (pq_count q) = ld32 m (pq_count q)"
    "ld64 m' (pq_next q) = ld64 m (pq_next q)"
  using agree_ld64 [OF assms] agree_ld32 [OF assms] agree_ld16 [OF assms] by (simp_all add: queue_offsets)

lemma is_queue_agree:
  assumes "agree m m' (insert q (set (pkt_pages ks)))"
  shows "is_queue m' q port ks \<longleftrightarrow> is_queue m q port ks"
proof -
  have "agree m m' (set (pkt_pages ks))" using assms by (rule agree_mono) auto
  then show ?thesis using queue_fields_agree [OF assms] by (simp add: is_queue_def pkt_chain_agree)
qed

lemma port_chain_agree: "agree m m' (set (pages_of qs)) \<Longrightarrow> port_chain m' p qs \<longleftrightarrow> port_chain m p qs"
proof (induction qs arbitrary: p)
  case (Cons e qs)
  obtain q port ks where e: "e = (q, port, ks)" by (cases e)
  have "agree m m' (insert q (set (pkt_pages ks)))" "agree m m' (set (pages_of qs))"
    using Cons.prems by (auto simp: e elim: agree_mono)
  then show ?case using Cons.IH is_queue_agree queue_fields_agree(5) [of m m' "insert q (set (pkt_pages ks))" q]
    by (simp add: e)
qed simp

text \<open>One queue of the list is replaced, the others are not touched.\<close>

lemma port_chain_replace:
  assumes "port_chain m p (qs @ (q, port, ks) # rs)" "agree m m' (set (pages_of qs) \<union> set (pages_of rs))"
    and "is_queue m' q port ks'" "ld64 m' (pq_next q) = ld64 m (pq_next q)"
  shows "port_chain m' p (qs @ (q, port, ks') # rs)"
  using assms(1,2)
proof (induction qs arbitrary: p)
  case Nil
  then show ?case using assms(3,4) port_chain_agree [of m m' rs] by simp
next
  case (Cons e qs)
  obtain q' port' ks'' where e: "e = (q', port', ks'')" by (cases e)
  have "agree m m' (insert q' (set (pkt_pages ks'')))" "agree m m' (set (pages_of qs) \<union> set (pages_of rs))"
    using Cons.prems(2) by (auto simp: e elim: agree_mono)
  then show ?case using Cons.IH Cons.prems(1) is_queue_agree queue_fields_agree(5) [of m m' "insert q' (set (pkt_pages ks''))" q']
    by (simp add: e)
qed

lemma port_chain_split:
  assumes "port_chain m p qs" "(q, port, ks) \<in> set qs"
  shows "is_queue m q port ks" "q \<noteq> 0"
  using assms by (induction qs arbitrary: p) auto

section \<open>Datagrams\<close>

record dgram =
  d_src :: u32
  d_sport :: u16
  d_len :: u32
  d_data :: "byte list"

definition dgram_at :: "memory \<Rightarrow> addr \<Rightarrow> dgram" where
  "dgram_at m k = \<lparr>d_src = ld32 m (pkt_src_ip k), d_sport = ld16 m (pkt_src_port k),
     d_len = ld32 m (pkt_payload_len k), d_data = mread m (ld64 m (pkt_payload k)) 1500\<rparr>"

text \<open>The bound ports with what is queued for them, in the order of the list.\<close>

definition ports_abs :: "memory \<Rightarrow> (addr \<times> u16 \<times> (addr \<times> addr) list) list \<Rightarrow> (u16 \<times> dgram list) list" where
  "ports_abs m qs = map (\<lambda>(q, port, ks). (port, map (\<lambda>(k, b). dgram_at m k) ks)) qs"

lemma dgram_agree:
  assumes "pkt_fields m k b" "agree m m' P" "k \<in> P" "b \<in> P"
  shows "dgram_at m' k = dgram_at m k"
proof -
  have "ld64 m' (pkt_payload k) = ld64 m (pkt_payload k)" "ld32 m' (pkt_src_ip k) = ld32 m (pkt_src_ip k)"
    "ld16 m' (pkt_src_port k) = ld16 m (pkt_src_port k)" "ld32 m' (pkt_payload_len k) = ld32 m (pkt_payload_len k)"
    using agree_ld64 [OF assms(2,3)] agree_ld32 [OF assms(2,3)] agree_ld16 [OF assms(2,3)]
    by (simp_all add: queue_offsets)
  moreover have "mread m' (ld64 m (pkt_payload k)) 1500 = mread m (ld64 m (pkt_payload k)) 1500"
    using assms by (intro agree_mread [of m m' P b]) (simp_all add: pkt_fields_def)
  ultimately show ?thesis by (simp add: dgram_at_def)
qed

lemma pkt_chain_fields: "pkt_chain m p ks \<Longrightarrow> (k, b) \<in> set ks \<Longrightarrow> pkt_fields m k b \<and> k \<noteq> 0"
  by (induction ks arbitrary: p) auto

lemma pkt_pages_mem: "(k, b) \<in> set ks \<Longrightarrow> k \<in> set (pkt_pages ks) \<and> b \<in> set (pkt_pages ks)"
  by (induction ks) auto

lemma pkts_abs_agree:
  assumes "pkt_chain m p ks" "agree m m' (set (pkt_pages ks))"
  shows "map (\<lambda>(k, b). dgram_at m' k) ks = map (\<lambda>(k, b). dgram_at m k) ks"
proof (rule map_cong [OF refl])
  fix kb
  assume h: "kb \<in> set ks"
  obtain k b where kb: "kb = (k, b)" by (cases kb)
  show "(case kb of (k, b) \<Rightarrow> dgram_at m' k) = (case kb of (k, b) \<Rightarrow> dgram_at m k)"
    using dgram_agree [OF _ assms(2), of k b] pkt_chain_fields [OF assms(1)] pkt_pages_mem h by (simp add: kb)
qed

lemma queues_abs_agree:
  assumes "list_all (\<lambda>(q, port, ks). is_queue m q port ks) qs" "agree m m' (set (pages_of qs))"
  shows "ports_abs m' qs = ports_abs m qs"
  using assms
proof (induction qs)
  case (Cons e qs)
  obtain q port ks where e: "e = (q, port, ks)" by (cases e)
  have "agree m m' (set (pkt_pages ks))" "agree m m' (set (pages_of qs))"
    using Cons.prems(2) by (auto simp: e elim: agree_mono)
  moreover have "pkt_chain m (ld64 m (pq_head q)) ks" "list_all (\<lambda>(q, port, ks). is_queue m q port ks) qs"
    using Cons.prems(1) by (simp_all add: e is_queue_def)
  ultimately have "map (\<lambda>(k, b). dgram_at m' k) ks = map (\<lambda>(k, b). dgram_at m k) ks" "ports_abs m' qs = ports_abs m qs"
    using pkts_abs_agree Cons.IH by blast+
  then show ?case by (simp add: ports_abs_def e)
qed (simp add: ports_abs_def)

lemma port_chain_queues: "port_chain m p qs \<Longrightarrow> list_all (\<lambda>(q, port, ks). is_queue m q port ks) qs"
  by (induction qs arbitrary: p) auto

lemma ports_abs_agree:
  "port_chain m p qs \<Longrightarrow> agree m m' (set (pages_of qs)) \<Longrightarrow> ports_abs m' qs = ports_abs m qs"
  using queues_abs_agree port_chain_queues by blast

lemma ports_abs_simps [simp]:
  "ports_abs m [] = []" "ports_abs m ((q, port, ks) # qs) = (port, map (\<lambda>(k, b). dgram_at m k) ks) # ports_abs m qs"
  "ports_abs m (qs @ rs) = ports_abs m qs @ ports_abs m rs" "map fst (ports_abs m qs) = map (fst \<circ> snd) qs"
  by (auto simp: ports_abs_def)

section \<open>The operations on the structures\<close>

text \<open>The search returns the queue of the port, or null.\<close>

fun lookup_port :: "u16 \<Rightarrow> (addr \<times> u16 \<times> (addr \<times> addr) list) list \<Rightarrow> addr" where
  "lookup_port port [] = 0"
| "lookup_port port ((q, p, ks) # qs) = (if p = port then q else lookup_port port qs)"

lemma find_port_from_chain:
  "port_chain m p qs \<Longrightarrow> find_port_from m p port = Some (lookup_port port qs)"
proof (induction qs arbitrary: p)
  case Nil
  then show ?case by (subst find_port_from.simps) simp
next
  case (Cons e qs)
  obtain q port' ks where e: "e = (q, port', ks)" by (cases e)
  then show ?case using Cons by (subst find_port_from.simps) (simp add: is_queue_def)
qed

lemma lookup_port_zero:
  "port_chain m p qs \<Longrightarrow> lookup_port port qs = 0 \<longleftrightarrow> port \<notin> (fst \<circ> snd) ` set qs"
  by (induction qs arbitrary: p) (fastforce split: if_splits)+

lemma lookup_port_split:
  assumes "port_chain m p qs" "lookup_port port qs \<noteq> 0"
  obtains qs1 ks qs2 where "qs = qs1 @ (lookup_port port qs, port, ks) # qs2" "port \<notin> (fst \<circ> snd) ` set qs1"
  using assms
proof (induction qs arbitrary: p thesis)
  case (Cons e qs)
  obtain q port' ks where e: "e = (q, port', ks)" by (cases e)
  show ?case
  proof (cases "port' = port")
    case True
    then show ?thesis using Cons.prems(1) [of "[]" ks qs] e by simp
  next
    case False
    have ch: "port_chain m (ld64 m (pq_next q)) qs" and l: "lookup_port port (e # qs) = lookup_port port qs"
      using Cons.prems(2) False by (simp_all add: e)
    then obtain qs1 ks' qs2 where "qs = qs1 @ (lookup_port port qs, port, ks') # qs2" "port \<notin> (fst \<circ> snd) ` set qs1"
      using Cons.IH Cons.prems(3) by metis
    then show ?thesis using Cons.prems(1) [of "e # qs1" ks' qs2] l e False by simp
  qed
qed simp

text \<open>Writes to a queue page stay in it.\<close>

lemma queue_page_writes:
  assumes "page_aligned q" "aligned_set P" "q \<notin> P"
  shows "agree m (st64 m (pq_head q) v) P" "agree m (st64 m (pq_tail q) v) P" "agree m (st32 m (pq_count q) w) P"
    "agree m (st64 m (pq_next q) v) P" "agree m (st16 m (pq_port q) h) P" "agree m (st64 m (pkt_next q) v) P"
  using assms by (auto simp: queue_offsets intro!: agree_st64 [of q] agree_st32 [of q] agree_st16 [of q])

lemma pop_pkt_queue:
  assumes "is_queue m q port ((k, b) # ks)" "page_aligned q" "aligned_set (set (pkt_pages ((k, b) # ks)))"
    and "q \<notin> set (pkt_pages ((k, b) # ks))"
  obtains m' where "pop_pkt m q = (k, m')" "is_queue m' q port ks" "ld64 m' (pq_next q) = ld64 m (pq_next q)"
    "\<And>P. aligned_set P \<Longrightarrow> q \<notin> P \<Longrightarrow> agree m m' P"
proof -
  define h where "h = ld64 m (pkt_next k)"
  define m1 where "m1 = st64 m (pq_head q) h"
  define m2 where "m2 = (if h = 0 then st64 m1 (pq_tail q) 0 else m1)"
  define m3 where "m3 = st32 m2 (pq_count q) (ld32 m2 (pq_count q) - 1)"
  have k: "ld64 m (pq_head q) = k" and ch: "pkt_chain m h ks"
    and tl: "ld64 m (pq_tail q) = fst (last ((k, b) # ks))" and ct: "ld32 m (pq_count q) = of_nat (Suc (length ks))"
    and ln: "length ks \<le> 15" and po: "ld16 m (pq_port q) = port"
    using assms(1) by (simp_all add: is_queue_def h_def)
  have ag: "agree m m3 P" if P: "aligned_set P" "q \<notin> P" for P
  proof -
    note w = queue_page_writes [OF assms(2) P]
    have "agree m m1 P" unfolding m1_def by (rule w)
    moreover have "agree m1 m2 P" unfolding m2_def using w by simp
    moreover have "agree m2 m3 P" unfolding m3_def by (rule w)
    ultimately show ?thesis using agree_trans by blast
  qed
  have f2: "ld64 m2 (pq_head q) = h" "ld64 m2 (pq_tail q) = (if h = 0 then 0 else ld64 m (pq_tail q))"
    "ld32 m2 (pq_count q) = ld32 m (pq_count q)" "ld64 m2 (pq_next q) = ld64 m (pq_next q)"
    "ld16 m2 (pq_port q) = port"
    using po by (simp_all add: m2_def m1_def queue_offsets field_simps')
  have f3: "ld64 m3 (pq_head q) = h" "ld64 m3 (pq_tail q) = (if h = 0 then 0 else ld64 m (pq_tail q))"
    "ld32 m3 (pq_count q) = of_nat (length ks)" "ld64 m3 (pq_next q) = ld64 m (pq_next q)" "ld16 m3 (pq_port q) = port"
    using f2 ct by (simp_all add: m3_def queue_offsets field_simps')
  have h0: "h = 0 \<longleftrightarrow> ks = []" using ch by (cases ks) auto
  have "agree m m3 (set (pkt_pages ks))"
    using assms(3,4) by (intro ag) (auto simp: aligned_set_def)
  then have "pkt_chain m3 h ks" using ch pkt_chain_agree by blast
  then have "is_queue m3 q port ks" using f3 h0 tl ln by (simp add: is_queue_def)
  moreover have "pop_pkt m q = (k, m3)"
    by (simp add: pop_pkt_def Let_def k h_def [symmetric] m3_def m2_def m1_def ld64_st64_same)
  ultimately show ?thesis using that f3(4) ag by blast
qed

text \<open>A node for a received frame; the UDP header starts where the IP header's length field says.\<close>

lemma fill_pkt_node:
  fixes m :: memory
  assumes "page_aligned k" "page_aligned b" "k \<noteq> b" "udp = b + of_nat o'" "o' \<le> 74"
  defines "m' \<equiv> fill_pkt k b udp m"
  shows "pkt_fields m' k b" "ld64 m' (pkt_next k) = 0"
    "dgram_at m' k = \<lparr>d_src = ntohl (ld32 m (ip_src (b + of_nat sizeof_eth))), d_sport = ntohs (ld16 m (udp_sport udp)),
       d_len = ucast (ntohs (ld16 m (udp_ulen udp))) - 8, d_data = mread m (udp + 8) 1500\<rparr>"
    "\<And>P. aligned_set P \<Longrightarrow> k \<notin> P \<Longrightarrow> agree m m' P"
proof -
  define m0 where "m0 = mfill m k 0 4096"
  define v where "v = ld32 m (ip_src (b + of_nat sizeof_eth))"
  define m1 where "m1 = st64 m0 (pkt_fullbuf k) b"
  define m2 where "m2 = st64 m1 (pkt_payload k) (udp + 8)"
  define m3 where "m3 = st32 m2 (pkt_payload_len k) (ucast (ntohs (ld16 m (udp_ulen udp))) - 8)"
  define m4 where "m4 = st32 m3 (pkt_src_ip k) (ntohl v)"
  define m5 where "m5 = st16 m4 (pkt_src_port k) (ntohs (ld16 m (udp_sport udp)))"
  have ag0: "agree m m0 P" if "aligned_set P" "k \<notin> P" for P
    unfolding m0_def using assms(1) that by (intro agree_mfill [of k]) simp_all
  have ag3: "agree m m3 P" if P: "aligned_set P" "k \<notin> P" for P
  proof -
    have "agree m0 m1 P" "agree m1 m2 P" "agree m2 m3 P"
      unfolding m1_def m2_def m3_def using assms(1) P
      by (auto simp: queue_offsets intro!: agree_st64 [of k] agree_st32 [of k])
    then show ?thesis using ag0 [OF P] agree_trans by blast
  qed
  have "ld32 m3 (ip_src (b + of_nat sizeof_eth)) = v"
    unfolding v_def using assms(2,3)
    by (intro agree_ld32 [OF ag3, of "{b}" b]) (auto simp: aligned_set_def hdr_offsets sizeof_eth_def add.assoc)
  then have m': "m' = st64 m5 (pkt_next k) 0"
    by (simp add: m'_def fill_pkt_def Let_def memset_page m0_def m1_def m2_def m3_def m4_def m5_def sizeof_udp_def)
  show ag: "agree m m' P" if P: "aligned_set P" "k \<notin> P" for P
  proof -
    have "agree m3 m4 P" "agree m4 m5 P" "agree m5 m' P"
      unfolding m4_def m5_def m' using assms(1) P
      by (auto simp: queue_offsets intro!: agree_st64 [of k] agree_st32 [of k] agree_st16 [of k])
    then show ?thesis using ag3 [OF P] agree_trans by blast
  qed
  have f: "ld64 m' (pkt_fullbuf k) = b" "ld64 m' (pkt_payload k) = udp + 8" "ld64 m' (pkt_next k) = 0"
    "ld32 m' (pkt_payload_len k) = ucast (ntohs (ld16 m (udp_ulen udp))) - 8" "ld32 m' (pkt_src_ip k) = ntohl v"
    "ld16 m' (pkt_src_port k) = ntohs (ld16 m (udp_sport udp))"
    by (simp_all add: m' m5_def m4_def m3_def m2_def m1_def queue_offsets field_simps')
  have w: "within b (udp + 8) 1500"
  proof -
    have "udp + 8 - b = of_nat (o' + 8)" using assms(4) by simp
    moreover have "unat (of_nat (o' + 8) :: u64) = o' + 8" using assms(5) by (intro unat64_of_nat) simp
    ultimately show ?thesis using assms(5) unfolding within_def by (simp only:)
  qed
  show "pkt_fields m' k b" using f w by (simp add: pkt_fields_def)
  show "ld64 m' (pkt_next k) = 0" by (rule f)
  have "mread m' (udp + 8) 1500 = mread m (udp + 8) 1500"
    using assms(2,3) w by (intro agree_mread [OF ag, of "{b}" b]) (auto simp: aligned_set_def)
  then show "dgram_at m' k = \<lparr>d_src = ntohl (ld32 m (ip_src (b + of_nat sizeof_eth))), d_sport = ntohs (ld16 m (udp_sport udp)),
       d_len = ucast (ntohs (ld16 m (udp_ulen udp))) - 8, d_data = mread m (udp + 8) 1500\<rparr>"
    using f by (simp add: dgram_at_def v_def)
qed

text \<open>Appending a node to a chain: the link of the last node is set.\<close>

lemma pkt_fields_st_next: "pkt_fields (st64 m (pkt_next k) v) k b \<longleftrightarrow> pkt_fields m k b"
  by (simp add: pkt_fields_def queue_offsets field_simps')

lemma pkt_chain_snoc:
  assumes "pkt_chain m p ks" "ks \<noteq> []" "pkt_fields m k b" "k \<noteq> 0" "ld64 m (pkt_next k) = 0"
    and "distinct (pkt_pages ks @ [k])" "aligned_set (set (pkt_pages ks @ [k]))"
  shows "pkt_chain (st64 m (pkt_next (fst (last ks))) k) p (ks @ [(k, b)])"
  using assms(1,2,6,7)
proof (induction ks arbitrary: p)
  case (Cons jc ks)
  obtain j c where jc: "jc = (j, c)" by (cases jc)
  have al: "page_aligned j" "page_aligned k" using Cons.prems by (auto simp: jc aligned_set_def)
  show ?case
  proof (cases ks)
    case Nil
    let ?m = "st64 m (pkt_next j) k"
    have ag: "agree m ?m {k}" using Cons.prems al by (intro queue_page_writes) (auto simp: jc aligned_set_def)
    then have "pkt_fields ?m k b" "ld64 ?m (pkt_next k) = 0"
      using pkt_fields_agree [OF ag, of k b] agree_ld64 [OF ag, of k "pkt_next k"] assms(3,5) by (simp_all add: queue_offsets)
    then show ?thesis using Cons.prems(1) Nil assms(4) by (simp add: jc pkt_fields_st_next ld64_st64_same)
  next
    case (Cons e es)
    let ?l = "fst (last ks)"
    let ?m = "st64 m (pkt_next ?l) k"
    have l: "?l \<in> set (pkt_pages ks)" "last (jc # ks) = last ks"
      using Cons pkt_pages_mem [of ?l "snd (last ks)" ks] last_in_set [of ks] by auto
    have lj: "?l \<noteq> j" "page_aligned ?l" using Cons.prems(3,4) l(1) by (auto simp: jc aligned_set_def)
    have ag: "agree m ?m {j}" using lj al by (intro queue_page_writes) (auto simp: aligned_set_def)
    have "pkt_fields ?m j c" "ld64 ?m (pkt_next j) = ld64 m (pkt_next j)" "j \<noteq> 0"
      using pkt_fields_agree [OF ag, of j c] agree_ld64 [OF ag, of j "pkt_next j"] Cons.prems(1)
      by (simp_all add: jc queue_offsets)
    moreover have "pkt_chain ?m (ld64 m (pkt_next j)) (ks @ [(k, b)])"
      using Cons.IH [of "ld64 m (pkt_next j)"] Cons.prems Cons by (simp add: jc aligned_set_def)
    ultimately show ?thesis using Cons.prems(1) l(2) by (simp add: jc)
  qed
qed simp

lemma dgram_st_next:
  assumes "pkt_fields m k b" "page_aligned l" "page_aligned k" "page_aligned b" "l \<noteq> b"
  shows "dgram_at (st64 m (pkt_next l) v) k = dgram_at m k"
proof (cases "k = l")
  case True
  have "agree m (st64 m (pkt_next l) v) {b}" using assms by (intro queue_page_writes) (auto simp: aligned_set_def)
  then have "mread (st64 m (pkt_next l) v) (ld64 m (pkt_payload k)) 1500 = mread m (ld64 m (pkt_payload k)) 1500"
    using assms(1) by (intro agree_mread [of _ _ "{b}" b]) (simp_all add: pkt_fields_def)
  then show ?thesis using True by (simp add: dgram_at_def queue_offsets field_simps')
next
  case False
  have "agree m (st64 m (pkt_next l) v) {k, b}" using assms False by (intro queue_page_writes) (auto simp: aligned_set_def)
  then show ?thesis using assms(1) by (intro dgram_agree) auto
qed

lemma node_not_frame:
  assumes "(k, b) \<in> set ks" "distinct (pkt_pages ks)" "(j, c) \<in> set ks"
  shows "k \<noteq> c"
  using assms
proof (induction ks)
  case (Cons e ks)
  obtain k' b' where e: "e = (k', b')" by (cases e)
  show ?case using Cons pkt_pages_mem [of k b ks] pkt_pages_mem [of j c ks] by (auto simp: e)
qed simp

lemma push_pkt_queue:
  assumes "is_queue m q port ks" "length ks < 16" "pkt_fields m k b" "k \<noteq> 0" "ld64 m (pkt_next k) = 0"
    and "distinct (q # pkt_pages ks @ [k, b])" "aligned_set (set (q # pkt_pages ks @ [k, b]))"
  obtains m' where "push_pkt m q k = m'" "is_queue m' q port (ks @ [(k, b)])" "ld64 m' (pq_next q) = ld64 m (pq_next q)"
    "\<And>P. aligned_set P \<Longrightarrow> P \<inter> set (q # pkt_pages ks) = {} \<Longrightarrow> agree m m' P"
    "map (\<lambda>(k, b). dgram_at m' k) (ks @ [(k, b)]) = map (\<lambda>(k, b). dgram_at m k) (ks @ [(k, b)])"
proof -
  define l where "l = fst (last ks)"
  define m1 where "m1 = (if ks = [] then m else st64 m (pkt_next l) k)"
  define m2 where "m2 = st64 m1 (pq_tail q) k"
  define m3 where "m3 = (if ks = [] then st64 m2 (pq_head q) k else m2)"
  define m4 where "m4 = st32 m3 (pq_count q) (ld32 m3 (pq_count q) + 1)"
  have al: "page_aligned q" "page_aligned k" "page_aligned b" "aligned_set (set (pkt_pages ks))"
    using assms(7) by (auto simp: aligned_set_def)
  have lm: "l \<in> set (pkt_pages ks)" if "ks \<noteq> []"
    using that pkt_pages_mem [of l "snd (last ks)" ks] last_in_set [of ks] by (auto simp: l_def)
  then have la: "page_aligned l" "l \<noteq> q" if "ks \<noteq> []" using that al(4) assms(6) by (auto simp: aligned_set_def)
  have q: "ld16 m (pq_port q) = port" "pkt_chain m (ld64 m (pq_head q)) ks" "ld32 m (pq_count q) = of_nat (length ks)"
    "ld64 m (pq_tail q) = (if ks = [] then 0 else l)"
    using assms(1) by (simp_all add: is_queue_def l_def)
  have ag1: "agree m m1 P" if "aligned_set P" "P \<inter> set (pkt_pages ks) = {}" for P
    unfolding m1_def using lm la that by (auto intro!: queue_page_writes)
  have ag14: "agree m1 m4 P" if P: "aligned_set P" "q \<notin> P" for P
  proof -
    note w = queue_page_writes [OF al(1) P]
    have "agree m1 m2 P" "agree m2 m3 P" "agree m3 m4 P" unfolding m2_def m3_def m4_def using w by simp_all
    then show ?thesis using agree_trans by blast
  qed
  have ag: "agree m m4 P" if "aligned_set P" "P \<inter> set (q # pkt_pages ks) = {}" for P
    using ag1 [of P] ag14 [of P] that agree_trans by auto
  have ag1q: "agree m m1 {q}" using assms(6) al by (intro ag1) (auto simp: aligned_set_def)
  note f1 = queue_fields_agree [OF ag1q, of q, simplified]
  have f4: "ld16 m4 (pq_port q) = port" "ld64 m4 (pq_tail q) = k" "ld64 m4 (pq_next q) = ld64 m (pq_next q)"
    "ld64 m4 (pq_head q) = (if ks = [] then k else ld64 m (pq_head q))"
    "ld32 m4 (pq_count q) = of_nat (length ks) + 1"
    using f1 q by (simp_all add: m4_def m3_def m2_def queue_offsets field_simps')
  have push: "push_pkt m q k = m4"
  proof -
    have "ks \<noteq> [] \<Longrightarrow> l \<noteq> 0" using pkt_chain_fields [OF q(2), of l "snd (last ks)"] last_in_set [of ks] by (simp add: l_def)
    then show ?thesis using q(4) by (simp add: push_pkt_def Let_def m4_def m3_def m2_def m1_def)
  qed
  have ch: "pkt_chain m4 (ld64 m4 (pq_head q)) (ks @ [(k, b)])"
  proof -
    have "pkt_chain m1 (if ks = [] then k else ld64 m (pq_head q)) (ks @ [(k, b)])"
    proof (cases "ks = []")
      case True
      then show ?thesis using assms(3-5) by (simp add: m1_def)
    next
      case False
      have "distinct (pkt_pages ks @ [k])" "aligned_set (set (pkt_pages ks @ [k]))"
        using assms(6,7) by (auto simp: aligned_set_def)
      from pkt_chain_snoc [OF q(2) False assms(3-5) this] show ?thesis using False by (simp add: m1_def l_def)
    qed
    moreover have "agree m1 m4 (set (pkt_pages (ks @ [(k, b)])))"
      using assms(6,7) by (intro ag14) (auto simp: aligned_set_def)
    ultimately show ?thesis using f4(4) pkt_chain_agree by simp
  qed
  have "is_queue m4 q port (ks @ [(k, b)])" using f4 ch assms(2) by (simp add: is_queue_def)
  moreover have "map (\<lambda>(k, b). dgram_at m4 k) (ks @ [(k, b)]) = map (\<lambda>(k, b). dgram_at m k) (ks @ [(k, b)])"
  proof (rule map_cong [OF refl])
    fix jc
    assume h: "jc \<in> set (ks @ [(k, b)])"
    obtain j c where jc: "jc = (j, c)" by (cases jc)
    have fl: "pkt_fields m j c" using h pkt_chain_fields [OF q(2), of j c] assms(3) by (auto simp: jc)
    have mem: "j \<in> set (pkt_pages (ks @ [(k, b)]))" "c \<in> set (pkt_pages (ks @ [(k, b)]))"
      using h pkt_pages_mem [of j c "ks @ [(k, b)]"] by (auto simp: jc)
    then have pj: "page_aligned j" "page_aligned c" "j \<noteq> q" "c \<noteq> q"
      using assms(6,7) by (auto simp: aligned_set_def)
    have lc: "l \<noteq> c" if "ks \<noteq> []"
    proof
      assume e: "l = c"
      have "(l, snd (last ks)) \<in> set ks" using that last_in_set [of ks] by (simp add: l_def)
      moreover have "distinct (pkt_pages (ks @ [(k, b)]))" using assms(6) by auto
      ultimately show False using h e node_not_frame [of l "snd (last ks)" "ks @ [(k, b)]" j] by (auto simp: jc)
    qed
    have "dgram_at m1 j = dgram_at m j"
      unfolding m1_def using dgram_st_next [OF fl] la lc pj by simp
    moreover have "dgram_at m4 j = dgram_at m1 j"
    proof (rule dgram_agree)
      show "agree m1 m4 {j, c}" using pj by (intro ag14) (auto simp: aligned_set_def)
      show "pkt_fields m1 j c"
        using fl la lc pj pkt_fields_st_next [of m j k c] pkt_fields_agree [of m m1 "{j}" j c] queue_page_writes(6) [of l "{j}" m k]
        by (cases "l = j") (auto simp: m1_def aligned_set_def)
    qed simp_all
    ultimately show "(case jc of (k, b) \<Rightarrow> dgram_at m4 k) = (case jc of (k, b) \<Rightarrow> dgram_at m k)" by (simp add: jc)
  qed
  ultimately show ?thesis using that push f4(3) ag by blast
qed

end
