(* ===== verification/NetInv.thy ===== *)
theory NetInv
  imports Nic Ports
begin

text \<open>
  Ownership of pages in the network code. In a state between operations every page that the code
  deals with is in exactly one place: on the free list, in the transmit ring, in the receive ring,
  or in a port queue as the queue itself, a packet node or a received frame. Pages that belong to
  others, or are held by the operation that runs, form a set \<open>R\<close>.
\<close>

section \<open>States between operations\<close>

text \<open>No lock is held and the CPU's nesting is settled.\<close>

definition quiet :: "'z kstate_scheme \<Rightarrow> bool" where
  "quiet s \<longleftrightarrow> locks s = (\<lambda>_. free_lock) \<and> settled (cpu_st s)"

text \<open>The same state inside a critical section.\<close>

definition lk :: "lockname \<Rightarrow> 'z kstate_scheme \<Rightarrow> 'z kstate_scheme" where
  "lk l s = s\<lparr>cpu_st := pushcli (cpu_st s), locks := (locks s)(l := held_lock (cpuid s))\<rparr>"

lemma acquire_lk: "locks s l = free_lock \<Longrightarrow> k_acquire l s = Some (lk l s)"
  by (simp add: k_acquire_free lk_def)

lemma release_lk:
  assumes "locks s l = free_lock" "settled (cpu_st s)"
  shows "k_release l (lk l s) = Some s"
proof -
  have "k_release l (lk l s) = Some ((lk l s)\<lparr>cpu_st := cpu_st s, locks := locks s\<rparr>)"
    by (rule k_release_held) (use assms in \<open>simp_all add: lk_def\<close>)
  then show ?thesis by (simp add: lk_def)
qed

lemma quietD: "quiet s \<Longrightarrow> locks s l = free_lock" "quiet s \<Longrightarrow> settled (cpu_st s)"
  by (simp_all add: quiet_def)

lemma lk_simps [simp]:
  "settled (cpu_st (lk l s)) \<longleftrightarrow> settled (pushcli (cpu_st s))" "locks (lk l s) l' = (if l' = l then held_lock (cpuid s) else locks s l')"
  "cpuid (lk l s) = cpuid s" "cpu_st (lk l s) = pushcli (cpu_st s)"
  by (auto simp: lk_def)

lemma lk_fields [simp]:
  "mem (lk l s) = mem s" "freelist (lk l s) = freelist s" "use_lock (lk l s) = use_lock s" "kend (lk l s) = kend s"
  for s :: "'z kmem_scheme"
  by (simp_all add: lk_def)

lemma lk_net_fields [simp]:
  "ptable (lk l s) = ptable s" "curproc (lk l s) = curproc s" "regs (lk l s) = regs s"
  "tx_ring (lk l s) = tx_ring s" "rx_ring (lk l s) = rx_ring s" "tx_bufs (lk l s) = tx_bufs s" "rx_bufs (lk l s) = rx_bufs s"
  "port_list (lk l s) = port_list s" "seen_ip (lk l s) = seen_ip s" "seen_arp (lk l s) = seen_arp s" "recv_locals (lk l s) = recv_locals s"
  for s :: "'z net_scheme"
  by (simp_all add: lk_def)

lemma lk_upd [simp]:
  "(lk l s)\<lparr>mem := m\<rparr> = lk l (s\<lparr>mem := m\<rparr>)" "(lk l s)\<lparr>freelist := f\<rparr> = lk l (s\<lparr>freelist := f\<rparr>)"
  for s :: "'z kmem_scheme"
  by (simp_all add: lk_def)

lemma lk_net_upd [simp]:
  "(lk l s)\<lparr>port_list := p\<rparr> = lk l (s\<lparr>port_list := p\<rparr>)" "(lk l s)\<lparr>tx_ring := tr\<rparr> = lk l (s\<lparr>tx_ring := tr\<rparr>)"
  "(lk l s)\<lparr>rx_ring := rr\<rparr> = lk l (s\<lparr>rx_ring := rr\<rparr>)" "(lk l s)\<lparr>tx_bufs := tb\<rparr> = lk l (s\<lparr>tx_bufs := tb\<rparr>)"
  "(lk l s)\<lparr>regs := rg\<rparr> = lk l (s\<lparr>regs := rg\<rparr>)" "(lk l s)\<lparr>ptable := pt\<rparr> = lk l (s\<lparr>ptable := pt\<rparr>)"
  for s :: "'z net_scheme"
  by (simp_all add: lk_def)

lemma set_reg_lk [simp]: "set_reg r v (lk l s) = lk l (set_reg r v s)"
  by (simp add: set_reg_def lk_def)

text \<open>The allocator and \<open>wakeup\<close> work alike inside a critical section of another lock.\<close>

lemma lockable_lk: "kmem_lockable s \<Longrightarrow> settled (cpu_st s) \<Longrightarrow> l \<noteq> Kmem_lock \<Longrightarrow> kmem_lockable (lk l s)"
  by (auto simp: kmem_lockable_def settled_pushcli)

lemma kalloc_lk:
  assumes "kmem_lockable s" "settled (cpu_st s)" "l \<noteq> Kmem_lock"
  shows "kalloc (lk l s) = Some (freelist s, lk l (if freelist s = 0 then s else s\<lparr>freelist := ld64 (mem s) (freelist s)\<rparr>))"
  using kalloc_eq [OF lockable_lk [OF assms]] by simp

lemma kfree_lk:
  assumes "kmem_lockable s" "settled (cpu_st s)" "l \<noteq> Kmem_lock" "valid_page (kend s) v"
  shows "kfree v (lk l s) = Some (lk l (push_page v s))"
  using kfree_eq [OF lockable_lk [OF assms(1-3)]] assms(4) by (simp add: push_page_def)

lemma wakeup_lk:
  assumes "quiet s" "l \<noteq> Ptable_lock"
  shows "wakeup ch (lk l s) = Some (lk l (wakeup1 ch s))"
proof -
  have "wakeup ch (lk l s) = k_release Ptable_lock (wakeup1 ch (lk Ptable_lock (lk l s)))"
    using assms by (simp add: wakeup_def acquire_lk quietD)
  moreover have "wakeup1 ch (lk Ptable_lock (lk l s)) = lk Ptable_lock (lk l (wakeup1 ch s))"
    by (simp add: wakeup1_def lk_def)
  moreover have "locks (wakeup1 ch s) = locks s" "cpu_st (wakeup1 ch s) = cpu_st s" by (simp_all add: wakeup1_def)
  ultimately show ?thesis using assms by (simp add: release_lk quietD settled_pushcli)
qed

section \<open>The invariant\<close>

definition tx_pages :: "'z e1000_scheme \<Rightarrow> addr list" where
  "tx_pages s = filter (\<lambda>p. p \<noteq> 0) (tx_bufs s)"

definition nic_wf :: "'z e1000_scheme \<Rightarrow> bool" where
  "nic_wf s \<longleftrightarrow> length (tx_ring s) = TX_RING_SIZE \<and> length (tx_bufs s) = TX_RING_SIZE \<and>
     length (rx_ring s) = RX_RING_SIZE \<and> length (rx_bufs s) = RX_RING_SIZE \<and>
     (\<forall>i < TX_RING_SIZE. tx_status (tx_ring s ! i) AND E1000_TXD_STAT_DD = 0 \<longrightarrow> tx_bufs s ! i \<noteq> 0) \<and>
     (\<forall>i < TX_RING_SIZE. tx_bufs s ! i \<noteq> 0 \<longrightarrow> tx_addr (tx_ring s ! i) = V2P (tx_bufs s ! i)) \<and>
     (\<forall>i < RX_RING_SIZE. rx_addr (rx_ring s ! i) = V2P (rx_bufs s ! i)) \<and>
     unat (regs s E1000_TDH) < TX_RING_SIZE \<and> unat (regs s E1000_RDH) < RX_RING_SIZE \<and> unat (regs s E1000_RDT) < RX_RING_SIZE"

definition owned :: "'z e1000_scheme \<Rightarrow> (addr \<times> u16 \<times> (addr \<times> addr) list) list \<Rightarrow> addr list" where
  "owned s qs = pages_of qs @ tx_pages s @ rx_bufs s"

definition net_inv ::
    "'z net_scheme \<Rightarrow> addr list \<Rightarrow> (addr \<times> u16 \<times> (addr \<times> addr) list) list \<Rightarrow> addr set \<Rightarrow> bool" where
  "net_inv s ps qs R \<longleftrightarrow> kmem_wf s ps \<and> nic_wf s \<and> port_chain (mem s) (port_list s) qs \<and>
     distinct (map (fst \<circ> snd) qs) \<and> distinct (ps @ owned s qs) \<and>
     list_all (valid_page (kend s)) (owned s qs) \<and> aligned_set R \<and> set (ps @ owned s qs) \<inter> R = {}"

text \<open>All pages that the network code and the allocator hold.\<close>

definition net_pages :: "'z e1000_scheme \<Rightarrow> addr list \<Rightarrow> (addr \<times> u16 \<times> (addr \<times> addr) list) list \<Rightarrow> addr set" where
  "net_pages s ps qs = set ps \<union> set (owned s qs)"

lemma owned_upd [simp]:
  "owned (s\<lparr>mem := m\<rparr>) qs = owned s qs" "owned (s\<lparr>freelist := f\<rparr>) qs = owned s qs" "owned (push_page p s) qs = owned s qs"
  "owned (s\<lparr>rx_ring := rr\<rparr>) qs = owned s qs" "owned (s\<lparr>tx_ring := tr\<rparr>) qs = owned s qs" "owned (set_reg r v s) qs = owned s qs"
  "owned (cprintf fmt as s) qs = owned s qs" "owned (upd_proc me g s) qs = owned s qs" "owned (wakeup1 ch s) qs = owned s qs"
  by (simp_all add: owned_def tx_pages_def push_page_def set_reg_def cprintf_def upd_proc_def wakeup1_def)

lemma net_pages_upd [simp]:
  "net_pages (s\<lparr>mem := m\<rparr>) ps qs = net_pages s ps qs" "net_pages (s\<lparr>freelist := f\<rparr>) ps qs = net_pages s ps qs"
  "net_pages (push_page p s) ps qs = net_pages s ps qs" "net_pages (s\<lparr>rx_ring := rr\<rparr>) ps qs = net_pages s ps qs"
  "net_pages (s\<lparr>tx_ring := tr\<rparr>) ps qs = net_pages s ps qs" "net_pages (set_reg r v s) ps qs = net_pages s ps qs"
  "net_pages (cprintf fmt as s) ps qs = net_pages s ps qs" "net_pages (upd_proc me g s) ps qs = net_pages s ps qs"
  "net_pages (wakeup1 ch s) ps qs = net_pages s ps qs" "net_pages s (p # ps) qs = insert p (net_pages s ps qs)"
  by (simp_all add: net_pages_def)

lemma net_inv_wf: "net_inv s ps qs R \<Longrightarrow> kmem_wf s ps" "net_inv s ps qs R \<Longrightarrow> kmem_lockable s"
  "net_inv s ps qs R \<Longrightarrow> nic_wf s" "net_inv s ps qs R \<Longrightarrow> port_chain (mem s) (port_list s) qs"
  "net_inv s ps qs R \<Longrightarrow> KERNBASE \<le> kend s"
  by (simp_all add: net_inv_def kmem_wf_def)

text \<open>Only the fields that the invariant speaks of matter.\<close>

lemma net_inv_cong:
  assumes "net_inv s ps qs R" "mem t = mem s" "freelist t = freelist s" "use_lock t = use_lock s" "kend t = kend s"
    "port_list t = port_list s" "tx_ring t = tx_ring s" "rx_ring t = rx_ring s" "tx_bufs t = tx_bufs s" "rx_bufs t = rx_bufs s"
    "regs t = regs s" "kmem_lockable t"
  shows "net_inv t ps qs R"
  using assms by (simp add: net_inv_def kmem_wf_def nic_wf_def owned_def tx_pages_def)

text \<open>What the handlers of received frames leave alone of the receive ring.\<close>

definition same_rx :: "'z net_scheme \<Rightarrow> 'z net_scheme \<Rightarrow> bool" where
  "same_rx s s' \<longleftrightarrow> rx_ring s' = rx_ring s \<and> regs s' E1000_RDT = regs s E1000_RDT \<and> regs s' E1000_RDH = regs s E1000_RDH \<and>
     kend s' = kend s \<and> (seen_arp s \<longrightarrow> seen_arp s')"

lemma same_rx_refl [simp]: "same_rx s s"
  by (simp add: same_rx_def)

lemma same_rx_trans: "same_rx s t \<Longrightarrow> same_rx t u \<Longrightarrow> same_rx s u"
  by (auto simp: same_rx_def)

lemma same_rx_upd [simp]:
  "same_rx s (t\<lparr>mem := m\<rparr>) = same_rx s t" "same_rx s (t\<lparr>freelist := f\<rparr>) = same_rx s t" "same_rx s (push_page p t) = same_rx s t"
  "same_rx s (cprintf f' as t) = same_rx s t" "same_rx s (upd_proc me g t) = same_rx s t" "same_rx s (wakeup1 ch t) = same_rx s t"
  "same_rx s (t\<lparr>port_list := q\<rparr>) = same_rx s t"
  by (simp_all add: same_rx_def push_page_def cprintf_def upd_proc_def wakeup1_def)

text \<open>The reply to the first ARP frame is the only page that can be lost.\<close>

definition lost_page :: "'z net_scheme \<Rightarrow> 'z net_scheme \<Rightarrow> addr set \<Rightarrow> bool" where
  "lost_page s s' L \<longleftrightarrow> L = {} \<or> (\<exists>b. L = {b}) \<and> \<not> seen_arp s \<and> seen_arp s'"

lemma lost_page_none [simp]: "lost_page s s' {}"
  by (simp add: lost_page_def)

lemma lost_page_trans:
  "lost_page s s1 L1 \<Longrightarrow> lost_page s1 s2 L2 \<Longrightarrow> same_rx s s1 \<Longrightarrow> same_rx s1 s2 \<Longrightarrow> lost_page s s2 (L1 \<union> L2)"
  by (auto simp: lost_page_def same_rx_def)

lemma lockable_quiet: "quiet s \<Longrightarrow> kmem_lockable s"
  by (simp add: quiet_def kmem_lockable_def)

lemma quiet_upd [simp]:
  "quiet (s\<lparr>mem := m\<rparr>) = quiet s" "quiet (s\<lparr>freelist := f\<rparr>) = quiet s" for s :: "'z kmem_scheme"
  by (simp_all add: quiet_def)

lemma quiet_net_upd [simp]:
  "quiet (s\<lparr>port_list := p\<rparr>) = quiet s" "quiet (s\<lparr>tx_ring := tr\<rparr>) = quiet s" "quiet (s\<lparr>rx_ring := rr\<rparr>) = quiet s"
  "quiet (s\<lparr>tx_bufs := tb\<rparr>) = quiet s" "quiet (s\<lparr>regs := rg\<rparr>) = quiet s" "quiet (s\<lparr>ptable := pt\<rparr>) = quiet s"
  "quiet (s\<lparr>seen_ip := b\<rparr>) = quiet s" "quiet (s\<lparr>seen_arp := b\<rparr>) = quiet s" "quiet (cprintf f as s) = quiet s"
  "quiet (set_reg r v s) = quiet s" "quiet (push_page p s) = quiet s" "quiet (wakeup1 ch s) = quiet s"
  for s :: "'z net_scheme"
  by (simp_all add: quiet_def cprintf_def set_reg_def push_page_def wakeup1_def)

lemma net_inv_pages:
  assumes "net_inv s ps qs R"
  shows "aligned_set (set (pages_of qs))" "aligned_set (set ps)" "set ps \<inter> set (pages_of qs) = {}"
    "set ps \<inter> R = {}" "set (pages_of qs) \<inter> R = {}" "distinct (pages_of qs)"
    "list_all (valid_page (kend s)) (pages_of qs)"
  using assms by (auto simp: net_inv_def owned_def list_all_iff aligned_set_def valid_page_def kmem_wf_def)

text \<open>Memory outside the free pages and the queues may change.\<close>

lemma net_inv_mem:
  assumes "net_inv s ps qs R" "agree (mem s) m' (set ps \<union> set (pages_of qs))"
  shows "net_inv (s\<lparr>mem := m'\<rparr>) ps qs R" "ports_abs m' qs = ports_abs (mem s) qs"
proof -
  have a: "agree (mem s) m' (set ps)" "agree (mem s) m' (set (pages_of qs))"
    using assms(2) by (simp_all add: agree_Un)
  then show "net_inv (s\<lparr>mem := m'\<rparr>) ps qs R"
    using assms(1) kmem_wf_agree [of s ps m'] port_chain_agree [OF a(2)]
    by (simp add: net_inv_def nic_wf_def owned_def tx_pages_def)
  show "ports_abs m' qs = ports_abs (mem s) qs"
    using net_inv_wf(4) [OF assms(1)] a(2) by (rule ports_abs_agree)
qed

lemma valid_page_bound:
  assumes "KERNBASE \<le> e" "valid_page e p"
  shows "unat p < 2 ^ 64 - 8192" "page_aligned p" "p \<noteq> 0"
  using assms kernel_page_bound [of p] valid_page_nonzero by (auto simp: valid_page_def)

text \<open>Taking a page from the free list, and giving one back.\<close>

lemma net_inv_kalloc:
  assumes "net_inv s (p # ps) qs R"
  shows "kalloc s = Some (p, s\<lparr>freelist := ld64 (mem s) p\<rparr>)"
    "net_inv (s\<lparr>freelist := ld64 (mem s) p\<rparr>) ps qs (insert p R)" "valid_page (kend s) p" "p \<notin> R"
    "freelist s = p"
proof -
  note w = net_inv_wf(1) [OF assms]
  show "kalloc s = Some (p, s\<lparr>freelist := ld64 (mem s) p\<rparr>)" by (rule kalloc_pop(1) [OF w])
  show v: "valid_page (kend s) p" and "freelist s = p" using w by (simp_all add: kmem_wf_def)
  show "p \<notin> R" using assms by (auto simp: net_inv_def)
  show "net_inv (s\<lparr>freelist := ld64 (mem s) p\<rparr>) ps qs (insert p R)"
    using assms kalloc_pop(2) [OF w] v
    by (auto simp: net_inv_def nic_wf_def owned_def tx_pages_def aligned_set_def valid_page_def)
qed

lemma net_inv_empty: "net_inv s [] qs R \<Longrightarrow> freelist s = 0" "net_inv s [] qs R \<Longrightarrow> kalloc s = Some (0, s)"
  using kalloc_empty [of s] by (simp_all add: net_inv_def kmem_wf_def)

lemma net_inv_kfree:
  assumes "net_inv s ps qs (insert b R)" "valid_page (kend s) b" "b \<notin> R"
  shows "kfree b s = Some (push_page b s)" "net_inv (push_page b s) (b # ps) qs R"
    "ports_abs (mem (push_page b s)) qs = ports_abs (mem s) qs"
proof -
  note w = net_inv_wf(1,2) [OF assms(1)]
  have b: "b \<notin> set ps" "b \<notin> set (owned s qs)" "page_aligned b" using assms(1,2) by (auto simp: net_inv_def valid_page_def)
  show "kfree b s = Some (push_page b s)" using kfree_eq [OF w(2) assms(2)] by (simp add: push_page_def)
  have ag: "agree (mem s) (mem (push_page b s)) (set (pages_of qs))"
    using b net_inv_pages [OF assms(1)] by (simp add: push_page_def) (intro kfree_agree, auto simp: owned_def)
  show "ports_abs (mem (push_page b s)) qs = ports_abs (mem s) qs"
    using net_inv_wf(4) [OF assms(1)] ag by (rule ports_abs_agree)
  have "kmem_wf (push_page b s) (b # ps)" unfolding push_page_def using w(1) assms(2) b(1) by (rule kfree_push)
  moreover have "port_chain (mem (push_page b s)) (port_list (push_page b s)) qs"
    using net_inv_wf(4) [OF assms(1)] port_chain_agree [OF ag] by (simp add: push_page_def)
  ultimately show "net_inv (push_page b s) (b # ps) qs R"
    using assms(1,3) b
    by (auto simp: net_inv_def nic_wf_def owned_def tx_pages_def push_page_def aligned_set_def)
qed

end
