(* ===== verification/NetOps.thy ===== *)
theory NetOps
  imports NetInv
begin

text \<open>
  Each operation of the network code from a state between operations: what it returns, that it keeps
  the ownership of pages, and what it does to the queued datagrams.
\<close>

section \<open>Transmit\<close>

definition tx_free :: "nat \<Rightarrow> 'z e1000_scheme \<Rightarrow> 'z e1000_scheme" where
  "tx_free t s = (if tx_bufs s ! t \<noteq> 0 then push_page (tx_bufs s ! t) s else s)"

definition tx_put :: "nat \<Rightarrow> addr \<Rightarrow> u32 \<Rightarrow> 'z e1000_scheme \<Rightarrow> 'z e1000_scheme" where
  "tx_put t buf len s = set_reg E1000_TDT (of_nat ((t + 1) mod TX_RING_SIZE))
     (s\<lparr>tx_ring := (tx_ring s)[t := (tx_ring s ! t)\<lparr>tx_addr := V2P buf, tx_length := ucast len,
            tx_cmd := E1000_TXD_CMD_EOP OR E1000_TXD_CMD_RS, tx_status := 0\<rparr>],
        tx_bufs := (tx_bufs s)[t := buf]\<rparr>)"

lemma tx_tail_less: "tx_tail s < TX_RING_SIZE"
  by (simp add: tx_tail_def TX_RING_SIZE_def unat_mod_distrib)

definition pc :: "'z kstate_scheme \<Rightarrow> 'z kstate_scheme" where
  "pc s = s\<lparr>cpu_st := pushcli (cpu_st s)\<rparr>"

lemma pc_simps [simp]:
  "locks (pc s) = locks s" "cpuid (pc s) = cpuid s" "cpu_st (pc s) = pushcli (cpu_st s)" by (simp_all add: pc_def)

lemma pc_fields [simp]:
  "tx_tail (pc s) = tx_tail s" "tx_ring (pc s) = tx_ring s" "tx_bufs (pc s) = tx_bufs s" "kend (pc s) = kend s"
  "push_page p (pc s) = pc (push_page p s)" "tx_free t (pc s) = pc (tx_free t s)" "tx_put t buf len (pc s) = pc (tx_put t buf len s)"
  for s :: "'z e1000_scheme"
  by (simp_all add: pc_def tx_tail_def push_page_def tx_free_def tx_put_def set_reg_def)

lemma lk_tx [simp]:
  "tx_tail (lk l s) = tx_tail s" "tx_bufs (lk l s) = tx_bufs s" "tx_ring (lk l s) = tx_ring s" "regs (lk l s) = regs s"
  for s :: "'z e1000_scheme"
  by (simp_all add: lk_def tx_tail_def)

lemma lk_tx_upd [simp]:
  "(lk l s)\<lparr>tx_ring := tr\<rparr> = lk l (s\<lparr>tx_ring := tr\<rparr>)" "(lk l s)\<lparr>tx_bufs := tb\<rparr> = lk l (s\<lparr>tx_bufs := tb\<rparr>)"
  for s :: "'z e1000_scheme"
  by (simp_all add: lk_def)

lemma push_page_keeps [simp]:
  "tx_ring (push_page p s) = tx_ring s" "tx_bufs (push_page p s) = tx_bufs s" "regs (push_page p s) = regs s"
  "locks (push_page p s) = locks s" "cpu_st (push_page p s) = cpu_st s" "cpuid (push_page p s) = cpuid s"
  for s :: "'z e1000_scheme"
  by (simp_all add: push_page_def)

lemma popcli_pc: "settled (cpu_st s) \<Longrightarrow> k_popcli (pc s) = Some s"
  by (simp add: k_popcli_def pc_def popcli_pushcli)

lemma transmit_eq:
  assumes "quiet s" "kmem_lockable s" "tx_bufs s ! tx_tail s \<noteq> 0 \<Longrightarrow> valid_page (kend s) (tx_bufs s ! tx_tail s)"
  shows "e1000_transmit buf len s =
    (if tx_status (tx_ring s ! tx_tail s) AND E1000_TXD_STAT_DD = 0 then Some (-1, s)
     else Some (0, tx_put (tx_tail s) buf len (tx_free (tx_tail s) s)))"
proof -
  let ?t = "tx_tail s"
  have q: "locks s l = free_lock" "settled (cpu_st s)" "settled (pushcli (cpu_st s))" for l
    using assms(1) by (simp_all add: quietD settled_pushcli)
  have pl: "kmem_lockable (pc s)" using q by (simp add: kmem_lockable_def)
  have acq: "k_acquire E1000_lock (k_pushcli s) = Some (lk E1000_lock (pc s))"
    using q acquire_lk [of "pc s" E1000_lock] by (simp add: k_pushcli_def pc_def)
  have fr: "kfree (tx_bufs s ! ?t) (lk E1000_lock (pc s)) = Some (lk E1000_lock (pc (tx_free ?t s)))" if "tx_bufs s ! ?t \<noteq> 0"
    using kfree_lk [OF pl, of E1000_lock] assms(3) q that by (simp add: tx_free_def)
  have nf: "tx_free ?t s = s" if "tx_bufs s ! ?t = 0" using that by (simp add: tx_free_def)
  have rel: "k_release E1000_lock (lk E1000_lock (pc u)) = Some (pc u)" if "locks u = locks s" "cpu_st u = cpu_st s"
    for u :: "'a e1000_scheme" using that q by (intro release_lk) simp_all
  have put: "set_reg E1000_TDT (of_nat ((?t + 1) mod TX_RING_SIZE))
      (lk E1000_lock ((pc (tx_free ?t s))\<lparr>tx_ring := (tx_ring (tx_free ?t s))[?t := (tx_ring (tx_free ?t s) ! ?t)\<lparr>tx_addr := V2P buf, tx_length := ucast len,
            tx_cmd := E1000_TXD_CMD_EOP OR E1000_TXD_CMD_RS, tx_status := 0\<rparr>], tx_bufs := (tx_bufs (tx_free ?t s))[?t := buf]\<rparr>)) =
      lk E1000_lock (pc (tx_put ?t buf len (tx_free ?t s)))"
    by (simp add: tx_put_def set_reg_def pc_def lk_def)
  have u: "locks (tx_put ?t buf len (tx_free ?t s)) = locks s" "cpu_st (tx_put ?t buf len (tx_free ?t s)) = cpu_st s"
    by (simp_all add: tx_put_def tx_free_def set_reg_def)
  show ?thesis
  proof (cases "tx_status (tx_ring s ! ?t) AND E1000_TXD_STAT_DD = 0")
    case True
    then show ?thesis using rel [of s] popcli_pc [of s] q by (simp add: e1000_transmit_def Let_def acq)
  next
    case False
    then have "e1000_transmit buf len s = do {
        s \<leftarrow> k_release E1000_lock (lk E1000_lock (pc (tx_put ?t buf len (tx_free ?t s))));
        s \<leftarrow> k_popcli s; Some (0, s) }"
      using fr nf put [symmetric]
      by (cases "tx_bufs s ! ?t = 0") (simp_all add: e1000_transmit_def Let_def acq del: set_reg_lk)
    then show ?thesis using False rel [OF u] popcli_pc [of "tx_put ?t buf len (tx_free ?t s)"] q u by simp
  qed
qed

lemma nth_update_pages:
  assumes "t < length bs" "b \<noteq> (0 :: addr)" "bs ! t = old"
  shows "set (filter (\<lambda>p. p \<noteq> 0) (bs[t := b])) = insert b (set (filter (\<lambda>p. p \<noteq> 0) (take t bs @ drop (Suc t) bs)))"
    and "distinct (filter (\<lambda>p. p \<noteq> 0) bs) \<Longrightarrow> b \<notin> set bs \<Longrightarrow> distinct (filter (\<lambda>p. p \<noteq> 0) (bs[t := b]))"
    and "distinct (filter (\<lambda>p. p \<noteq> 0) bs) \<Longrightarrow>
      set (filter (\<lambda>p. p \<noteq> 0) (take t bs @ drop (Suc t) bs)) = set (filter (\<lambda>p. p \<noteq> 0) bs) - {old}"
proof -
  have e: "bs[t := b] = take t bs @ b # drop (Suc t) bs" using assms(1) by (rule upd_conv_take_nth_drop)
  have s: "bs = take t bs @ old # drop (Suc t) bs" using id_take_nth_drop [OF assms(1)] assms(3) by simp
  show "set (filter (\<lambda>p. p \<noteq> 0) (bs[t := b])) = insert b (set (filter (\<lambda>p. p \<noteq> 0) (take t bs @ drop (Suc t) bs)))"
    using assms(2) by (auto simp: e)
  show "distinct (filter (\<lambda>p. p \<noteq> 0) (bs[t := b]))" if "distinct (filter (\<lambda>p. p \<noteq> 0) bs)" "b \<notin> set bs"
  proof -
    have "distinct (filter (\<lambda>p. p \<noteq> 0) (take t bs @ old # drop (Suc t) bs))" "b \<notin> set (take t bs @ old # drop (Suc t) bs)"
      using that s by simp_all
    then show ?thesis by (auto simp: e split: if_splits)
  qed
  show "set (filter (\<lambda>p. p \<noteq> 0) (take t bs @ drop (Suc t) bs)) = set (filter (\<lambda>p. p \<noteq> 0) bs) - {old}"
    if "distinct (filter (\<lambda>p. p \<noteq> 0) bs)"
  proof -
    have "distinct (filter (\<lambda>p. p \<noteq> 0) (take t bs @ old # drop (Suc t) bs))" using that s by simp
    then have "set (filter (\<lambda>p. p \<noteq> 0) (take t bs @ drop (Suc t) bs)) =
        set (filter (\<lambda>p. p \<noteq> 0) (take t bs @ old # drop (Suc t) bs)) - {old}"
      by (auto split: if_splits)
    then show ?thesis using s by simp
  qed
qed

text \<open>Emptying a finished slot, and filling an empty one.\<close>

lemma tx_slot_zero:
  fixes bs :: "addr list"
  assumes "t < length bs"
  shows "set (filter (\<lambda>p. p \<noteq> 0) (bs[t := 0])) \<subseteq> set (filter (\<lambda>p. p \<noteq> 0) bs)"
    and "bs ! t \<noteq> 0 \<Longrightarrow> insert (bs ! t) (set (filter (\<lambda>p. p \<noteq> 0) (bs[t := 0]))) = set (filter (\<lambda>p. p \<noteq> 0) bs)"
    and "distinct (filter (\<lambda>p. p \<noteq> 0) bs) \<Longrightarrow> distinct (filter (\<lambda>p. p \<noteq> 0) (bs[t := 0])) \<and>
      (bs ! t \<noteq> 0 \<longrightarrow> bs ! t \<notin> set (filter (\<lambda>p. p \<noteq> 0) (bs[t := 0])))"
proof -
  have e: "bs[t := 0] = take t bs @ 0 # drop (Suc t) bs" using assms by (rule upd_conv_take_nth_drop)
  have s: "bs = take t bs @ bs ! t # drop (Suc t) bs" using assms by (rule id_take_nth_drop)
  show "set (filter (\<lambda>p. p \<noteq> 0) (bs[t := 0])) \<subseteq> set (filter (\<lambda>p. p \<noteq> 0) bs)"
    by (auto simp: e dest: in_set_takeD in_set_dropD)
  show "insert (bs ! t) (set (filter (\<lambda>p. p \<noteq> 0) (bs[t := 0]))) = set (filter (\<lambda>p. p \<noteq> 0) bs)" if "bs ! t \<noteq> 0"
    unfolding e arg_cong [OF s, of "\<lambda>xs. set (filter (\<lambda>p. p \<noteq> 0) xs)"] using that by auto
  assume "distinct (filter (\<lambda>p. p \<noteq> 0) bs)"
  then have "distinct (filter (\<lambda>p. p \<noteq> 0) (take t bs @ bs ! t # drop (Suc t) bs))" using s by simp
  then show "distinct (filter (\<lambda>p. p \<noteq> 0) (bs[t := 0])) \<and>
      (bs ! t \<noteq> 0 \<longrightarrow> bs ! t \<notin> set (filter (\<lambda>p. p \<noteq> 0) (bs[t := 0])))"
    by (auto simp: e split: if_splits)
qed

lemma tx_empty_slot:
  assumes "net_inv s ps qs R" "t < TX_RING_SIZE" "tx_status (tx_ring s ! t) AND E1000_TXD_STAT_DD \<noteq> 0" "tx_bufs s ! t \<noteq> 0"
  shows "net_inv (s\<lparr>tx_bufs := (tx_bufs s)[t := 0]\<rparr>) ps qs (insert (tx_bufs s ! t) R)"
    "valid_page (kend s) (tx_bufs s ! t)" "tx_bufs s ! t \<notin> R"
    "insert (tx_bufs s ! t) (net_pages (s\<lparr>tx_bufs := (tx_bufs s)[t := 0]\<rparr>) ps qs) = net_pages s ps qs"
proof -
  let ?b = "tx_bufs s ! t"
  have len: "t < length (tx_bufs s)" using assms(1,2) by (simp add: net_inv_def nic_wf_def)
  have d: "distinct (filter (\<lambda>p. p \<noteq> 0) (tx_bufs s))" using assms(1) by (simp add: net_inv_def owned_def tx_pages_def)
  have own: "?b \<in> set (owned s qs)" using len assms(4) by (simp add: owned_def tx_pages_def)
  then show v: "valid_page (kend s) ?b" and "?b \<notin> R" using assms(1) by (auto simp: net_inv_def list_all_iff)
  note z = tx_slot_zero [OF len]
  show "insert ?b (net_pages (s\<lparr>tx_bufs := (tx_bufs s)[t := 0]\<rparr>) ps qs) = net_pages s ps qs"
    using z(2) [OF assms(4)] by (simp add: net_pages_def owned_def tx_pages_def) blast
  have ow: "set (owned (s\<lparr>tx_bufs := (tx_bufs s)[t := 0]\<rparr>) qs) \<subseteq> set (owned s qs) - {?b}"
  proof -
    have "?b \<in> set (tx_pages s)" using len assms(4) by (simp add: tx_pages_def)
    then have "?b \<notin> set (pages_of qs)" "?b \<notin> set (rx_bufs s)"
      using assms(1) by (auto simp: net_inv_def owned_def)
    then show ?thesis using z d assms(4) by (auto simp: owned_def tx_pages_def)
  qed
  have "nic_wf (s\<lparr>tx_bufs := (tx_bufs s)[t := 0]\<rparr>)"
    using net_inv_wf(3) [OF assms(1)] assms(2,3) by (auto simp: nic_wf_def nth_list_update split: if_splits)
  moreover have "distinct (ps @ owned (s\<lparr>tx_bufs := (tx_bufs s)[t := 0]\<rparr>) qs)"
    using assms(1) z d by (auto simp: net_inv_def owned_def tx_pages_def)
  moreover have "list_all (valid_page (kend s)) (owned (s\<lparr>tx_bufs := (tx_bufs s)[t := 0]\<rparr>) qs)"
    using assms(1) ow by (auto simp: net_inv_def list_all_iff)
  moreover have "?b \<notin> set ps" using assms(1) own by (auto simp: net_inv_def)
  ultimately show "net_inv (s\<lparr>tx_bufs := (tx_bufs s)[t := 0]\<rparr>) ps qs (insert ?b R)"
    using assms(1) ow v by (auto simp: net_inv_def kmem_wf_def kmem_lockable_def aligned_set_def valid_page_def)
qed

lemma tx_fill_slot:
  assumes "net_inv s ps qs (insert buf R)" "t < TX_RING_SIZE" "tx_bufs s ! t = 0" "valid_page (kend s) buf" "buf \<notin> R"
  shows "net_inv (tx_put t buf len s) ps qs R" "net_pages (tx_put t buf len s) ps qs = insert buf (net_pages s ps qs)"
proof -
  have len: "t < length (tx_bufs s)" "t < length (tx_ring s)" using assms(1,2) by (simp_all add: net_inv_def nic_wf_def)
  have b0: "buf \<noteq> 0" using valid_page_bound(3) net_inv_wf(5) assms(1,4) by blast
  have bo: "buf \<notin> set (owned s qs)" "buf \<notin> set ps" using assms(1) by (auto simp: net_inv_def)
  have bt: "buf \<notin> set (tx_bufs s)" using bo(1) b0 by (auto simp: owned_def tx_pages_def)
  have d: "distinct (filter (\<lambda>p. p \<noteq> 0) (tx_bufs s))" using assms(1) by (simp add: net_inv_def owned_def tx_pages_def)
  note n = nth_update_pages [OF len(1) b0 assms(3)]
  have tp: "set (tx_pages (tx_put t buf len s)) = insert buf (set (tx_pages s))" "distinct (tx_pages (tx_put t buf len s))"
    using n d bt by (auto simp: tx_pages_def tx_put_def set_reg_def)
  have f: "mem (tx_put t buf len s) = mem s" "port_list (tx_put t buf len s) = port_list s" "kend (tx_put t buf len s) = kend s"
    "rx_bufs (tx_put t buf len s) = rx_bufs s" "rx_ring (tx_put t buf len s) = rx_ring s"
    by (simp_all add: tx_put_def set_reg_def)
  show "net_pages (tx_put t buf len s) ps qs = insert buf (net_pages s ps qs)"
    using tp(1) f(4) by (simp add: net_pages_def owned_def)
  have "kmem_wf (tx_put t buf len s) ps"
    using net_inv_wf(1) [OF assms(1)] by (simp add: kmem_wf_def kmem_lockable_def tx_put_def set_reg_def)
  moreover have "nic_wf (tx_put t buf len s)"
    using net_inv_wf(3) [OF assms(1)] assms(2) b0
    by (auto simp: nic_wf_def tx_put_def set_reg_def nth_list_update e1000_regs)
  moreover have "distinct (ps @ owned (tx_put t buf len s) qs)"
    using assms(1) tp bo f by (auto simp: net_inv_def owned_def)
  moreover have "list_all (valid_page (kend s)) (owned (tx_put t buf len s) qs)"
    using assms(1,4) tp(1) f by (auto simp: net_inv_def owned_def list_all_iff)
  moreover have "set (ps @ owned (tx_put t buf len s) qs) \<inter> R = {}"
    using assms(1,5) tp(1) f by (auto simp: net_inv_def owned_def)
  moreover have "aligned_set R" using assms(1) by (simp add: net_inv_def aligned_set_def)
  ultimately show "net_inv (tx_put t buf len s) ps qs R" using assms(1) f by (simp add: net_inv_def)
qed

lemma tx_put_slot: "tx_put t buf len (s\<lparr>tx_bufs := (tx_bufs s)[t := b]\<rparr>) = tx_put t buf len s"
  by (simp add: tx_put_def set_reg_def)

lemma transmit_net_eq:
  assumes "quiet s" "net_inv s ps qs R"
  shows "e1000_transmit buf len s =
    (if tx_status (tx_ring s ! tx_tail s) AND E1000_TXD_STAT_DD = 0 then Some (-1, s)
     else Some (0, tx_put (tx_tail s) buf len (tx_free (tx_tail s) s)))"
proof (rule transmit_eq [OF assms(1) net_inv_wf(2) [OF assms(2)]])
  have "tx_tail s < length (tx_bufs s)" using assms(2) tx_tail_less [of s] by (simp add: net_inv_def nic_wf_def)
  then show "valid_page (kend s) (tx_bufs s ! tx_tail s)" if "tx_bufs s ! tx_tail s \<noteq> 0"
    using that assms(2) by (auto simp: net_inv_def owned_def tx_pages_def list_all_iff)
qed

lemma transmit_inv:
  assumes "quiet s" "net_inv s ps qs (insert buf R)" "valid_page (kend s) buf" "buf \<notin> R"
  obtains (full) "e1000_transmit buf len s = Some (-1, s)" "tx_status (tx_ring s ! tx_tail s) AND E1000_TXD_STAT_DD = 0"
  | (sent) s' ps' where "e1000_transmit buf len s = Some (0, s')" "quiet s'" "net_inv s' ps' qs R"
    "ports_abs (mem s') qs = ports_abs (mem s) qs" "kend s' = kend s" "set ps \<subseteq> set ps'" "length ps \<le> length ps'" "buf \<notin> set ps'"
    "seen_arp s' = seen_arp s" "rx_ring s' = rx_ring s" "regs s' E1000_RDT = regs s E1000_RDT" "port_list s' = port_list s"
    "tx_ring s' ! tx_tail s = (tx_ring s ! tx_tail s)\<lparr>tx_addr := V2P buf, tx_length := ucast len,
       tx_cmd := E1000_TXD_CMD_EOP OR E1000_TXD_CMD_RS, tx_status := 0\<rparr>"
    "\<And>p. p \<notin> set ps' \<Longrightarrow> page_aligned p \<Longrightarrow> agree (mem s) (mem s') {p}"
    "net_pages s' ps' qs = insert buf (net_pages s ps qs)" "same_rx s s'"
proof -
  let ?t = "tx_tail s"
  let ?b = "tx_bufs s ! ?t"
  have t: "?t < TX_RING_SIZE" by (rule tx_tail_less)
  have len: "?t < length (tx_bufs s)" "?t < length (tx_ring s)" using assms(2) t by (simp_all add: net_inv_def nic_wf_def)
  note eq = transmit_net_eq [OF assms(1,2), of buf len]
  show ?thesis
  proof (cases "tx_status (tx_ring s ! ?t) AND E1000_TXD_STAT_DD = 0")
    case True
    then show ?thesis using eq full by simp
  next
    case False
    let ?s' = "tx_put ?t buf len (tx_free ?t s)"
    have e: "e1000_transmit buf len s = Some (0, ?s')" using eq False by simp
    have q: "quiet ?s'" using assms(1) by (simp add: quiet_def tx_put_def tx_free_def set_reg_def push_page_def)
    have k: "kend ?s' = kend s" by (simp add: tx_put_def tx_free_def set_reg_def push_page_def)
    have r: "tx_ring ?s' ! ?t = (tx_ring s ! ?t)\<lparr>tx_addr := V2P buf, tx_length := ucast len,
       tx_cmd := E1000_TXD_CMD_EOP OR E1000_TXD_CMD_RS, tx_status := 0\<rparr>"
      using len by (simp add: tx_put_def tx_free_def set_reg_def)
    have oth: "seen_arp ?s' = seen_arp s" "rx_ring ?s' = rx_ring s" "regs ?s' E1000_RDT = regs s E1000_RDT" "port_list ?s' = port_list s"
      by (simp_all add: tx_put_def tx_free_def set_reg_def push_page_def e1000_regs)
    have sm: "same_rx s ?s'" by (simp add: same_rx_def tx_put_def tx_free_def set_reg_def push_page_def e1000_regs)
    show ?thesis
    proof (cases "?b = 0")
      case True
      then have s': "?s' = tx_put ?t buf len s" by (simp add: tx_free_def)
      have "net_inv ?s' ps qs R" "net_pages ?s' ps qs = insert buf (net_pages s ps qs)"
        unfolding s' by (rule tx_fill_slot [OF assms(2) t True assms(3,4)])+
      moreover have "mem ?s' = mem s" unfolding s' by (simp add: tx_put_def set_reg_def)
      moreover have "buf \<notin> set ps" using assms(2) by (auto simp: net_inv_def)
      ultimately show ?thesis using sent [OF e q] k r oth sm by simp
    next
      case b: False
      let ?s0 = "s\<lparr>tx_bufs := (tx_bufs s)[?t := 0]\<rparr>"
      note es = tx_empty_slot [OF assms(2) t False b]
      have bb: "?b \<noteq> buf" using es(3) by auto
      note kf = net_inv_kfree [OF es(1), simplified, OF es(2) es(3) [simplified]]
      have v: "valid_page (kend (push_page ?b ?s0)) buf" using assms(3) by (simp add: push_page_def)
      have z: "tx_bufs (push_page ?b ?s0) ! ?t = 0" using len by simp
      have s': "?s' = tx_put ?t buf len (push_page ?b ?s0)"
        using b by (simp add: tx_free_def tx_put_def set_reg_def push_page_def)
      note fs = tx_fill_slot [OF kf(2) t z v assms(4), where len = len, folded s']
      have "net_pages ?s' (?b # ps) qs = insert buf (net_pages s ps qs)" using fs(2) es(4) by simp
      moreover have "net_inv ?s' (?b # ps) qs R" by (rule fs(1))
      moreover have m: "mem ?s' = mem (push_page ?b s)" using b by (simp add: tx_free_def tx_put_def set_reg_def)
      moreover have "ports_abs (mem (push_page ?b s)) qs = ports_abs (mem s) qs"
        using kf(3) by (simp add: push_page_def)
      moreover have "agree (mem s) (mem (push_page ?b s)) {p}" if "p \<notin> set (?b # ps)" "page_aligned p" for p
        using that es(2) unfolding push_page_def by (auto intro!: kfree_agree simp: aligned_set_def valid_page_def)
      moreover have "buf \<notin> set (?b # ps)" using assms(2) bb by (auto simp: net_inv_def)
      ultimately show ?thesis using sent [OF e q, of "?b # ps"] k r oth sm by auto
    qed
  qed
qed

section \<open>Received IP frames\<close>

definition frame_ihl :: "memory \<Rightarrow> addr \<Rightarrow> nat" where
  "frame_ihl m buf = unat (m (ip_vhl (buf + of_nat sizeof_eth)) AND 0x0f)"

definition frame_udp :: "memory \<Rightarrow> addr \<Rightarrow> addr" where
  "frame_udp m buf = buf + of_nat (sizeof_eth + 4 * frame_ihl m buf)"

definition frame_port :: "memory \<Rightarrow> addr \<Rightarrow> u16" where
  "frame_port m buf = ntohs (ld16 m (udp_dport (frame_udp m buf)))"

definition frame_dgram :: "memory \<Rightarrow> addr \<Rightarrow> dgram" where
  "frame_dgram m buf = \<lparr>d_src = ntohl (ld32 m (ip_src (buf + of_nat sizeof_eth))),
     d_sport = ntohs (ld16 m (udp_sport (frame_udp m buf))),
     d_len = ucast (ntohs (ld16 m (udp_ulen (frame_udp m buf)))) - 8, d_data = mread m (frame_udp m buf + 8) 1500\<rparr>"

text \<open>What delivery does to the list of ports.\<close>

definition deliver :: "u16 \<Rightarrow> dgram \<Rightarrow> (u16 \<times> dgram list) list \<Rightarrow> (u16 \<times> dgram list) list" where
  "deliver port d A = map (\<lambda>(p, ds). if p = port then (p, ds @ [d]) else (p, ds)) A"

lemma deliver_append: "deliver port d (A @ B) = deliver port d A @ deliver port d B"
  by (simp add: deliver_def)

lemma deliver_Cons: "deliver port d ((p, ds) # A) = (p, if p = port then ds @ [d] else ds) # deliver port d A"
  by (simp add: deliver_def)

lemma byte_and_15: "unat ((x :: byte) AND 0x0f) \<le> 15"
proof -
  have "x AND 0x0f \<le> 0x0f" by (rule word_and_le1)
  then show ?thesis by (simp add: word_le_nat_alt)
qed

lemma frame_udp_bound: "sizeof_eth + 4 * frame_ihl m buf \<le> 74"
  using byte_and_15 [of "m (ip_vhl (buf + of_nat sizeof_eth))"] by (simp add: frame_ihl_def sizeof_eth_def)

lemma frame_udp_eq:
  "buf + of_nat sizeof_eth + 4 * ucast (m (ip_vhl (buf + of_nat sizeof_eth)) AND 0x0f) = frame_udp m buf"
proof -
  have "(ucast (x :: byte) :: u64) = of_nat (unat x)" for x by (simp add: word_eq_iff_unsigned unsigned_ucast_eq)
  then show ?thesis by (simp add: frame_udp_def frame_ihl_def add.assoc)
qed

text \<open>Appending a packet to one queue.\<close>

lemma enqueue_inv:
  assumes inv: "net_inv s (k # ps) (qs1 @ (q, port, ks) # qs2) (insert b R)" and ln: "length ks < 16"
    and b: "valid_page (kend s) b" "b \<notin> R"
    and m: "m = push_pkt (fill_pkt k b (frame_udp (mem s) b) (mem s)) q k"
  shows "net_inv (s\<lparr>freelist := ld64 (mem s) k, mem := m\<rparr>) ps (qs1 @ (q, port, ks @ [(k, b)]) # qs2) R"
    and "ports_abs m (qs1 @ (q, port, ks @ [(k, b)]) # qs2) =
      deliver port (frame_dgram (mem s) b) (ports_abs (mem s) (qs1 @ (q, port, ks) # qs2))"
    and "aligned_set P \<Longrightarrow> k \<notin> P \<Longrightarrow> P \<inter> set (q # pkt_pages ks) = {} \<Longrightarrow> agree (mem s) m P"
proof -
  let ?qs = "qs1 @ (q, port, ks) # qs2" and ?qs' = "qs1 @ (q, port, ks @ [(k, b)]) # qs2"
  note ka = net_inv_kalloc [OF inv]
  note kb = net_inv_wf(5) [OF inv]
  note kv = valid_page_bound [OF kb ka(3)] and bv = valid_page_bound [OF kb b(1)]
  have ch: "port_chain (mem s) (port_list s) ?qs" by (rule net_inv_wf(4) [OF inv])
  have iq: "is_queue (mem s) q port ks" using port_chain_split(1) [OF ch] by simp
  have kb': "k \<noteq> b" using ka(4) by auto
  have al: "aligned_set (set (pages_of ?qs))" "aligned_set (set (k # ps))" using net_inv_pages [OF inv] by blast+
  have dis: "distinct ((k # ps) @ owned s ?qs)" "set ((k # ps) @ owned s ?qs) \<inter> insert b R = {}"
    using inv unfolding net_inv_def by blast+
  have kq: "k \<notin> set (pages_of ?qs)" "b \<notin> set (pages_of ?qs)" "distinct (pages_of ?qs)" "b \<notin> set (k # ps)" "k \<notin> set ps"
    using dis by (auto simp: owned_def)
  define m1 where "m1 = fill_pkt k b (frame_udp (mem s) b) (mem s)"
  note fp = fill_pkt_node [OF kv(2) bv(2) kb' frame_udp_def [of "mem s" b] frame_udp_bound [of "mem s" b], where m = "mem s", folded m1_def]
  have ag1: "agree (mem s) m1 (set (pages_of ?qs))" using al(1) kq(1) by (rule fp(4))
  have iq1: "is_queue m1 q port ks"
    using iq is_queue_agree [OF agree_mono [OF ag1, of "insert q (set (pkt_pages ks))"]] by auto
  have dq: "distinct (q # pkt_pages ks @ [k, b])" using kq kb' by auto
  have aq: "aligned_set (set (q # pkt_pages ks @ [k, b]))" using al kv bv by (auto simp: aligned_set_def)
  obtain m2 where p: "push_pkt m1 q k = m2" "is_queue m2 q port (ks @ [(k, b)])" "ld64 m2 (pq_next q) = ld64 m1 (pq_next q)"
    "\<And>P. aligned_set P \<Longrightarrow> P \<inter> set (q # pkt_pages ks) = {} \<Longrightarrow> agree m1 m2 P"
    "map (\<lambda>(k, b). dgram_at m2 k) (ks @ [(k, b)]) = map (\<lambda>(k, b). dgram_at m1 k) (ks @ [(k, b)])"
    using push_pkt_queue [OF iq1 ln fp(1) kv(3) fp(2) dq aq] by metis
  have mm: "m = m2" using m p(1) m1_def by simp
  have nx: "ld64 m1 (pq_next q) = ld64 (mem s) (pq_next q)"
    using queue_fields_agree(5) [OF ag1, of q] by simp
  have ag2: "agree (mem s) m2 P" if "aligned_set P" "k \<notin> P" "P \<inter> set (q # pkt_pages ks) = {}" for P
    using fp(4) [OF that(1,2)] p(4) [OF that(1,3)] by (rule agree_trans)
  then show "agree (mem s) m P" if "aligned_set P" "k \<notin> P" "P \<inter> set (q # pkt_pages ks) = {}" using that mm by simp
  have agr: "agree (mem s) m2 (set (pages_of qs1) \<union> set (pages_of qs2))"
    using al kq by (intro ag2) (auto simp: aligned_set_def)
  have ch2: "port_chain m2 (port_list s) ?qs'"
    using port_chain_replace [OF ch agr p(2)] p(3) nx by simp
  have agp: "agree (mem s) m2 (set ps)"
  proof (rule ag2)
    show "aligned_set (set ps)" using al(2) by (simp add: aligned_set_def)
    show "k \<notin> set ps" by (rule kq(5))
    show "set ps \<inter> set (q # pkt_pages ks) = {}" using dis(1) by (auto simp: owned_def)
  qed
  have wf: "kmem_wf (s\<lparr>freelist := ld64 (mem s) k, mem := m2\<rparr>) ps"
    using kmem_wf_agree [OF net_inv_wf(1) [OF ka(2)], of m2] agp by simp
  show "net_inv (s\<lparr>freelist := ld64 (mem s) k, mem := m\<rparr>) ps ?qs' R"
    unfolding mm using inv wf ch2 ka(3) b dis
    by (auto simp: net_inv_def owned_def tx_pages_def nic_wf_def aligned_set_def)
  have qa: "list_all (\<lambda>(q, port, ks). is_queue (mem s) q port ks) qs1" "list_all (\<lambda>(q, port, ks). is_queue (mem s) q port ks) qs2"
    using port_chain_queues [OF ch] by simp_all
  have "ports_abs m2 qs1 = ports_abs (mem s) qs1" "ports_abs m2 qs2 = ports_abs (mem s) qs2"
    using agr by (auto simp: agree_Un intro!: queues_abs_agree [OF qa(1)] queues_abs_agree [OF qa(2)])
  moreover have "map (\<lambda>(k, b). dgram_at m1 k) ks = map (\<lambda>(k, b). dgram_at (mem s) k) ks"
  proof (rule pkts_abs_agree)
    show "pkt_chain (mem s) (ld64 (mem s) (pq_head q)) ks" using iq by (simp add: is_queue_def)
    show "agree (mem s) m1 (set (pkt_pages ks))" using ag1 by (rule agree_mono) auto
  qed
  moreover have "dgram_at m1 k = frame_dgram (mem s) b" using fp(3) by (simp add: frame_dgram_def)
  moreover have "port \<notin> fst ` set (ports_abs (mem s) qs1)" "port \<notin> fst ` set (ports_abs (mem s) qs2)"
  proof -
    have "port \<notin> set (map (fst \<circ> snd) qs1)" "port \<notin> set (map (fst \<circ> snd) qs2)" using inv by (auto simp: net_inv_def)
    then show "port \<notin> fst ` set (ports_abs (mem s) qs1)" "port \<notin> fst ` set (ports_abs (mem s) qs2)"
      unfolding ports_abs_simps(4) [of "mem s", symmetric] by (simp_all only: set_map not_False_eq_True)
  qed
  moreover have "deliver port d A = A" if "port \<notin> fst ` set A" for d A
    unfolding deliver_def using that by (intro map_idI) (auto simp: rev_image_eqI)
  ultimately show "ports_abs m ?qs' = deliver port (frame_dgram (mem s) b) (ports_abs (mem s) ?qs)"
    unfolding mm using p(5) by (simp add: deliver_append deliver_Cons)
qed

definition ip_accepts :: "memory \<Rightarrow> addr \<Rightarrow> addr list \<Rightarrow> (u16 \<times> dgram list) list \<Rightarrow> bool" where
  "ip_accepts m buf ps A \<longleftrightarrow> m (ip_p (buf + of_nat sizeof_eth)) = IPPROTO_UDP \<and> ps \<noteq> [] \<and>
     (\<exists>ds. (frame_port m buf, ds) \<in> set A \<and> length ds < 16)"

lemma sint_count: "n \<le> 16 \<Longrightarrow> sint (of_nat n :: u32) = int n"
  by (simp add: signed_of_nat signed_take_bit_int_eq_self_iff)

lemma ip_seen:
  fixes s :: "'z net_scheme"
  assumes "quiet s" "net_inv s ps qs R"
  defines "t \<equiv> (if \<not> seen_ip s then cprintf ''ip_rx: received an IP packet'' [] s else s)\<lparr>seen_ip := True\<rparr>"
  shows "quiet t" "net_inv t ps qs R" "mem t = mem s" "kend t = kend s" "port_list t = port_list s"
    "same_rx s t"
  using assms(1) net_inv_cong [OF assms(2), of t] lockable_quiet [of t]
  by (auto simp: t_def cprintf_def quiet_def same_rx_def)

lemma ip_rx_inv:
  assumes "quiet s" "net_inv s ps qs (insert buf R)" "valid_page (kend s) buf" "buf \<notin> R"
  obtains s' ps' qs' where "ip_rx buf len s = Some s'" "quiet s'" "net_inv s' ps' qs' R" "same_rx s s'"
    "length ps \<le> length ps' + 1" "map fst qs' = map fst qs"
    "ptable s' = (if ip_accepts (mem s) buf ps (ports_abs (mem s) qs)
       then ptable (wakeup1 (Ch_addr (lookup_port (frame_port (mem s) buf) qs)) s) else ptable s)"
    "ports_abs (mem s') qs' = (if ip_accepts (mem s) buf ps (ports_abs (mem s) qs)
       then deliver (frame_port (mem s) buf) (frame_dgram (mem s) buf) (ports_abs (mem s) qs) else ports_abs (mem s) qs)"
    "net_pages s' ps' qs' = insert buf (net_pages s ps qs)"
proof -
  note fin = that
  define t where "t = (if \<not> seen_ip s then cprintf ''ip_rx: received an IP packet'' [] s else s)\<lparr>seen_ip := True\<rparr>"
  note t = ip_seen [OF assms(1,2), folded t_def]
  have vt: "valid_page (kend t) buf" using assms(3) t by simp
  note kf = net_inv_kfree [OF t(2) vt assms(4)]
  let ?A = "ports_abs (mem s) qs" and ?port = "frame_port (mem s) buf"
  define pq where "pq = lookup_port ?port qs"
  have ch: "port_chain (mem t) (port_list t) qs" by (rule net_inv_wf(4) [OF t(2)])
  have acq: "k_acquire Netlock t = Some (lk Netlock t)" and rel: "k_release Netlock (lk Netlock t) = Some t"
    using t(1) by (auto intro!: acquire_lk release_lk simp: quietD)
  have fnd: "find_port_queue ?port (lk Netlock t) = Some pq"
    using find_port_from_chain [OF ch] by (simp add: find_port_queue_def pq_def)
  have ev: "ip_rx buf len s = (if mem s (ip_p (buf + of_nat sizeof_eth)) \<noteq> IPPROTO_UDP then kfree buf t
      else if pq = 0 then kfree buf t
      else if sint (ld32 (mem s) (pq_count pq)) \<ge> MAX_QUEUED_PER_PORT then kfree buf t
      else ip_queue buf (frame_udp (mem t) buf) pq (lk Netlock t))"
    unfolding ip_rx_def Let_def t_def [symmetric] t(3) frame_udp_eq
    using acq rel fnd by (simp add: frame_port_def t(3) Let_def)
  have pt: "ptable t = ptable s" "net_pages t ps qs = net_pages s ps qs"
    by (simp_all add: t_def cprintf_def net_pages_def owned_def tx_pages_def)
  have drop: thesis if "ip_rx buf len s = kfree buf t" "\<not> ip_accepts (mem s) buf ps ?A"
  proof -
    have a: "ip_rx buf len s = Some (push_page buf t)" using that(1) kf(1) by simp
    have b: "quiet (push_page buf t)" using t(1) by simp
    have c: "same_rx s (push_page buf t)" using t(6) by simp
    have d: "net_pages (push_page buf t) (buf # ps) qs = insert buf (net_pages s ps qs)" using pt(2) by simp
    have e: "ptable (push_page buf t) = ptable s" using pt(1) by (simp add: push_page_def)
    show thesis by (rule fin [OF a b kf(2) c]) (use kf(3) that(2) t(3) d e in simp_all)
  qed
  have fstA: "fst ` set ?A = (fst \<circ> snd) ` set qs"
    using arg_cong [OF ports_abs_simps(4) [of "mem s" qs], of set] by (simp only: set_map)
  show thesis
  proof (cases "mem s (ip_p (buf + of_nat sizeof_eth)) \<noteq> IPPROTO_UDP \<or> pq = 0")
    case True
    have "\<not> ip_accepts (mem s) buf ps ?A"
    proof (cases "pq = 0")
      case True
      then have "?port \<notin> fst ` set ?A" using lookup_port_zero [OF ch] fstA by (simp add: pq_def)
      then show ?thesis by (force simp: ip_accepts_def)
    next
      case False
      then show ?thesis using True by (simp add: ip_accepts_def)
    qed
    then show ?thesis using drop ev True by auto
  next
    case False
    then obtain qs1 ks qs2 where qs: "qs = qs1 @ (pq, ?port, ks) # qs2" "?port \<notin> (fst \<circ> snd) ` set qs1"
      using lookup_port_split [OF ch, of ?port] unfolding pq_def by blast
    have iq: "is_queue (mem t) pq ?port ks" using port_chain_split(1) [OF ch, of pq ?port ks] qs(1) by (metis in_set_conv_decomp)
    then have cnt: "sint (ld32 (mem s) (pq_count pq)) = int (length ks)" "length ks \<le> 16"
      using sint_count t(3) by (simp_all add: is_queue_def)
    have dp: "distinct (map fst ?A)" using assms(2) by (simp add: net_inv_def)
    have inA: "(?port, map (\<lambda>(k, b). dgram_at (mem s) k) ks) \<in> set ?A" by (subst qs(1)) simp
    have acc: "ip_accepts (mem s) buf ps ?A \<longleftrightarrow> ps \<noteq> [] \<and> length ks < 16"
    proof -
      have "ds = map (\<lambda>(k, b). dgram_at (mem s) k) ks" if "(?port, ds) \<in> set ?A" for ds
        using eq_key_imp_eq_value [OF dp that inA] .
      then show ?thesis using False inA by (fastforce simp: ip_accepts_def)
    qed
    show ?thesis
    proof (cases "length ks < 16")
      case full: False
      then show ?thesis using drop ev acc cnt by (simp add: MAX_QUEUED_PER_PORT_def)
    next
      case room: True
      have lkb: "kmem_lockable t" "settled (cpu_st t)" using t(1) by (simp_all add: lockable_quiet quietD)
      show ?thesis
      proof (cases ps)
        case Nil
        have "kalloc (lk Netlock t) = Some (0, lk Netlock t)"
          using kalloc_lk [OF lkb, of Netlock] net_inv_empty(1) t(2) Nil by simp
        then have "ip_rx buf len s = kfree buf t" using ev False rel cnt room by (simp add: MAX_QUEUED_PER_PORT_def ip_queue_def)
        then show ?thesis using drop acc Nil by simp
      next
        case (Cons k ps')
        have inv: "net_inv t (k # ps') (qs1 @ (pq, ?port, ks) # qs2) (insert buf R)"
          using t(2) Cons qs(1) by simp
        note ka = net_inv_kalloc [OF inv]
        have k0: "k \<noteq> 0" using valid_page_bound(3) [OF net_inv_wf(5) [OF t(2)] ka(3)] .
        define m where "m = push_pkt (fill_pkt k buf (frame_udp (mem t) buf) (mem t)) pq k"
        define u where "u = t\<lparr>freelist := ld64 (mem t) k, mem := m\<rparr>"
        note en = enqueue_inv [OF inv room vt assms(4) m_def]
        have qu: "quiet u" using t(1) by (simp add: u_def)
        have e: "kalloc (lk Netlock t) = Some (k, lk Netlock (t\<lparr>freelist := ld64 (mem t) k\<rparr>))"
          using kalloc_lk [OF lkb, of Netlock] ka(5) k0 by simp
        have w: "wakeup (Ch_addr pq) (lk Netlock u) = Some (lk Netlock (wakeup1 (Ch_addr pq) u))"
          using qu by (intro wakeup_lk) simp_all
        have r: "k_release Netlock (lk Netlock (wakeup1 (Ch_addr pq) u)) = Some (wakeup1 (Ch_addr pq) u)"
          using qu by (intro release_lk) (simp_all add: quietD wakeup1_def)
        have res: "ip_rx buf len s = Some (wakeup1 (Ch_addr pq) u)"
          using ev False cnt room e k0 w r by (simp add: MAX_QUEUED_PER_PORT_def ip_queue_def u_def m_def)
        have "net_inv (wakeup1 (Ch_addr pq) u) ps' (qs1 @ (pq, ?port, ks @ [(k, buf)]) # qs2) R"
          by (rule net_inv_cong [OF en(1)]) (use qu in \<open>simp_all add: u_def wakeup1_def lockable_quiet kmem_lockable_def quiet_def\<close>)
        moreover have "same_rx s (wakeup1 (Ch_addr pq) u)" "mem (wakeup1 (Ch_addr pq) u) = m" "quiet (wakeup1 (Ch_addr pq) u)"
          "ptable (wakeup1 (Ch_addr pq) u) = ptable (wakeup1 (Ch_addr (lookup_port ?port qs)) s)"
          using t(6) qu pt by (simp_all add: u_def wakeup1_def same_rx_def pq_def)
        moreover have "net_pages (wakeup1 (Ch_addr pq) u) ps' (qs1 @ (pq, ?port, ks @ [(k, buf)]) # qs2) = insert buf (net_pages s ps qs)"
          unfolding pt(2) [symmetric] arg_cong2 [OF Cons qs(1), of "net_pages t"]
          by (auto simp: u_def wakeup1_def net_pages_def owned_def tx_pages_def)
        ultimately show ?thesis
          using fin [OF res, of ps' "qs1 @ (pq, ?port, ks @ [(k, buf)]) # qs2"] en(2) acc room Cons t(3) arg_cong [OF qs(1), of "map fst"] qs(1) by simp
      qed
    qed
  qed
qed

section \<open>ARP\<close>

lemma memmove_agree:
  assumes "page_aligned b" "aligned_set P" "b \<notin> P" "within b a (unat n)" "unat b < 2 ^ 64 - 8192" "unat src + unat n < 2 ^ 64"
  shows "agree m (memmove m a src n) P"
proof -
  have d: "unat (a - b) + unat n \<le> 4096" using assms(4) by (simp add: within_def)
  have "unat (b + (a - b)) = unat b + unat (a - b)" using assms(5) d by (intro unat_sum_no_wrap) simp
  then have "unat a + unat n < 2 ^ 64" using assms(5) d by simp
  then have "memmove m a src n = mcopy m a src (unat n)" using assms(6) by (rule memmove_eq_mcopy)
  then show ?thesis using assms by (simp add: agree_mcopy)
qed

lemma page_off_bound: "unat p < 2 ^ 64 - 8192 \<Longrightarrow> k \<le> 4096 \<Longrightarrow> unat (p + of_nat k) = unat p + k" for p :: addr
  by (simp add: unat_add_of_nat)

text \<open>A chain of writes into one page.\<close>

lemma agree_writes:
  assumes "page_aligned p" "aligned_set P" "p \<notin> P"
  shows "agree m0 m P \<Longrightarrow> within p a 1 \<Longrightarrow> agree m0 (st8 m a b) P"
    "agree m0 m P \<Longrightarrow> within p a 2 \<Longrightarrow> agree m0 (st16 m a h) P"
    "agree m0 m P \<Longrightarrow> within p a 4 \<Longrightarrow> agree m0 (st32 m a w) P"
    "agree m0 m P \<Longrightarrow> within p a 8 \<Longrightarrow> agree m0 (st64 m a v) P"
    "agree m0 m P \<Longrightarrow> within p a (length bs) \<Longrightarrow> agree m0 (mwrite m a bs) P"
    "agree m0 m P \<Longrightarrow> within p a (unat n) \<Longrightarrow> unat p < 2 ^ 64 - 8192 \<Longrightarrow> unat src + unat n < 2 ^ 64 \<Longrightarrow>
      agree m0 (memmove m a src n) P"
  by (erule agree_trans, rule agree_st8 [OF assms] agree_st16 [OF assms] agree_st32 [OF assms] agree_st64 [OF assms]
      agree_mwrite [OF assms] memmove_agree [OF assms]; assumption)+

lemma arp_reply_agree:
  assumes "page_aligned b" "unat b < 2 ^ 64 - 8192" "unat inb < 2 ^ 64 - 8192" "aligned_set P" "b \<notin> P"
  shows "agree m (arp_reply b inb m) P"
proof -
  have src: "unat (eth_shost inb) + unat (6 :: u32) < 2 ^ 64"
    using page_off_bound [OF assms(3), of 6] assms(3) by (simp add: eth_shost_def)
  show ?thesis
    unfolding arp_reply_def Let_def
    by (intro agree_writes [OF assms(1,4,5)] agree_refl assms(2) src)
      (simp_all add: hdr_offsets local_mac_def sizeof_eth_def add.assoc)
qed

end
