(* ===== verification/NetRx.thy ===== *)
theory NetRx
  imports NetOps "HOL-Library.Sublist"
begin

text \<open>
  Received frames: the ARP handler, the dispatch on the frame type, one turn of the receive loop of
  the driver, and the loop itself.
\<close>

section \<open>Dispatch\<close>

text \<open>Pages of others may be forgotten.\<close>

lemma net_inv_less: "net_inv s ps qs R \<Longrightarrow> R' \<subseteq> R \<Longrightarrow> net_inv s ps qs R'"
  by (auto simp: net_inv_def aligned_set_def)

lemma arp_seen:
  fixes s :: "'z net_scheme"
  assumes "quiet s" "net_inv s ps qs R"
  defines "t \<equiv> (cprintf ''arp_rx: received an ARP packet'' [] s)\<lparr>seen_arp := True\<rparr>"
  shows "quiet t" "net_inv t ps qs R" "mem t = mem s" "kend t = kend s" "same_rx s t" "net_pages t ps qs = net_pages s ps qs"
  using assms(1) net_inv_cong [OF assms(2), of t] lockable_quiet [of t]
  by (auto simp: t_def cprintf_def quiet_def same_rx_def net_pages_def owned_def tx_pages_def)

text \<open>The first ARP frame is answered in the first free page.\<close>

lemma arp_reply_built:
  fixes s :: "'z net_scheme"
  assumes "\<not> seen_arp s" "quiet s" "net_inv s (b # ps) qs (insert buf R)" "valid_page (kend s) buf"
  obtains u where "arp_rx buf s = do { (r, s) \<leftarrow> e1000_transmit b (of_nat (sizeof_eth + sizeof_arp)) u; kfree buf s }" "quiet u"
    "net_inv u ps qs (insert b (insert buf R))" "ports_abs (mem u) qs = ports_abs (mem s) qs" "kend u = kend s" "same_rx s u"
    "valid_page (kend s) b" "b \<notin> insert buf R" "tx_ring u = tx_ring s" "tx_bufs u = tx_bufs s" "tx_tail u = tx_tail s"
    "net_pages u ps qs = net_pages s ps qs" "seen_arp u"
proof -
  define t where "t = (cprintf ''arp_rx: received an ARP packet'' [] s)\<lparr>seen_arp := True\<rparr>"
  note t = arp_seen [OF assms(2,3), folded t_def]
  note ka = net_inv_kalloc [OF t(2)]
  note kb = net_inv_wf(5) [OF assms(3)]
  have vb: "valid_page (kend s) b" using ka(3) t(4) by simp
  note bb = valid_page_bound [OF kb vb] and fb = valid_page_bound [OF kb assms(4)]
  define m where "m = arp_reply b buf (mem t)"
  define u where "u = t\<lparr>freelist := ld64 (mem t) b, mem := m\<rparr>"
  have ag: "agree (mem t) m P" if "aligned_set P" "b \<notin> P" for P
    unfolding m_def using that bb fb by (intro arp_reply_agree) simp_all
  have pg: "aligned_set (set ps \<union> set (pages_of qs))" "b \<notin> set ps \<union> set (pages_of qs)"
    using ka(2) by (auto simp: net_inv_def kmem_wf_def owned_def aligned_set_def list_all_iff valid_page_def)
  have iu: "net_inv u ps qs (insert b (insert buf R))" and pu: "ports_abs (mem u) qs = ports_abs (mem s) qs"
    using net_inv_mem [OF ka(2), of m] ag [OF pg] t(3) by (simp_all add: u_def)
  have fu: "quiet u" "kend u = kend s" "same_rx s u" using t(1,4,5) by (simp_all add: u_def same_rx_def)
  have "arp_rx buf s = do { (r, s) \<leftarrow> e1000_transmit b (of_nat (sizeof_eth + sizeof_arp)) u; kfree buf s }"
    using assms(1) ka(1) bb(3) by (simp add: arp_rx_def Let_def t_def [symmetric] u_def m_def)
  from that [OF this fu(1) iu pu fu(2,3) vb ka(4)] show thesis
    by (simp add: u_def t_def cprintf_def tx_tail_def net_pages_def owned_def tx_pages_def)
qed

text \<open>
  The first ARP frame needs a page for the reply and panics without one. The reply page stays
  allocated for ever when the transmit ring is full: nothing refers to it any more.
\<close>

lemma arp_rx_inv:
  assumes "quiet s" "net_inv s ps qs (insert buf R)" "valid_page (kend s) buf" "buf \<notin> R"
  obtains (panic) "arp_rx buf s = None" "\<not> seen_arp s" "ps = []"
  | (ok) s' ps' L where "arp_rx buf s = Some s'" "quiet s'" "net_inv s' ps' qs (R \<union> L)" "same_rx s s'"
    "ports_abs (mem s') qs = ports_abs (mem s) qs" "length ps \<le> length ps' + 1"
    "net_pages s' ps' qs \<union> L = insert buf (net_pages s ps qs)" "lost_page s s' L" "L \<inter> R = {}"
proof (cases "seen_arp s")
  case True
  note kf = net_inv_kfree [OF assms(2-4)]
  have "quiet (push_page buf s)" "same_rx s (push_page buf s)"
    using assms(1) by (simp_all add: push_page_def same_rx_def)
  then show ?thesis using ok [of "push_page buf s" "buf # ps" "{}"] kf True by (simp add: arp_rx_def)
next
  case False
  define t where "t = (cprintf ''arp_rx: received an ARP packet'' [] s)\<lparr>seen_arp := True\<rparr>"
  note t = arp_seen [OF assms(1,2), folded t_def]
  show ?thesis
  proof (cases ps)
    case Nil
    then have "kalloc t = Some (0, t)" using net_inv_empty(2) t(2) by blast
    then have "arp_rx buf s = None" using False by (simp add: arp_rx_def Let_def t_def [symmetric])
    then show ?thesis using panic False Nil by blast
  next
    case (Cons b ps1)
    let ?n = "of_nat (sizeof_eth + sizeof_arp) :: u32"
    obtain u where u: "arp_rx buf s = do { (r, s) \<leftarrow> e1000_transmit b ?n u; kfree buf s }" "quiet u"
      "net_inv u ps1 qs (insert b (insert buf R))" "ports_abs (mem u) qs = ports_abs (mem s) qs" "kend u = kend s" "same_rx s u"
      "valid_page (kend s) b" "b \<notin> insert buf R" "net_pages u ps1 qs = net_pages s ps1 qs" "seen_arp u"
      by (rule arp_reply_built [OF False assms(1) assms(2) [unfolded Cons] assms(3)])
    note ev = u(1) and qu = u(2) and iu = u(3) and pu = u(4) and ku = u(5) and su = u(6)
    have fin: ?thesis if tr: "e1000_transmit b ?n u = Some (r, v)" and v: "quiet v" "net_inv v ps2 qs (insert buf (R \<union> L))" "same_rx s v"
      "ports_abs (mem v) qs = ports_abs (mem u) qs" "length ps1 \<le> length ps2" "net_pages v ps2 qs \<union> L = net_pages s ps qs"
      "L = {} \<or> L = {b}" "seen_arp v" for r v ps2 L
    proof -
      have vv: "valid_page (kend v) buf" using assms(3) v(3) by (simp add: same_rx_def)
      have nb: "buf \<notin> R \<union> L" using assms(4) u(8) v(7) by auto
      note kf = net_inv_kfree [OF v(2) vv nb]
      have e: "arp_rx buf s = Some (push_page buf v)" using ev tr kf(1) by simp
      have "quiet (push_page buf v)" "same_rx s (push_page buf v)" using v by simp_all
      moreover have "lost_page s (push_page buf v) L" using v(7,8) False by (auto simp: lost_page_def push_page_def)
      moreover have "L \<inter> R = {}" using v(7) u(8) by auto
      ultimately show ?thesis using ok [OF e, of "buf # ps2" L] kf v pu Cons by simp
    qed
    have vu: "valid_page (kend u) b" "b \<notin> insert buf R" using u(5,7,8) by simp_all
    show ?thesis
    proof (cases rule: transmit_inv [OF qu iu vu, where len = ?n, case_names full sent])
      case full
      have "insert b (insert buf R) = insert buf (R \<union> {b})" by auto
      then show ?thesis using fin [OF full(1) qu, of ps1 "{b}"] su iu u(9,10) Cons by simp
    next
      case (sent v ps2)
      have "same_rx s v" using su sent(16) by (rule same_rx_trans)
      then show ?thesis using fin [OF sent(1,2), of ps2 "{}"] sent u(9,10) Cons by simp
    qed
  qed
qed

text \<open>What a frame of \<open>len\<close> bytes in the page \<open>buf\<close> does to the queues.\<close>

definition rx_effect :: "memory \<Rightarrow> addr \<Rightarrow> u32 \<Rightarrow> addr list \<Rightarrow> (u16 \<times> dgram list) list \<Rightarrow> (u16 \<times> dgram list) list" where
  "rx_effect m buf len ps A =
     (if sint len \<ge> 34 \<and> ntohs (ld16 m (eth_type buf)) = ETHTYPE_IP \<and> ip_accepts m buf ps A
      then deliver (frame_port m buf) (frame_dgram m buf) A else A)"

lemma net_rx_inv:
  assumes "quiet s" "net_inv s ps qs (insert buf R)" "valid_page (kend s) buf" "buf \<notin> R"
  obtains (panic) "net_rx buf len s = None" "\<not> seen_arp s" "ps = []"
  | (ok) s' ps' qs' L where "net_rx buf len s = Some s'" "quiet s'" "net_inv s' ps' qs' (R \<union> L)" "same_rx s s'"
    "ports_abs (mem s') qs' = rx_effect (mem s) buf len ps (ports_abs (mem s) qs)" "length ps \<le> length ps' + 1"
    "map fst qs' = map fst qs"
    "net_pages s' ps' qs' \<union> L = insert buf (net_pages s ps qs)" "lost_page s s' L" "L \<inter> R = {}"
proof -
  let ?ty = "ntohs (ld16 (mem s) (eth_type buf))"
  have ne: "ETHTYPE_ARP \<noteq> ETHTYPE_IP" by (simp add: ETHTYPE_ARP_def ETHTYPE_IP_def)
  have sz: "int (sizeof_eth + sizeof_arp) = 42" "int (sizeof_eth + sizeof_ip) = 34"
    by (simp_all add: sizeof_eth_def sizeof_arp_def sizeof_ip_def)
  consider (arp) "sint len \<ge> 42" "?ty = ETHTYPE_ARP" | (ip) "sint len \<ge> 34" "?ty = ETHTYPE_IP"
    | (other) "\<not> (sint len \<ge> 42 \<and> ?ty = ETHTYPE_ARP)" "\<not> (sint len \<ge> 34 \<and> ?ty = ETHTYPE_IP)" by blast
  then show ?thesis
  proof cases
    case arp
    then have e: "net_rx buf len s = arp_rx buf s" by (simp only: net_rx_def sz Let_def simp_thms if_True)
    have r: "rx_effect (mem s) buf len ps A = A" for A using arp ne by (simp add: rx_effect_def)
    show ?thesis
    proof (cases rule: arp_rx_inv [OF assms, case_names panic ok])
      case panic
      then show ?thesis using that(1) e by simp
    next
      case (ok s' ps' L)
      then show ?thesis using that(2) [of s' ps' qs L] e r by simp
    qed
  next
    case ip
    then have e: "net_rx buf len s = ip_rx buf len s" using ne [symmetric] by (simp only: net_rx_def sz Let_def simp_thms if_True if_False)
    have r: "rx_effect (mem s) buf len ps A = (if ip_accepts (mem s) buf ps A
        then deliver (frame_port (mem s) buf) (frame_dgram (mem s) buf) A else A)" for A
      using ip by (simp add: rx_effect_def)
    show ?thesis
    proof (cases rule: ip_rx_inv [OF assms, of len, case_names ok])
      case (ok s' ps' qs')
      then show ?thesis using that(2) [of s' ps' qs' "{}"] e r by simp
    qed
  next
    case other
    then have e: "net_rx buf len s = kfree buf s" by (simp only: net_rx_def sz Let_def if_False)
    have r: "rx_effect (mem s) buf len ps A = A" for A using other(2) by (auto simp: rx_effect_def)
    note kf = net_inv_kfree [OF assms(2-4)]
    have "quiet (push_page buf s)" "same_rx s (push_page buf s)" using assms(1) by (simp_all add: push_page_def same_rx_def)
    then show ?thesis using that(2) [of "push_page buf s" "buf # ps" qs "{}"] e r kf by simp
  qed
qed

section \<open>The receive loop\<close>

lemma sint_small: "unat x < 2 ^ 31 \<Longrightarrow> sint x = int (unat x)" for x :: u32
proof -
  assume h: "unat x < 2 ^ 31"
  then have "int (unat x) < int (2 ^ 31)" by (simp only: of_nat_less_iff)
  then have u: "uint x < 2 ^ 31" by (simp only: uint_nat of_nat_power of_nat_numeral)
  have "sint x = signed_take_bit (LENGTH(32) - Suc 0) (uint x)" by (rule sint_uint)
  also have "\<dots> = uint x"
  proof (rule signed_take_bit_int_eq_self)
    have "0 \<le> uint x" by simp
    then show "- (2 ^ (LENGTH(32) - Suc 0)) \<le> uint x" by (rule order_trans [rotated]) simp
    show "uint x < 2 ^ (LENGTH(32) - Suc 0)" using u by simp
  qed
  finally show ?thesis by (simp only: uint_nat)
qed

lemma rx_next_less: "rx_next s < RX_RING_SIZE"
  by (simp add: rx_next_def RX_RING_SIZE_def unat_mod_distrib)

text \<open>The frame that the turn looks at: its length, and the effect of handling it with the pages \<open>ps\<close> free.\<close>

definition rx_len :: "'z e1000_scheme \<Rightarrow> u32" where
  "rx_len s = ucast (rx_length (rx_ring s ! rx_next s))"

lemma rx_len_less: "unat (rx_len s) < 65536"
proof -
  have "unat (rx_length (rx_ring s ! rx_next s)) < 2 ^ LENGTH(16)" by (rule unsigned_less)
  then have "take_bit 32 (unat (rx_length (rx_ring s ! rx_next s))) < 65536" by (simp add: take_bit_nat_eq_self)
  then show ?thesis by (simp add: rx_len_def unsigned_ucast_eq)
qed

definition rx_ready :: "'z e1000_scheme \<Rightarrow> bool" where
  "rx_ready s \<longleftrightarrow> rx_status (rx_ring s ! rx_next s) AND E1000_RXD_STAT_DD \<noteq> 0"

text \<open>The state with the descriptor given back to the card.\<close>

definition rx_return :: "'z e1000_scheme \<Rightarrow> 'z e1000_scheme" where
  "rx_return s = set_reg E1000_RDT (of_nat (rx_next s))
     (s\<lparr>rx_ring := (rx_ring s)[rx_next s := (rx_ring s ! rx_next s)\<lparr>rx_status := 0\<rparr>]\<rparr>)"

lemma rx_return_keeps [simp]:
  "mem (rx_return s) = mem s" "kend (rx_return s) = kend s" "quiet (rx_return s) = quiet s" "seen_arp (rx_return s) = seen_arp s"
  "net_pages (rx_return s) ps qs = net_pages s ps qs"
  for s :: "'z net_scheme"
  by (simp_all add: rx_return_def set_reg_def quiet_def net_pages_def owned_def tx_pages_def)

lemma rx_return_inv:
  assumes "quiet s" "net_inv s ps qs R"
  shows "net_inv (rx_return s) ps qs R"
proof -
  have "unat (of_nat (rx_next s) :: u32) = rx_next s"
    using rx_next_less [of s] by (simp add: RX_RING_SIZE_def unsigned_of_nat take_bit_nat_eq_self_iff)
  then have "nic_wf (rx_return s)"
    using net_inv_wf(3) [OF assms(2)] rx_next_less [of s]
    by (auto simp: nic_wf_def rx_return_def set_reg_def nth_list_update e1000_regs)
  moreover have "kmem_wf (rx_return s) ps"
    using net_inv_wf(1) [OF assms(2)] by (simp add: kmem_wf_def kmem_lockable_def rx_return_def set_reg_def)
  ultimately show ?thesis
    using assms(2) by (simp add: net_inv_def owned_def tx_pages_def rx_return_def set_reg_def)
qed

text \<open>The effect of a turn on the queues: the frame is copied into the first free page and handled there.\<close>

definition turn_effect :: "'z net_scheme \<Rightarrow> addr list \<Rightarrow> (u16 \<times> dgram list) list \<Rightarrow> (u16 \<times> dgram list) list" where
  "turn_effect s ps A =
     (if 0 < sint (rx_len s) \<and> sint (rx_len s) \<le> 4096 \<and> ps \<noteq> []
      then rx_effect (memmove (mem s) (hd ps) (rx_bufs s ! rx_next s) (rx_len s)) (hd ps) (rx_len s) (tl ps) A
      else A)"

lemma rx_lk [simp]:
  "rx_next (lk l s) = rx_next s" "rx_ring (lk l s) = rx_ring s" "rx_bufs (lk l s) = rx_bufs s"
  "(lk l s)\<lparr>rx_ring := rr\<rparr> = lk l (s\<lparr>rx_ring := rr\<rparr>)"
  for s :: "'z e1000_scheme"
  by (simp_all add: rx_next_def lk_def)

lemma recv_take_ready:
  fixes s :: "'z net_scheme"
  assumes "quiet s" "net_inv s ps qs R" "rx_ready s"
  shows "e1000_recv_take s =
    (if 0 < sint (rx_len s) \<and> sint (rx_len s) \<le> 4096 \<and> ps \<noteq> []
     then Some (True, hd ps, rx_len s, rx_return (s\<lparr>freelist := ld64 (mem s) (hd ps),
            mem := memmove (mem s) (hd ps) (rx_bufs s ! rx_next s) (rx_len s)\<rparr>))
     else Some (True, 0, rx_len s, rx_return s))"
proof -
  let ?i = "rx_next s" and ?len = "rx_len s"
  have q: "locks s l = free_lock" "settled (cpu_st s)" for l using assms(1) by (simp_all add: quietD)
  have acq: "k_acquire E1000_lock s = Some (lk E1000_lock s)" using q by (intro acquire_lk) simp
  have ret: "set_reg E1000_RDT (of_nat ?i) (lk E1000_lock (u\<lparr>rx_ring := (rx_ring u)[?i := (rx_ring u ! ?i)\<lparr>rx_status := 0\<rparr>]\<rparr>)) =
      lk E1000_lock (rx_return u)" if "rx_next u = ?i" for u :: "'z net_scheme"
    using that by (simp add: rx_return_def)
  have rel: "k_release E1000_lock (lk E1000_lock (rx_return u)) = Some (rx_return u)"
    if "locks u = locks s" "cpu_st u = cpu_st s" for u :: "'z net_scheme"
    using that q by (intro release_lk) (simp_all add: rx_return_def set_reg_def)
  have kal: "kalloc (lk E1000_lock s) = Some (freelist s, lk E1000_lock (if freelist s = 0 then s else s\<lparr>freelist := ld64 (mem s) (freelist s)\<rparr>))"
    using net_inv_wf(2) [OF assms(2)] q by (intro kalloc_lk) simp_all
  have rdy: "rx_status (rx_ring s ! ?i) AND E1000_RXD_STAT_DD \<noteq> 0" using assms(3) by (simp add: rx_ready_def)
  have cp: "rx_copy ?len (rx_bufs s ! ?i) (lk E1000_lock s) =
      (if 0 < sint ?len \<and> sint ?len \<le> 4096 \<and> ps \<noteq> []
       then Some (hd ps, lk E1000_lock (s\<lparr>freelist := ld64 (mem s) (hd ps), mem := memmove (mem s) (hd ps) (rx_bufs s ! ?i) ?len\<rparr>))
       else Some (0, lk E1000_lock s))"
  proof (cases ps)
    case Nil
    then have "freelist s = 0" using net_inv_empty(1) assms(2) by blast
    then show ?thesis using kal Nil by (simp add: rx_copy_def)
  next
    case (Cons p ps')
    note ka = net_inv_kalloc [OF assms(2) [unfolded Cons]]
    have "p \<noteq> 0" using valid_page_bound(3) [OF net_inv_wf(5) [OF assms(2)] ka(3)] .
    then show ?thesis using kal ka(5) Cons by (simp add: rx_copy_def)
  qed
  show ?thesis
  proof (cases "0 < sint ?len \<and> sint ?len \<le> 4096 \<and> ps \<noteq> []")
    case True
    then have p0: "hd ps \<noteq> 0"
      using net_inv_wf(1,5) [OF assms(2)] valid_page_bound(3) [of "kend s" "hd ps"] by (cases ps) (auto simp: kmem_wf_def)
    define u where "u = s\<lparr>freelist := ld64 (mem s) (hd ps), mem := memmove (mem s) (hd ps) (rx_bufs s ! ?i) ?len\<rparr>"
    have "rx_copy ?len (rx_bufs s ! ?i) (lk E1000_lock s) = Some (hd ps, lk E1000_lock u)" using cp True by (simp add: u_def)
    moreover have "rx_next u = ?i" by (simp add: u_def rx_next_def)
    moreover have "locks u = locks s" "cpu_st u = cpu_st s" by (simp_all add: u_def)
    ultimately show ?thesis using True rdy ret [of u] rel [of u] p0
      by (simp add: e1000_recv_take_def acq Let_def rx_len_def [symmetric] u_def [symmetric] del: set_reg_lk)
  next
    case False
    then have "rx_copy ?len (rx_bufs s ! ?i) (lk E1000_lock s) = Some (0, lk E1000_lock s)" using cp by auto
    then show ?thesis unfolding if_not_P [OF False] using rdy ret [of s] rel [of s]
      by (simp add: e1000_recv_take_def acq Let_def rx_len_def [symmetric] del: set_reg_lk)
  qed
qed

lemma recv_take_idle:
  assumes "quiet s" "\<not> rx_ready s"
  shows "e1000_recv_take s = Some (False, 0, 0, s)"
proof -
  have "k_acquire E1000_lock s = Some (lk E1000_lock s)" "k_release E1000_lock (lk E1000_lock s) = Some s"
    using assms(1) by (auto intro!: acquire_lk release_lk simp: quietD)
  then show ?thesis using assms(2) by (simp add: e1000_recv_take_def Let_def rx_ready_def)
qed

lemma recv_turn_idle: "quiet s \<Longrightarrow> \<not> rx_ready s \<Longrightarrow> e1000_recv_turn s = Some (False, s)"
  by (simp add: e1000_recv_turn_def recv_take_idle)

text \<open>The part under the lock: the frame is copied to the first free page, which now belongs to the handler.\<close>

lemma recv_take_inv:
  assumes "quiet s" "net_inv s ps qs R" "rx_ready s"
  obtains (none) "e1000_recv_take s = Some (True, 0, rx_len s, rx_return s)" "net_inv (rx_return s) ps qs R"
      "\<not> (0 < sint (rx_len s) \<and> sint (rx_len s) \<le> 4096 \<and> ps \<noteq> [])"
  | (copied) p ps1 v where "e1000_recv_take s = Some (True, p, rx_len s, v)" "ps = p # ps1" "net_inv v ps1 qs (insert p R)" "quiet v"
      "mem v = memmove (mem s) p (rx_bufs s ! rx_next s) (rx_len s)" "same_rx (rx_return s) v" "kend v = kend s" "seen_arp v = seen_arp s"
      "ports_abs (mem v) qs = ports_abs (mem s) qs" "valid_page (kend s) p" "p \<notin> R" "p \<noteq> 0" "0 < sint (rx_len s)" "sint (rx_len s) \<le> 4096"
      "net_pages v ps1 qs = net_pages s ps1 qs"
proof (cases "0 < sint (rx_len s) \<and> sint (rx_len s) \<le> 4096 \<and> ps \<noteq> []")
  case False
  have "e1000_recv_take s = Some (True, 0, rx_len s, rx_return s)"
    unfolding recv_take_ready [OF assms] if_not_P [OF False] ..
  then show ?thesis using none rx_return_inv [OF assms(1,2)] False by blast
next
  case True
  let ?len = "rx_len s" and ?src = "rx_bufs s ! rx_next s"
  obtain p ps1 where ps: "ps = p # ps1" using True by (cases ps) auto
  note ka = net_inv_kalloc [OF assms(2) [unfolded ps]]
  note kb = net_inv_wf(5) [OF assms(2)]
  note pb = valid_page_bound [OF kb ka(3)]
  define m where "m = memmove (mem s) p ?src ?len"
  define u where "u = s\<lparr>freelist := ld64 (mem s) p, mem := m\<rparr>"
  have src: "?src \<in> set (rx_bufs s)" using net_inv_wf(3) [OF assms(2)] rx_next_less [of s] by (simp add: nic_wf_def)
  then have "valid_page (kend s) ?src" using assms(2) by (auto simp: net_inv_def owned_def list_all_iff)
  note sb = valid_page_bound [OF kb this]
  have ln: "unat ?len \<le> 4096"
  proof -
    have "unat ?len < 2 ^ 31" using rx_len_less [of s] by simp
    then show ?thesis using True sint_small [of ?len] by linarith
  qed
  have ag: "agree (mem s) m P" if "aligned_set P" "p \<notin> P" for P
    unfolding m_def using that pb sb ln by (intro memmove_agree [of p]) simp_all
  have pg: "aligned_set (set ps1 \<union> set (pages_of qs))" "p \<notin> set ps1 \<union> set (pages_of qs)"
    using ka(2) by (auto simp: net_inv_def kmem_wf_def owned_def aligned_set_def list_all_iff valid_page_def)
  have iu: "net_inv u ps1 qs (insert p R)" and pu: "ports_abs (mem u) qs = ports_abs (mem s) qs"
    using net_inv_mem [OF ka(2), of m] ag [OF pg] by (simp_all add: u_def)
  have qu: "quiet u" using assms(1) by (simp add: u_def)
  define v where "v = rx_return u"
  have iv: "net_inv v ps1 qs (insert p R)" "quiet v" "mem v = m" "kend v = kend s" "same_rx (rx_return s) v" "seen_arp v = seen_arp s"
    "net_pages v ps1 qs = net_pages s ps1 qs"
    using rx_return_inv [OF qu iu] qu
    by (simp_all add: v_def) (simp_all add: u_def same_rx_def rx_return_def set_reg_def rx_next_def)
  have "e1000_recv_take s = Some (True, p, ?len, v)"
    unfolding recv_take_ready [OF assms] using True ps by (simp add: v_def u_def m_def)
  from copied [OF this ps iv(1,2) _ iv(5,4,6) _ ka(3,4) pb(3)] show ?thesis
    using iv(3,7) pu True by (simp add: m_def u_def)
qed

lemma recv_turn_inv:
  assumes "quiet s" "net_inv s ps qs R"
  obtains (idle) "e1000_recv_turn s = Some (False, s)" "\<not> rx_ready s"
  | (panic) "e1000_recv_turn s = None" "\<not> seen_arp s" "length ps < 2" "rx_ready s"
  | (ok) s' ps' qs' L where "e1000_recv_turn s = Some (True, s')" "quiet s'" "net_inv s' ps' qs' (R \<union> L)" "rx_ready s"
    "same_rx (rx_return s) s'" "length ps \<le> length ps' + 2"
    "ports_abs (mem s') qs' = turn_effect s ps (ports_abs (mem s) qs)" "map fst qs' = map fst qs"
    "net_pages s' ps' qs' \<union> L = net_pages s ps qs" "lost_page s s' L" "L \<inter> R = {}"
proof (cases "rx_ready s")
  case False
  then show ?thesis using idle recv_turn_idle assms(1) by blast
next
  case rdy: True
  show ?thesis
  proof (cases rule: recv_take_inv [OF assms rdy, case_names none copied])
    case none
    then show ?thesis
      using ok [of "rx_return s" ps qs "{}"] rdy assms(1) by (auto simp: turn_effect_def e1000_recv_turn_def)
  next
    case (copied p ps1 v)
    have e: "e1000_recv_turn s = do { s \<leftarrow> net_rx p (rx_len s) v; Some (True, s) }"
      using copied(1,12) by (simp add: e1000_recv_turn_def)
    have vp: "valid_page (kend v) p" using copied(7,10) by simp
    show ?thesis
    proof (cases rule: net_rx_inv [OF copied(4,3) vp copied(11), where len = "rx_len s", case_names panic ok])
      case panic
      then show ?thesis using that(2) e copied(2,8) rdy by simp
    next
      case (ok s' ps' qs' L)
      have "turn_effect s ps (ports_abs (mem s) qs) = rx_effect (mem v) p (rx_len s) ps1 (ports_abs (mem v) qs)"
        using copied by (simp add: turn_effect_def)
      moreover have "same_rx (rx_return s) s'" using copied(6) ok(4) by (rule same_rx_trans)
      moreover have "lost_page s s' L" using ok(9) copied(8) by (simp add: lost_page_def)
      ultimately show ?thesis using that(3) [of s' ps' qs' L] e ok copied rdy by simp
    qed
  qed
qed

text \<open>Received datagrams are appended; nothing that was queued is lost or reordered.\<close>

definition queues_extend :: "(u16 \<times> dgram list) list \<Rightarrow> (u16 \<times> dgram list) list \<Rightarrow> bool" where
  "queues_extend A B \<longleftrightarrow> list_all2 (\<lambda>(p, ds) (p', ds'). p' = p \<and> prefix ds ds') A B"

lemma queues_extend_refl [simp]: "queues_extend A A"
  by (auto simp: queues_extend_def intro: list_all2_refl)

lemma queues_extend_trans: "queues_extend A B \<Longrightarrow> queues_extend B C \<Longrightarrow> queues_extend A C"
  unfolding queues_extend_def by (rule list_all2_trans [of _ "\<lambda>(p, ds) (p', ds'). p' = p \<and> prefix ds ds'"]) auto

lemma turn_effect_extends: "queues_extend A (turn_effect s ps A)"
proof -
  have "queues_extend A (deliver port d A)" for port d
    by (induction A) (simp_all add: queues_extend_def deliver_def split: prod.split)
  then show ?thesis by (simp add: turn_effect_def rx_effect_def)
qed

text \<open>
  The descriptors that the card has filled are those from the one that the driver looks at next up to the head
  register, around the ring.
\<close>

definition rx_done :: "'z e1000_scheme \<Rightarrow> nat \<Rightarrow> bool" where
  "rx_done s i \<longleftrightarrow> rx_status (rx_ring s ! i) AND E1000_RXD_STAT_DD \<noteq> 0"

definition rx_window :: "'z e1000_scheme \<Rightarrow> bool" where
  "rx_window s \<longleftrightarrow> (\<forall>i < RX_RING_SIZE. rx_done s i \<longleftrightarrow> in_ring RX_RING_SIZE (rx_next s) (rdh s) i)"

lemma in_ring_16:
  "h < 16 \<Longrightarrow> t < 16 \<Longrightarrow> i < 16 \<Longrightarrow>
    in_ring 16 h t i \<longleftrightarrow> (if h \<le> i then i - h else i + 16 - h) < (if h \<le> t then t - h else t + 16 - h)"
  by (auto simp: in_ring_def mod_if)

lemma in_ring_cases:
  "h < 16 \<Longrightarrow> t < 16 \<Longrightarrow> i < 16 \<Longrightarrow>
    in_ring 16 h t i \<longleftrightarrow> (if h \<le> t then h \<le> i \<and> i < t else h \<le> i \<or> i < t)"
  unfolding in_ring_16 by (cases "h \<le> t"; cases "h \<le> i") (simp_all, linarith+)

lemma ring_grow:
  assumes "r < 16" "h < 16" "i < 16" "h \<noteq> r"
  shows "in_ring 16 (if r = 15 then 0 else r + 1) (if h = 15 then 0 else h + 1) i \<longleftrightarrow>
    i = h \<or> in_ring 16 (if r = 15 then 0 else r + 1) h i"
proof -
  define n where "n = (if r = 15 then 0 else r + 1)"
  have n: "n < 16" "n \<noteq> h + 1" "n = 0 \<longrightarrow> h \<noteq> 15" using assms by (auto simp: n_def)
  show ?thesis unfolding n_def [symmetric]
    using n assms(2,3) by (cases "h = 15") (auto simp: in_ring_cases)
qed
lemma ring_next: "i < 16 \<Longrightarrow> (i + 1) mod 16 = (if i = 15 then 0 else i + 1)" for i :: nat
  by auto

lemma rx_next_rdt: "rx_next s = (rdt s + 1) mod 16"
  by (simp add: rx_next_def RX_RING_SIZE_def unat_mod_distrib unat_word_ariths mod_mod_cancel)

lemma rx_window_same: "same_rx s t \<Longrightarrow> rx_window t \<longleftrightarrow> rx_window s"
  by (simp add: same_rx_def rx_window_def rx_done_def rx_next_def)

text \<open>Returning the next descriptor moves the start of the window, receiving a frame moves its end.\<close>

lemma rx_window_return:
  assumes "nic_wf s" "rx_window s" "rx_ready s"
  shows "rx_window (rx_return s)"
proof -
  let ?n = "rx_next s"
  have b: "?n < 16" "rdh s < 16" "length (rx_ring s) = 16"
    using assms(1) rx_next_less [of s] by (simp_all add: nic_wf_def RX_RING_SIZE_def)
  have r: "rdh (rx_return s) = rdh s" "rdt (rx_return s) = ?n"
    using b(1) by (simp_all add: rx_return_def set_reg_def e1000_regs unsigned_of_nat take_bit_nat_eq_self)
  then have n: "rx_next (rx_return s) = (if ?n = 15 then 0 else ?n + 1)" using rx_next_rdt [of "rx_return s"] ring_next [OF b(1)] by simp
  have d: "rx_done (rx_return s) i \<longleftrightarrow> i \<noteq> ?n \<and> rx_done s i" if "i < 16" for i
    using that b by (simp add: rx_done_def rx_return_def set_reg_def nth_list_update)
  have "rx_done s ?n" using assms(3) by (simp add: rx_ready_def rx_done_def)
  then have ne: "in_ring 16 ?n (rdh s) ?n" using assms(2) b(1) by (simp add: rx_window_def RX_RING_SIZE_def)
  have w: "rx_done s i \<longleftrightarrow> in_ring 16 ?n (rdh s) i" if "i < 16" for i
    using assms(2) that by (simp add: rx_window_def RX_RING_SIZE_def)
  have "in_ring 16 (if ?n = 15 then 0 else ?n + 1) (rdh s) i \<longleftrightarrow> i \<noteq> ?n \<and> in_ring 16 ?n (rdh s) i" if i: "i < 16" for i
    using ne b i by (cases "?n = 15") (auto simp: in_ring_cases split: if_splits)
  then show ?thesis using d w n r(1) by (simp add: rx_window_def RX_RING_SIZE_def)
qed

lemma rx_window_received:
  assumes "nic_wf s" "rx_window s" "rdh s \<noteq> rdt s" "rx_status d AND E1000_RXD_STAT_DD \<noteq> 0"
  shows "rx_window (set_reg E1000_RDH (of_nat ((rdh s + 1) mod RX_RING_SIZE)) (s\<lparr>mem := m, rx_ring := (rx_ring s)[rdh s := d]\<rparr>))"
    (is "rx_window ?t")
proof -
  let ?n = "rx_next s" and ?h = "rdh s"
  have b: "?n < 16" "?h < 16" "rdt s < 16" "length (rx_ring s) = 16"
    using assms(1) rx_next_less [of s] by (simp_all add: nic_wf_def RX_RING_SIZE_def)
  have n: "?n = (if rdt s = 15 then 0 else rdt s + 1)" using rx_next_rdt [of s] ring_next [OF b(3)] by simp
  have t: "rx_next ?t = ?n" "rdh ?t = (if ?h = 15 then 0 else ?h + 1)"
    using ring_next [OF b(2)]
    by (simp_all add: rx_next_def set_reg_def e1000_regs RX_RING_SIZE_def unsigned_of_nat take_bit_nat_eq_self)
  have dn: "rx_done ?t i \<longleftrightarrow> i = ?h \<or> rx_done s i" if "i < 16" for i
    using that b assms(4) by (simp add: rx_done_def set_reg_def nth_list_update)
  have w: "rx_done s i \<longleftrightarrow> in_ring 16 ?n ?h i" if "i < 16" for i
    using assms(2) that by (simp add: rx_window_def RX_RING_SIZE_def)
  have "in_ring 16 ?n (if ?h = 15 then 0 else ?h + 1) i \<longleftrightarrow> i = ?h \<or> in_ring 16 ?n ?h i" if i: "i < 16" for i
    unfolding n by (rule ring_grow) (use b i assms(3) in simp_all)
  then show ?thesis using dn w t by (simp add: rx_window_def RX_RING_SIZE_def)
qed

text \<open>The number of descriptors that the card has filled.\<close>

definition dd_count :: "'z e1000_scheme \<Rightarrow> nat" where
  "dd_count s = length (filter (\<lambda>d. rx_status d AND E1000_RXD_STAT_DD \<noteq> 0) (rx_ring s))"

lemma filter_update_less:
  "i < length xs \<Longrightarrow> P (xs ! i) \<Longrightarrow> \<not> P x \<Longrightarrow> Suc (length (filter P (xs[i := x]))) = length (filter P xs)"
  by (induction xs arbitrary: i) (auto split: nat.splits)

lemma dd_count_turn:
  assumes "nic_wf s" "rx_ready s" "same_rx (rx_return s) s'"
  shows "Suc (dd_count s') = dd_count s"
proof -
  have "rx_ring s' = (rx_ring s)[rx_next s := (rx_ring s ! rx_next s)\<lparr>rx_status := 0\<rparr>]"
    using assms(3) by (simp add: same_rx_def rx_return_def set_reg_def)
  then show ?thesis unfolding dd_count_def
    using filter_update_less [of "rx_next s" "rx_ring s" "\<lambda>d. rx_status d AND E1000_RXD_STAT_DD \<noteq> 0" "(rx_ring s ! rx_next s)\<lparr>rx_status := 0\<rparr>"]
      assms(1,2) rx_next_less [of s] by (simp add: nic_wf_def rx_ready_def)
qed

text \<open>When the next descriptor is not done, none is.\<close>

lemma rx_window_drained:
  assumes "nic_wf s" "rx_window s" "\<not> rx_ready s"
  shows "rdh s = rx_next s" "dd_count s = 0"
proof -
  let ?n = "rx_next s"
  have b: "?n < 16" "rdh s < 16" "length (rx_ring s) = 16"
    using assms(1) rx_next_less [of s] by (simp_all add: nic_wf_def RX_RING_SIZE_def)
  have w: "rx_done s i \<longleftrightarrow> in_ring 16 ?n (rdh s) i" if "i < 16" for i
    using assms(2) that by (simp add: rx_window_def RX_RING_SIZE_def)
  have "\<not> in_ring 16 ?n (rdh s) ?n" using w [OF b(1)] assms(3) by (simp add: rx_ready_def rx_done_def)
  then show e: "rdh s = ?n" using b by (auto simp: in_ring_cases split: if_splits)
  have "\<not> rx_done s i" if "i < 16" for i using w [OF that] e by (simp add: in_ring_def)
  then show "dd_count s = 0" using b(3) by (auto simp: dd_count_def filter_empty_conv in_set_conv_nth rx_done_def)
qed

text \<open>The loop drains the ring, or panics on the first ARP frame for lack of a page.\<close>

lemma recv_inv:
  assumes "quiet s" "net_inv s ps qs R"
  shows "(e1000_recv s = None \<and> \<not> seen_arp s \<and> length ps < 2 * dd_count s) \<or>
    (\<exists>s' ps' qs' L. e1000_recv s = Some s' \<and> quiet s' \<and> net_inv s' ps' qs' (R \<union> L) \<and> \<not> rx_ready s' \<and> kend s' = kend s \<and>
      map fst qs' = map fst qs \<and> queues_extend (ports_abs (mem s) qs) (ports_abs (mem s') qs') \<and> (rx_window s \<longrightarrow> rx_window s') \<and>
      net_pages s' ps' qs' \<union> L = net_pages s ps qs \<and> lost_page s s' L \<and> L \<inter> R = {} \<and> (seen_arp s \<longrightarrow> seen_arp s'))"
  using assms
proof (induction "dd_count s" arbitrary: s ps qs R)
  case 0
  have "\<not> rx_ready s"
    using 0(1) net_inv_wf(3) [OF 0(3)] nth_mem [of "rx_next s" "rx_ring s"] rx_next_less [of s]
    by (simp add: dd_count_def rx_ready_def filter_empty_conv nic_wf_def)
  then have "e1000_recv s = Some s" using recv_turn_idle [OF 0(2)] by (subst e1000_recv.simps) simp
  then show ?case using 0 \<open>\<not> rx_ready s\<close> by (intro disjI2 exI [of _ s] exI [of _ ps] exI [of _ qs] exI [of _ "{}"]) simp
next
  case (Suc n)
  show ?case
  proof (cases rule: recv_turn_inv [OF Suc(3,4), case_names idle panic ok])
    case idle
    then have "e1000_recv s = Some s" by (subst e1000_recv.simps) simp
    then show ?thesis using Suc idle by (intro disjI2 exI [of _ s] exI [of _ ps] exI [of _ qs] exI [of _ "{}"]) simp
  next
    case panic
    then have "e1000_recv s = None" by (subst e1000_recv.simps) simp
    then show ?thesis using panic Suc(2) [symmetric] by simp
  next
    case (ok s' ps' qs' L)
    have e: "e1000_recv s = e1000_recv s'" using ok(1) by (subst e1000_recv.simps) simp
    have n: "n = dd_count s'" using dd_count_turn [OF net_inv_wf(3) [OF Suc(4)] ok(4,5)] Suc(2) by simp
    have k: "kend s' = kend s" "seen_arp s \<longrightarrow> seen_arp s'" using ok(5) by (simp_all add: same_rx_def)
    have x: "queues_extend (ports_abs (mem s) qs) (ports_abs (mem s') qs')" unfolding ok(7) by (rule turn_effect_extends)
    have w: "rx_window s \<longrightarrow> rx_window s'"
      using rx_window_return [OF net_inv_wf(3) [OF Suc(4)] _ ok(4)] rx_window_same [OF ok(5)] by blast
    from Suc(1) [OF n ok(2,3)] show ?thesis
    proof (elim disjE exE conjE)
      assume "e1000_recv s' = None" "\<not> seen_arp s'" "length ps' < 2 * dd_count s'"
      then show ?thesis using e k ok(6) n Suc(2) by simp
    next
      fix s2 ps2 qs2 L2
      assume h: "e1000_recv s' = Some s2" "quiet s2" "net_inv s2 ps2 qs2 (R \<union> L \<union> L2)" "\<not> rx_ready s2" "kend s2 = kend s'"
        "map fst qs2 = map fst qs'" "queues_extend (ports_abs (mem s') qs') (ports_abs (mem s2) qs2)"
        "rx_window s' \<longrightarrow> rx_window s2" "net_pages s2 ps2 qs2 \<union> L2 = net_pages s' ps' qs'" "lost_page s' s2 L2" "L2 \<inter> (R \<union> L) = {}"
        "seen_arp s' \<longrightarrow> seen_arp s2"
      have "lost_page s s2 (L \<union> L2)" using ok(10) h(10,12) k(2) by (auto simp: lost_page_def)
      moreover have "net_pages s2 ps2 qs2 \<union> (L \<union> L2) = net_pages s ps qs" using h(9) ok(9) by auto
      moreover have "(L \<union> L2) \<inter> R = {}" using h(11) ok(11) by auto
      ultimately show ?thesis using h e k ok(8) w queues_extend_trans [OF x h(7)]
        by (intro disjI2 exI [of _ s2] exI [of _ ps2] exI [of _ qs2] exI [of _ "L \<union> L2"]) (simp add: Un_assoc)
    qed
  qed
qed

section \<open>The card\<close>

lemma nic_step_inv:
  assumes "nic_step s s'" "quiet s" "net_inv s ps qs R"
  shows "quiet s'" "net_inv s' ps qs R" "ports_abs (mem s') qs = ports_abs (mem s) qs"
    "net_pages s' ps qs = net_pages s ps qs" "rx_window s \<Longrightarrow> rx_window s'" "seen_arp s' = seen_arp s"
proof -
  note wf = net_inv_wf(3) [OF assms(3)]
  have "quiet s' \<and> net_inv s' ps qs R \<and> ports_abs (mem s') qs = ports_abs (mem s) qs"
    using assms(1)
  proof cases
    case (sent d)
    let ?r = "(tx_ring s)[tdh s := d\<lparr>tx_status := tx_status d OR E1000_TXD_STAT_DD\<rparr>]"
    let ?u = "s\<lparr>tx_ring := ?r\<rparr>"
    have "unat (of_nat ((tdh s + 1) mod TX_RING_SIZE) :: u32) < TX_RING_SIZE"
      by (simp add: TX_RING_SIZE_def unsigned_of_nat take_bit_nat_eq_self)
    moreover have "(tx_status d OR E1000_TXD_STAT_DD) AND E1000_TXD_STAT_DD \<noteq> 0"
      by (simp add: E1000_TXD_STAT_DD_def bit_eq_iff) (auto simp: bit_simps)
    ultimately have "nic_wf s'"
      using wf sent by (auto simp: nic_wf_def set_reg_def nth_list_update e1000_regs)
    moreover have "kmem_wf s' ps"
      using net_inv_wf(1) [OF assms(3)] sent by (simp add: kmem_wf_def kmem_lockable_def set_reg_def)
    ultimately show ?thesis using assms(2,3) sent by (simp add: net_inv_def owned_def tx_pages_def set_reg_def quiet_def)
  next
    case (received d frame)
    define m where "m = mwrite (mem s) (P2V (rx_addr d)) frame"
    define u where "u = s\<lparr>mem := m\<rparr>"
    let ?b = "rx_bufs s ! rdh s"
    have b: "?b \<in> set (rx_bufs s)" "P2V (rx_addr d) = ?b" using wf received by (simp_all add: nic_wf_def P2V_def V2P_def)
    have pg: "aligned_set (set ps \<union> set (pages_of qs))" "?b \<notin> set ps \<union> set (pages_of qs)" "page_aligned ?b"
      using assms(3) b(1) by (auto simp: net_inv_def kmem_wf_def owned_def aligned_set_def list_all_iff valid_page_def)
    have "agree (mem s) m (set ps \<union> set (pages_of qs))"
      unfolding m_def b(2) using pg received by (intro agree_mwrite [of ?b]) simp_all
    note nm = net_inv_mem [OF assms(3) this]
    have "unat (of_nat ((rdh s + 1) mod RX_RING_SIZE) :: u32) < RX_RING_SIZE"
      by (simp add: RX_RING_SIZE_def unsigned_of_nat take_bit_nat_eq_self)
    then have "nic_wf s'"
      using wf received by (auto simp: nic_wf_def set_reg_def nth_list_update e1000_regs)
    moreover have "kmem_wf s' ps"
      using net_inv_wf(1) [OF nm(1)] received by (simp add: kmem_wf_def kmem_lockable_def set_reg_def m_def)
    ultimately show ?thesis using assms(2) nm received
      by (simp add: net_inv_def owned_def tx_pages_def set_reg_def quiet_def m_def)
  qed
  then show "quiet s'" "net_inv s' ps qs R" "ports_abs (mem s') qs = ports_abs (mem s) qs" by blast+
  show "net_pages s' ps qs = net_pages s ps qs" "seen_arp s' = seen_arp s"
    using assms(1) by (cases; simp add: net_pages_def owned_def tx_pages_def set_reg_def)+
  show "rx_window s'" if "rx_window s"
    using assms(1)
  proof cases
    case (sent d)
    then have "same_rx s s'" by (simp add: same_rx_def set_reg_def e1000_regs)
    then show ?thesis using rx_window_same that by blast
  next
    case (received d frame)
    have "rx_status (d\<lparr>rx_length := of_nat (length frame), rx_status := E1000_RXD_STAT_DD OR E1000_RXD_STAT_EOP\<rparr>) AND E1000_RXD_STAT_DD \<noteq> 0"
      by (simp add: E1000_RXD_STAT_DD_def E1000_RXD_STAT_EOP_def)
    from rx_window_received [OF wf that received(2) this] show ?thesis using received by simp
  qed
qed

end
