(* ===== verification/NetSys.thy ===== *)
theory NetSys
  imports NetRx
begin

text \<open>
  The system calls of the network code from a state between operations: \<open>bind\<close>, \<open>recv\<close> and \<open>send\<close>.
\<close>

section \<open>bind\<close>

lemma argint_some: "curproc s = Some me \<Longrightarrow> n < 6 \<Longrightarrow> \<exists>v. argint n s = Some v"
  by (auto simp: argint_def cur_tf_def fetcharg_def)

lemma argaddr_some: "curproc s = Some me \<Longrightarrow> n < 6 \<Longrightarrow> \<exists>v. argaddr n s = Some v"
  by (auto simp: argaddr_def cur_tf_def fetcharg_def)

definition new_queue :: "addr \<Rightarrow> u16 \<Rightarrow> addr \<Rightarrow> memory \<Rightarrow> memory" where
  "new_queue q port nxt m = st64 (st32 (st64 (st64 (st16 (memset m q 0 PGSIZE) (pq_port q) port) (pq_tail q) 0) (pq_head q) 0)
     (pq_count q) 0) (pq_next q) nxt"

lemma new_queue_is:
  "is_queue (new_queue q port nxt m) q port []" "ld64 (new_queue q port nxt m) (pq_next q) = nxt"
  by (simp_all add: new_queue_def is_queue_def queue_offsets field_simps')

lemma new_queue_agree:
  assumes "page_aligned q" "aligned_set P" "q \<notin> P"
  shows "agree m (new_queue q port nxt m) P"
proof -
  have "agree m (memset m q 0 PGSIZE) P" unfolding memset_page using assms by (intro agree_mfill [of q]) simp_all
  then show ?thesis unfolding new_queue_def
    by (intro agree_writes [OF assms]) (simp_all add: queue_offsets)
qed

lemma new_queue_inv:
  assumes inv: "net_inv s (q # ps) qs R" and p: "port \<notin> set (map fst (ports_abs (mem s) qs))"
  defines "u \<equiv> s\<lparr>freelist := ld64 (mem s) q, mem := new_queue q port (port_list s) (mem s), port_list := q\<rparr>"
  shows "net_inv u ps ((q, port, []) # qs) R" "ports_abs (mem u) ((q, port, []) # qs) = (port, []) # ports_abs (mem s) qs"
    "net_pages u ps ((q, port, []) # qs) = net_pages s (q # ps) qs" "same_rx s u"
proof -
  note ka = net_inv_kalloc [OF inv]
  note kb = valid_page_bound [OF net_inv_wf(5) [OF inv] ka(3)]
  note ch = net_inv_wf(4) [OF inv]
  let ?m = "new_queue q port (port_list s) (mem s)"
  have ag: "agree (mem s) ?m P" if "aligned_set P" "q \<notin> P" for P using kb(2) that by (rule new_queue_agree)
  have pg: "aligned_set (set ps)" "aligned_set (set (pages_of qs))" "q \<notin> set ps" "q \<notin> set (pages_of qs)"
    using ka(2) by (auto simp: net_inv_def kmem_wf_def owned_def aligned_set_def list_all_iff valid_page_def)
  have wf: "kmem_wf u ps"
    using kmem_wf_agree [OF net_inv_wf(1) [OF ka(2)], of ?m] ag [OF pg(1,3)]
    by (simp add: u_def kmem_wf_def kmem_lockable_def)
  have ch': "port_chain (mem u) (port_list u) ((q, port, []) # qs)"
    using new_queue_is [of q port "port_list s" "mem s"] kb(3) ch port_chain_agree [OF ag [OF pg(2,4)]]
    by (simp add: u_def)
  show "net_inv u ps ((q, port, []) # qs) R"
    using inv wf ch' ka(3,4) p unfolding ports_abs_simps(4)
    by (auto simp: net_inv_def u_def owned_def tx_pages_def nic_wf_def)
  have "ports_abs ?m qs = ports_abs (mem s) qs" using ch ag [OF pg(2,4)] by (rule ports_abs_agree)
  then show "ports_abs (mem u) ((q, port, []) # qs) = (port, []) # ports_abs (mem s) qs" by (simp add: u_def)
  show "net_pages u ps ((q, port, []) # qs) = net_pages s (q # ps) qs" by (simp add: u_def net_pages_def owned_def tx_pages_def)
  show "same_rx s u" by (simp add: u_def)
qed

lemma bind_inv:
  assumes "quiet s" "net_inv s ps qs R" "argint 0 s = Some port"
  obtains (refused) "sys_bind s = Some (-1, s)"
      "sint port < 0 \<or> sint port > 0xFFFF \<or> ucast port \<in> set (map fst (ports_abs (mem s) qs)) \<or> ps = []"
  | (bound) s' q ps' where "sys_bind s = Some (0, s')" "quiet s'" "ps = q # ps'" "net_inv s' ps' ((q, ucast port, []) # qs) R"
      "0 \<le> sint port" "sint port \<le> 0xFFFF" "ucast port \<notin> set (map fst (ports_abs (mem s) qs))"
      "ports_abs (mem s') ((q, ucast port, []) # qs) = (ucast port, []) # ports_abs (mem s) qs"
      "net_pages s' ps' ((q, ucast port, []) # qs) = net_pages s ps qs" "same_rx s s'"
proof -
  let ?p = "ucast port :: u16"
  have acq: "k_acquire Netlock s = Some (lk Netlock s)" and rel: "k_release Netlock (lk Netlock s) = Some s"
    using assms(1) by (auto intro!: acquire_lk release_lk simp: quietD)
  note ch = net_inv_wf(4) [OF assms(2)]
  have fnd: "find_port_queue ?p (lk Netlock s) = Some (lookup_port ?p qs)"
    using find_port_from_chain [OF ch] by (simp add: find_port_queue_def)
  have dom: "lookup_port ?p qs = 0 \<longleftrightarrow> ?p \<notin> set (map fst (ports_abs (mem s) qs))"
    unfolding ports_abs_simps(4) using lookup_port_zero [OF ch, of ?p] by simp
  have lkb: "kmem_lockable s" "settled (cpu_st s)" using assms(1) by (simp_all add: lockable_quiet quietD)
  note kal = kalloc_lk [OF lkb, of Netlock, simplified]
  show ?thesis
  proof (cases "sint port < 0 \<or> sint port > 0xFFFF \<or> lookup_port ?p qs \<noteq> 0 \<or> ps = []")
    case True
    have "sys_bind s = Some (-1, s)"
    proof (cases "ps = []")
      case True
      then have "freelist s = 0" using net_inv_empty(1) assms(2) by blast
      then show ?thesis using assms(3) acq rel fnd kal by (simp add: sys_bind_def)
    next
      case False
      then show ?thesis using True assms(3) acq rel fnd by (auto simp: sys_bind_def)
    qed
    then show ?thesis using refused True dom by auto
  next
    case False
    then obtain q ps' where ps: "ps = q # ps'" by (cases ps) auto
    note ka = net_inv_kalloc [OF assms(2) [unfolded ps]]
    note kb = valid_page_bound [OF net_inv_wf(5) [OF assms(2)] ka(3)]
    define m where "m = new_queue q ?p (port_list s) (mem s)"
    define u where "u = s\<lparr>freelist := ld64 (mem s) q, mem := m, port_list := q\<rparr>"
    have qu: "quiet u" using assms(1) by (simp add: u_def)
    have relu: "k_release Netlock (lk Netlock u) = Some u" using qu by (intro release_lk) (simp_all add: quietD)
    have e: "sys_bind s = Some (0, u)"
      using False assms(3) acq fnd kal ka(5) kb(3) relu by (simp add: sys_bind_def Let_def new_queue_def u_def m_def)
    have d: "?p \<notin> set (map fst (ports_abs (mem s) qs))" using False dom by auto
    note nq = new_queue_inv [OF assms(2) [unfolded ps] d, folded m_def, folded u_def]
    show ?thesis using bound [OF e qu ps nq(1)] False d nq(2-4) ps by simp
  qed
qed

section \<open>recv\<close>

text \<open>Both pages of a packet are freed.\<close>

lemma free_pkt_inv:
  assumes "quiet s" "net_inv s ps qs (insert b (insert k R))" "k \<noteq> b" "k \<notin> R" "b \<notin> R"
    and "valid_page (kend s) k" "valid_page (kend s) b" "ld64 (mem s) (pkt_fullbuf k) = b"
  shows "free_pkt k s = Some (push_page k (push_page b s))" "net_inv (push_page k (push_page b s)) (k # b # ps) qs R"
    "ports_abs (mem (push_page k (push_page b s))) qs = ports_abs (mem s) qs" "quiet (push_page k (push_page b s))"
    "\<And>P. aligned_set P \<Longrightarrow> k \<notin> P \<Longrightarrow> b \<notin> P \<Longrightarrow> agree (mem s) (mem (push_page k (push_page b s))) P"
proof -
  have bk: "b \<notin> insert k R" using assms by simp
  note k1 = net_inv_kfree [OF assms(2,7) bk]
  have vk: "valid_page (kend (push_page b s)) k" using assms(6) by (simp add: push_page_def)
  note k2 = net_inv_kfree [OF k1(2) vk assms(4)]
  show "free_pkt k s = Some (push_page k (push_page b s))" using k1(1) k2(1) assms(8) by (simp add: free_pkt_def)
  show "net_inv (push_page k (push_page b s)) (k # b # ps) qs R" by (rule k2(2))
  show "ports_abs (mem (push_page k (push_page b s))) qs = ports_abs (mem s) qs" using k1(3) k2(3) by simp
  show "quiet (push_page k (push_page b s))" using assms(1) by simp
  show "agree (mem s) (mem (push_page k (push_page b s))) P" if P: "aligned_set P" "k \<notin> P" "b \<notin> P" for P
  proof -
    have "agree (mem s) (mem (push_page b s)) P"
      using P assms(7) unfolding push_page_def by (simp add: kfree_agree valid_page_def)
    moreover have "agree (mem (push_page b s)) (mem (push_page k (push_page b s))) P"
      using P assms(6) unfolding push_page_def [of k] by (simp add: kfree_agree valid_page_def)
    ultimately show ?thesis by (rule agree_trans)
  qed
qed

definition take_head :: "u16 \<Rightarrow> (u16 \<times> dgram list) list \<Rightarrow> (u16 \<times> dgram list) list" where
  "take_head port A = map (\<lambda>(p, ds). if p = port then (p, tl ds) else (p, ds)) A"

lemma take_head_append: "take_head port (A @ B) = take_head port A @ take_head port B"
  by (simp add: take_head_def)

lemma take_head_Cons: "take_head port ((p, ds) # A) = (p, if p = port then tl ds else ds) # take_head port A"
  by (simp add: take_head_def)

lemma take_head_other: "port \<notin> fst ` set A \<Longrightarrow> take_head port A = A"
  unfolding take_head_def by (intro map_idI) (auto simp: rev_image_eqI)

text \<open>Unlinking the first packet of one queue.\<close>

lemma dequeue_inv:
  assumes inv: "net_inv s ps (qs1 @ (q, port, (k, b) # ks) # qs2) R"
  obtains m where "pop_pkt (mem s) q = (k, m)" "net_inv (s\<lparr>mem := m\<rparr>) ps (qs1 @ (q, port, ks) # qs2) (insert b (insert k R))"
    "ports_abs m (qs1 @ (q, port, ks) # qs2) = take_head port (ports_abs (mem s) (qs1 @ (q, port, (k, b) # ks) # qs2))"
    "pkt_fields m k b" "dgram_at m k = dgram_at (mem s) k" "k \<noteq> b" "k \<notin> R" "b \<notin> R" "valid_page (kend s) k" "valid_page (kend s) b"
    "\<And>P. aligned_set P \<Longrightarrow> q \<notin> P \<Longrightarrow> agree (mem s) m P"
proof -
  let ?qs = "qs1 @ (q, port, (k, b) # ks) # qs2" and ?qs' = "qs1 @ (q, port, ks) # qs2"
  have ch: "port_chain (mem s) (port_list s) ?qs" by (rule net_inv_wf(4) [OF inv])
  have iq: "is_queue (mem s) q port ((k, b) # ks)" using port_chain_split(1) [OF ch] by simp
  have al: "aligned_set (set (pages_of ?qs))" using net_inv_pages(1) [OF inv] .
  have dis: "distinct (ps @ owned s ?qs)" "set (ps @ owned s ?qs) \<inter> R = {}" "list_all (valid_page (kend s)) (owned s ?qs)"
    using inv unfolding net_inv_def by blast+
  have aq: "page_aligned q" "aligned_set (set (pkt_pages ((k, b) # ks)))" "q \<notin> set (pkt_pages ((k, b) # ks))"
    using al dis(1) by (auto simp: aligned_set_def owned_def)
  obtain m where p: "pop_pkt (mem s) q = (k, m)" "is_queue m q port ks" "ld64 m (pq_next q) = ld64 (mem s) (pq_next q)"
    "\<And>P. aligned_set P \<Longrightarrow> q \<notin> P \<Longrightarrow> agree (mem s) m P"
    using pop_pkt_queue [OF iq aq] by metis
  have f: "pkt_fields (mem s) k b" using iq by (simp add: is_queue_def)
  have agk: "agree (mem s) m {k, b}" using aq by (intro p(4)) (auto simp: aligned_set_def)
  have f': "pkt_fields m k b" "dgram_at m k = dgram_at (mem s) k"
    using f pkt_fields_agree [OF agk, of k b] dgram_agree [OF f agk] by simp_all
  have agr: "agree (mem s) m (set (pages_of qs1) \<union> set (pages_of qs2))"
    using al dis(1) by (intro p(4)) (auto simp: aligned_set_def owned_def)
  have ch': "port_chain m (port_list s) ?qs'" using port_chain_replace [OF ch agr p(2,3)] .
  have agp: "agree (mem s) m (set ps)"
    using net_inv_pages(2) [OF inv] dis(1) by (intro p(4)) (auto simp: owned_def)
  have wf: "kmem_wf (s\<lparr>mem := m\<rparr>) ps" using kmem_wf_agree [OF net_inv_wf(1) [OF inv] agp] .
  have v: "valid_page (kend s) k" "valid_page (kend s) b" using dis(3) by (auto simp: owned_def)
  have n: "net_inv (s\<lparr>mem := m\<rparr>) ps ?qs' (insert b (insert k R))"
    using inv wf ch' v by (auto simp: net_inv_def owned_def tx_pages_def nic_wf_def aligned_set_def valid_page_def)
  have qa: "list_all (\<lambda>(q, port, ks). is_queue (mem s) q port ks) qs1" "list_all (\<lambda>(q, port, ks). is_queue (mem s) q port ks) qs2"
    using port_chain_queues [OF ch] by simp_all
  have "ports_abs m qs1 = ports_abs (mem s) qs1" "ports_abs m qs2 = ports_abs (mem s) qs2"
    using agr by (auto simp: agree_Un intro!: queues_abs_agree [OF qa(1)] queues_abs_agree [OF qa(2)])
  moreover have "map (\<lambda>(k, b). dgram_at m k) ks = map (\<lambda>(k, b). dgram_at (mem s) k) ks"
  proof (rule pkts_abs_agree)
    show "pkt_chain (mem s) (ld64 (mem s) (pkt_next k)) ks" using iq by (simp add: is_queue_def)
    show "agree (mem s) m (set (pkt_pages ks))" using aq by (intro p(4)) (auto simp: aligned_set_def)
  qed
  moreover have "port \<notin> fst ` set (ports_abs (mem s) qs1)" "port \<notin> fst ` set (ports_abs (mem s) qs2)"
  proof -
    have "port \<notin> set (map (fst \<circ> snd) qs1)" "port \<notin> set (map (fst \<circ> snd) qs2)" using inv by (auto simp: net_inv_def)
    then show "port \<notin> fst ` set (ports_abs (mem s) qs1)" "port \<notin> fst ` set (ports_abs (mem s) qs2)"
      unfolding ports_abs_simps(4) [of "mem s", symmetric] by (simp_all only: set_map not_False_eq_True)
  qed
  ultimately have a: "ports_abs m ?qs' = take_head port (ports_abs (mem s) ?qs)"
    by (simp add: take_head_append take_head_Cons take_head_other)
  have "k \<noteq> b" "k \<notin> R" "b \<notin> R" using dis by (auto simp: owned_def)
  then show ?thesis using that [OF p(1) n a f'] v p(4) by blast
qed

text \<open>A range of user memory that can be written: mapped for the user, page by page to different frames.\<close>

definition user_range :: "memory \<Rightarrow> addr \<Rightarrow> addr \<Rightarrow> nat \<Rightarrow> bool" where
  "user_range m pgdir va n \<longleftrightarrow> unat va + n < 2 ^ 64 \<and> 0 \<notin> uframes m pgdir va n \<and>
     (\<forall>i < n. \<forall>j < n. upage m pgdir (va + of_nat i) = upage m pgdir (va + of_nat j) \<longrightarrow>
        PGROUNDDOWN (va + of_nat i) = PGROUNDDOWN (va + of_nat j))"

lemma user_range_agree:
  assumes "aspace m pgdir T U" "agree m m' T"
  shows "user_range m' pgdir va n \<longleftrightarrow> user_range m pgdir va n"
  using aspace_agree(2) [OF assms] by (simp add: user_range_def uframes_def)

lemma uframes_user: "aspace m pgdir T U \<Longrightarrow> 0 \<notin> uframes m pgdir va n \<Longrightarrow> uframes m pgdir va n \<subseteq> U"
  by (auto simp: aspace_def uframes_def image_iff)

lemma copy_ok_user:
  assumes "aspace m pgdir T U" "user_range m pgdir va n" "page_aligned q" "q \<notin> U" "within q buf n" "unat q < 2 ^ 64 - 8192"
  shows "copy_ok m pgdir va buf n"
proof -
  have fr: "uframes m pgdir va n \<subseteq> U" using assms(1,2) by (intro uframes_user) (simp_all add: user_range_def)
  have "unat (q + (buf - q)) = unat q + unat (buf - q)" using assms(5,6) by (intro unat_sum_no_wrap) (simp add: within_def)
  then have b: "unat buf + n < 2 ^ 64" using assms(5,6) by (simp add: within_def)
  have "4096 \<le> unat (buf + of_nat i - f)" if f: "f \<in> uframes m pgdir va n" and i: "i < n" for f i
  proof -
    have "f \<noteq> 0" using f assms(2) by (auto simp: user_range_def)
    then have "page_aligned f" "f \<noteq> q" using f fr assms(4) upage_page by (auto simp: uframes_def)
    then show ?thesis using within_byte [OF assms(5) i] assms(3) page_disjoint [of q f] by blast
  qed
  moreover have "va_tables m pgdir (va + of_nat i) \<inter> uframes m pgdir va n = {}" for i
    using fr assms(1) unfolding aspace_def by blast
  moreover have "page_aligned pgdir" using assms(1) by (simp add: aspace_def)
  ultimately show ?thesis using assms(2) b unfolding copy_ok_def user_range_def by blast
qed

lemma copyout_user:
  assumes "aspace (mem s) pgdir T U" "page_aligned q" "q \<notin> U" "within q buf (unat len)" "unat q < 2 ^ 64 - 8192"
  obtains r m' where "copyout pgdir va buf len s = Some (r, s\<lparr>mem := m'\<rparr>)" "r = 0 \<or> r = -1"
    "\<And>P. aligned_set P \<Longrightarrow> P \<inter> U = {} \<Longrightarrow> agree (mem s) m' P"
    "user_range (mem s) pgdir va (unat len) \<Longrightarrow> r = 0 \<and> ubytes m' pgdir va (unat len) = mread (mem s) buf (unat len)"
proof -
  have "unat (q + (buf - q)) = unat q + unat (buf - q)" using assms(4,5) by (intro unat_sum_no_wrap) (simp add: within_def)
  then have "unat buf + unat len < 2 ^ 64" using assms(4,5) by (simp add: within_def)
  from copyout_frame [OF assms(1) this, of va] obtain r m' where c:
    "copyout_loop pgdir va buf len s = Some (r, s\<lparr>mem := m'\<rparr>)" "r = 0 \<or> r = -1"
    "\<forall>P. aligned_set P \<longrightarrow> P \<inter> U = {} \<longrightarrow> agree (mem s) m' P" by blast
  have "r = 0 \<and> ubytes m' pgdir va (unat len) = mread (mem s) buf (unat len)" if ur: "user_range (mem s) pgdir va (unat len)"
  proof -
    note ok = copy_ok_user [OF assms(1) ur assms(2-5)]
    from copyout_loop_correct [OF ok] obtain m'' where m'':
      "copyout_loop pgdir va buf len s = Some (0, s\<lparr>mem := m''\<rparr>)"
      "\<forall>x. (\<forall>f \<in> uframes (mem s) pgdir va (unat len). 4096 \<le> unat (x - f)) \<longrightarrow> m'' x = mem s x"
      "\<forall>i < unat len. m'' (ukaddr (mem s) pgdir (va + of_nat i)) = mem s (buf + of_nat i)" by blast
    have e: "s\<lparr>mem := m'\<rparr> = s\<lparr>mem := m''\<rparr>" and "r = 0" using c(1) m''(1) by simp_all
    have "m' = m''" using arg_cong [OF e, of mem] by simp
    then show ?thesis using m''(3) copy_ok_stable [OF ok m''(2)] \<open>r = 0\<close> by (auto simp: ubytes_def mread_def ukaddr_def)
  qed
  then show ?thesis using that c by (simp add: copyout_def)
qed

lemma ubytes_agree:
  assumes "aspace m pgdir T U" "agree m m' (T \<union> U)" "0 \<notin> uframes m pgdir va n"
  shows "ubytes m' pgdir va n = ubytes m pgdir va n"
proof -
  have t: "agree m m' T" "agree m m' U" using assms(2) by (simp_all add: agree_Un)
  have "m' (ukaddr m' pgdir (va + of_nat i)) = m (ukaddr m pgdir (va + of_nat i))" if "i < n" for i
  proof -
    let ?x = "va + of_nat i"
    have "upage m pgdir ?x \<in> U" using uframes_user [OF assms(1,3)] that by (auto simp: uframes_def)
    moreover have "within (upage m pgdir ?x) (ukaddr m pgdir ?x) 1" using page_rest_pos [of ?x] by (intro within_ukaddr) simp
    ultimately have "m' (ukaddr m pgdir ?x) = m (ukaddr m pgdir ?x)" using agree_byte [OF t(2)] by blast
    then show ?thesis using aspace_agree(2) [OF assms(1) t(1)] by (simp add: ukaddr_def)
  qed
  then show ?thesis by (simp add: ubytes_def)
qed

text \<open>
  The pages of a caller: its page tables, its frames, and the part of its kernel stack that holds the
  local variables of \<open>sys_recv\<close>; none of them belongs to the network code.
\<close>

definition caller_pages :: "'z net_scheme \<Rightarrow> addr \<Rightarrow> addr set \<Rightarrow> addr set \<Rightarrow> addr \<Rightarrow> addr set \<Rightarrow> bool" where
  "caller_pages s pgdir T U lp R \<longleftrightarrow> aspace (mem s) pgdir T U \<and> T \<union> U \<subseteq> R \<and> lp \<in> R \<and> lp \<notin> T \<union> U \<and>
     unat lp < 2 ^ 64 - 8192 \<and> within lp (recv_locals s) 6"

lemma tocpy_bounds: "0 \<le> tocpy p l" "tocpy p l \<le> 1500"
  by (simp_all add: tocpy_def Let_def)

lemma unat_tocpy: "unat (of_int (tocpy p l) :: u64) = nat (tocpy p l)"
  using tocpy_bounds [of p l] by (simp add: unsigned_of_int take_bit_int_eq_self)

lemma mread_take: "n \<le> k \<Longrightarrow> mread m a n = take n (mread m a k)"
  by (simp add: mread_def take_map)

definition recv_count :: "dgram \<Rightarrow> recv_args \<Rightarrow> nat" where
  "recv_count d a = nat (min (min (sint (d_len d)) (sint (ra_maxlen a))) 1500)"

lemma recv_count_tocpy: "recv_count d a = nat (tocpy (sint (d_len d)) (sint (ra_maxlen a)))"
  by (simp add: recv_count_def tocpy_def Let_def)

lemma recv_copy_inv:
  assumes q: "quiet s" and inv: "net_inv s ps qs (insert b (insert k R))" and kb: "k \<noteq> b" "k \<notin> R" "b \<notin> R"
    and v: "valid_page (kend s) k" "valid_page (kend s) b" and pf: "pkt_fields (mem s) k b"
    and cp: "caller_pages s pgdir T U lp R"
  defines "d \<equiv> dgram_at (mem s) k"
  obtains r s' where "recv_copy pgdir k a s = Some (r, s')" "quiet s'" "net_inv s' (k # b # ps) qs R"
    "ports_abs (mem s') qs = ports_abs (mem s) qs" "net_pages s' ps qs = net_pages s ps qs" "same_rx s s'"
    "user_range (mem s) pgdir (ra_src a) 4 \<Longrightarrow> user_range (mem s) pgdir (ra_sport a) 2 \<Longrightarrow>
      user_range (mem s) pgdir (ra_buf a) (recv_count d a) \<Longrightarrow>
      r = of_nat (recv_count d a) \<and> ubytes (mem s') pgdir (ra_buf a) (recv_count d a) = take (recv_count d a) (d_data d)"
proof -
  have asp: "aspace (mem s) pgdir T U" and TU: "T \<union> U \<subseteq> R" and lp: "lp \<in> R" "lp \<notin> T \<union> U" "unat lp < 2 ^ 64 - 8192"
    "within lp (recv_locals s) 6" using cp by (simp_all add: caller_pages_def)
  have alR: "aligned_set R" using inv by (simp add: net_inv_def aligned_set_def)
  have al: "aligned_set T" "aligned_set U" "page_aligned lp" using alR TU lp(1) by (auto simp: aligned_set_def)
  define good where "good m \<longleftrightarrow> (\<forall>P. aligned_set P \<longrightarrow> P \<inter> U = {} \<longrightarrow> lp \<notin> P \<longrightarrow> agree (mem s) m P)" for m
  have gd: "agree (mem s) m P" if "good m" "aligned_set P" "P \<inter> U = {}" "lp \<notin> P" for m P
    using that unfolding good_def by blast
  have goodD: "aspace m pgdir T U" "pkt_fields m k b" "dgram_at m k = d" "user_range m pgdir va n = user_range (mem s) pgdir va n"
    if "good m" for m va n
  proof -
    have "T \<inter> U = {}" using asp by (simp add: aspace_def)
    then have aT: "agree (mem s) m T" using gd [OF that al(1)] lp(2) by blast
    then show "aspace m pgdir T U" "user_range m pgdir va n = user_range (mem s) pgdir va n"
      using aspace_agree(1) [OF asp] user_range_agree [OF asp] by blast+
    have "agree (mem s) m {k, b}"
      using kb TU lp(1) v by (intro gd [OF that]) (auto simp: aligned_set_def valid_page_def)
    then show "pkt_fields m k b" "dgram_at m k = d"
      using pf pkt_fields_agree [of "mem s" m "{k, b}" k b] dgram_agree [OF pf, of m "{k, b}"] by (simp_all add: d_def)
  qed
  have fin: "\<exists>s'. free_pkt k (s\<lparr>mem := m\<rparr>) = Some s' \<and> quiet s' \<and> net_inv s' (k # b # ps) qs R \<and>
      ports_abs (mem s') qs = ports_abs (mem s) qs \<and> net_pages s' ps qs = net_pages s ps qs \<and> same_rx s s' \<and>
      agree m (mem s') (T \<union> U)" if g: "good m" for m
  proof -
    have "set ps \<union> set (pages_of qs) \<subseteq> - R" using inv by (auto simp: net_inv_def owned_def)
    then have "agree (mem s) m (set ps \<union> set (pages_of qs))"
      using net_inv_pages(1,2) [OF inv] TU lp(1) by (intro gd [OF g]) (auto simp: aligned_set_def)
    note nm = net_inv_mem [OF inv this]
    have fb: "ld64 (mem (s\<lparr>mem := m\<rparr>)) (pkt_fullbuf k) = b" using goodD(2) [OF g] by (simp add: pkt_fields_def)
    have q': "quiet (s\<lparr>mem := m\<rparr>)" and v': "valid_page (kend (s\<lparr>mem := m\<rparr>)) k" "valid_page (kend (s\<lparr>mem := m\<rparr>)) b"
      using q v by simp_all
    note fp = free_pkt_inv [OF q' nm(1) kb v' fb]
    have "aligned_set (T \<union> U)" "k \<notin> T \<union> U" "b \<notin> T \<union> U" using al kb TU by (auto simp: aligned_set_def)
    then show ?thesis using fp nm(2) by (intro exI [of _ "push_page k (push_page b (s\<lparr>mem := m\<rparr>))"]) simp
  qed
  define m1 where "m1 = st32 (mem s) (recv_locals s) (ld32 (mem s) (pkt_src_ip k))"
  define m2 where "m2 = st16 m1 (recv_locals s + 4) (ld16 m1 (pkt_src_port k))"
  have w: "within lp (recv_locals s) 4" "within lp (recv_locals s + 4) 2"
    using lp(4) within_shift [OF lp(4), of 4] by (simp_all add: within_def)
  have g2: "good m2" unfolding good_def m2_def m1_def
    using w al by (auto intro!: agree_writes [of lp])
  have lU: "lp \<notin> U" using lp(2) by simp
  have ur4: "unat (4 :: u64) = 4" "unat (2 :: u64) = 2" by simp_all
  have a2: "aspace (mem (s\<lparr>mem := m2\<rparr>)) pgdir T U" and w2: "within lp (recv_locals s) (unat (4 :: u64))"
    using goodD(1) [OF g2] w(1) by simp_all
  obtain r1 m3 where c1: "copyout pgdir (ra_src a) (recv_locals s) 4 (s\<lparr>mem := m2\<rparr>) = Some (r1, s\<lparr>mem := m3\<rparr>)" "r1 = 0 \<or> r1 = -1"
    "\<And>P. aligned_set P \<Longrightarrow> P \<inter> U = {} \<Longrightarrow> agree m2 m3 P"
    "user_range m2 pgdir (ra_src a) 4 \<Longrightarrow> r1 = 0 \<and> ubytes m3 pgdir (ra_src a) 4 = mread m2 (recv_locals s) 4"
    by (rule copyout_user [OF a2 al(3) lU w2 lp(3), of "ra_src a", simplified]) (rule that, assumption, assumption, blast, blast)
  have chain: "good m'" if "good m" "\<And>P. aligned_set P \<Longrightarrow> P \<inter> U = {} \<Longrightarrow> agree m m' P" for m m'
    unfolding good_def using gd [OF that(1)] that(2) agree_trans by blast
  have g3: "good m3" by (rule chain [OF g2 c1(3)])
  have a3: "aspace (mem (s\<lparr>mem := m3\<rparr>)) pgdir T U" and w3: "within lp (recv_locals s + 4) (unat (2 :: u64))"
    using goodD(1) [OF g3] w(2) by simp_all
  obtain r2 m4 where c2: "copyout pgdir (ra_sport a) (recv_locals s + 4) 2 (s\<lparr>mem := m3\<rparr>) = Some (r2, s\<lparr>mem := m4\<rparr>)" "r2 = 0 \<or> r2 = -1"
    "\<And>P. aligned_set P \<Longrightarrow> P \<inter> U = {} \<Longrightarrow> agree m3 m4 P"
    "user_range m3 pgdir (ra_sport a) 2 \<Longrightarrow> r2 = 0 \<and> ubytes m4 pgdir (ra_sport a) 2 = mread m3 (recv_locals s + 4) 2"
    by (rule copyout_user [OF a3 al(3) lU w3 lp(3), of "ra_sport a", simplified]) (rule that, assumption, assumption, blast, blast)
  have g4: "good m4" by (rule chain [OF g3 c2(3)])
  define n where "n = tocpy (sint (ld32 m4 (pkt_payload_len k))) (sint (ra_maxlen a))"
  have nd: "nat n = recv_count d a" unfolding n_def recv_count_tocpy goodD(3) [OF g4, symmetric] by (simp add: dgram_at_def)
  have nb: "0 \<le> n" "n \<le> 1500" "unat (of_int n :: u64) = nat n" unfolding n_def by (rule tocpy_bounds unat_tocpy)+
  obtain r3 m5 where c3: "(if n > 0 then copyout pgdir (ra_buf a) (ld64 m4 (pkt_payload k)) (of_int n) (s\<lparr>mem := m4\<rparr>)
        else Some (0, s\<lparr>mem := m4\<rparr>)) = Some (r3, s\<lparr>mem := m5\<rparr>)" "r3 = 0 \<or> r3 = -1"
    "\<And>P. aligned_set P \<Longrightarrow> P \<inter> U = {} \<Longrightarrow> agree m4 m5 P"
    "user_range m4 pgdir (ra_buf a) (nat n) \<Longrightarrow> r3 = 0 \<and> ubytes m5 pgdir (ra_buf a) (nat n) = mread m4 (ld64 m4 (pkt_payload k)) (nat n)"
  proof (cases "n > 0")
    case True
    have pl: "within b (ld64 m4 (pkt_payload k)) (unat (of_int n :: u64))"
      using goodD(2) [OF g4] nb unfolding pkt_fields_def within_def nb(3) by linarith
    have bb: "page_aligned b" "unat b < 2 ^ 64 - 8192" "b \<notin> U"
      using valid_page_bound [OF net_inv_wf(5) [OF inv] v(2)] kb TU by auto
    have a4: "aspace (mem (s\<lparr>mem := m4\<rparr>)) pgdir T U" using goodD(1) [OF g4] by simp
    obtain r m' where c: "copyout pgdir (ra_buf a) (ld64 m4 (pkt_payload k)) (of_int n) (s\<lparr>mem := m4\<rparr>) = Some (r, s\<lparr>mem := m'\<rparr>)"
      "r = 0 \<or> r = -1" "\<And>P. aligned_set P \<Longrightarrow> P \<inter> U = {} \<Longrightarrow> agree m4 m' P"
      "user_range m4 pgdir (ra_buf a) (nat n) \<Longrightarrow> r = 0 \<and> ubytes m' pgdir (ra_buf a) (nat n) = mread m4 (ld64 m4 (pkt_payload k)) (nat n)"
      by (rule copyout_user [OF a4 bb(1,3) pl bb(2), of "ra_buf a", unfolded nb(3), simplified]) (rule that, assumption, assumption, blast, blast)
    have e: "(if n > 0 then copyout pgdir (ra_buf a) (ld64 m4 (pkt_payload k)) (of_int n) (s\<lparr>mem := m4\<rparr>)
        else Some (0, s\<lparr>mem := m4\<rparr>)) = Some (r, s\<lparr>mem := m'\<rparr>)" using c(1) True by simp
    show ?thesis by (rule that [OF e c(2)]) (blast intro: c(3), use c(4) in blast)
  next
    case False
    then have n0: "n = 0" using nb(1) by simp
    show ?thesis by (rule that [of 0 m4]) (simp_all add: n0 ubytes_def mread_def)
  qed
  have g5: "good m5" by (rule chain [OF g4 c3(3)])
  have ev: "recv_copy pgdir k a s =
    (if r1 < 0 then do { s \<leftarrow> free_pkt k (s\<lparr>mem := m3\<rparr>); Some (-1, s) }
     else if r2 < 0 then do { s \<leftarrow> free_pkt k (s\<lparr>mem := m4\<rparr>); Some (-1, s) }
     else do { s \<leftarrow> free_pkt k (s\<lparr>mem := m5\<rparr>); if r3 < 0 then Some (-1, s) else Some (of_int n, s) })"
    using c1(1) c2(1) c3(1) by (simp add: recv_copy_def Let_def m1_def [symmetric] m2_def [symmetric] n_def [symmetric] cong: if_cong split del: if_split)
  show ?thesis
  proof (cases "r1 = 0 \<and> r2 = 0")
    case True
    obtain s' where f: "free_pkt k (s\<lparr>mem := m5\<rparr>) = Some s'" "quiet s'" "net_inv s' (k # b # ps) qs R"
      "ports_abs (mem s') qs = ports_abs (mem s) qs" "agree m5 (mem s') (T \<union> U)" "net_pages s' ps qs = net_pages s ps qs" "same_rx s s'"
      using fin [OF g5] by blast
    show ?thesis
    proof (rule that [of "if r3 < 0 then -1 else of_int n" s'])
      show "recv_copy pgdir k a s = Some (if r3 < 0 then -1 else of_int n, s')" using ev True f(1) by simp
      assume ur: "user_range (mem s) pgdir (ra_buf a) (recv_count d a)"
      then have u: "r3 = 0" "ubytes m5 pgdir (ra_buf a) (nat n) = mread m4 (ld64 m4 (pkt_payload k)) (nat n)"
        using c3(4) goodD(4) [OF g4] nd by simp_all
      have "user_range m5 pgdir (ra_buf a) (nat n)" using ur goodD(4) [OF g5] nd by simp
      then have "0 \<notin> uframes m5 pgdir (ra_buf a) (nat n)" by (simp add: user_range_def)
      then have "ubytes (mem s') pgdir (ra_buf a) (nat n) = ubytes m5 pgdir (ra_buf a) (nat n)"
        using ubytes_agree [OF goodD(1) [OF g5] f(5)] by blast
      moreover have "mread m4 (ld64 m4 (pkt_payload k)) (nat n) = take (nat n) (d_data d)"
        unfolding goodD(3) [OF g4, symmetric] using nb mread_take [of "nat n" 1500] by (simp add: dgram_at_def)
      moreover have "(of_int n :: u64) = of_nat (nat n)" using nb(1) by simp
      ultimately show "(if r3 < 0 then -1 else of_int n) = (of_nat (recv_count d a) :: u64) \<and>
          ubytes (mem s') pgdir (ra_buf a) (recv_count d a) = take (recv_count d a) (d_data d)"
        using u nd by simp
    qed (use f in simp_all)
  next
    case False
    define m where "m = (if r1 < 0 then m3 else m4)"
    have "good m" using g3 g4 by (simp add: m_def)
    from fin [OF this] obtain s' where f: "free_pkt k (s\<lparr>mem := m\<rparr>) = Some s'" "quiet s'" "net_inv s' (k # b # ps) qs R"
      "ports_abs (mem s') qs = ports_abs (mem s) qs" "net_pages s' ps qs = net_pages s ps qs" "same_rx s s'" by blast
    have "recv_copy pgdir k a s = Some (-1, s')" using ev False f(1) c1(2) c2(2) by (auto simp: m_def split: if_splits)
    then show ?thesis
    proof (rule that [OF _ f(2-6)])
      assume "user_range (mem s) pgdir (ra_src a) 4" "user_range (mem s) pgdir (ra_sport a) 2"
      then have "r1 = 0" "r2 = 0" using c1(4) c2(4) goodD(4) [OF g2] goodD(4) [OF g3] by blast+
      then show "-1 = (of_nat (recv_count d a) :: u64) \<and> ubytes (mem s') pgdir (ra_buf a) (recv_count d a) = take (recv_count d a) (d_data d)"
        using False by simp
    qed
  qed
qed

lemma caller_pages_mem:
  assumes "caller_pages s pgdir T U lp R" "agree (mem s) m T"
  shows "caller_pages (s\<lparr>mem := m\<rparr>) pgdir T U lp R"
  using assms aspace_agree(1) by (auto simp: caller_pages_def)

lemma release_netlock: "quiet s \<Longrightarrow> k_release Netlock (lk Netlock s) = Some s"
  by (rule release_lk) (simp_all add: quietD)

lemma pop_pages:
  "net_pages s ps (qs1 @ (q, port, (k, b) # ks) # qs2) = insert k (insert b (net_pages s ps (qs1 @ (q, port, ks) # qs2)))"
  by (auto simp: net_pages_def owned_def)

text \<open>With a packet in the queue, \<open>recv\<close> takes the first one and returns.\<close>

lemma recv_turn_takes:
  assumes q: "quiet s" and inv: "net_inv s ps (qs1 @ (pq, port, (k, b) # ks) # qs2) R"
    and cp: "caller_pages s pgdir T U lp R"
  defines "d \<equiv> dgram_at (mem s) k" and "A \<equiv> ports_abs (mem s) (qs1 @ (pq, port, (k, b) # ks) # qs2)"
  obtains r s' where "recv_turn pgdir pq a (lk Netlock s) = Some (Ret r, s')" "quiet s'"
    "net_inv s' (k # b # ps) (qs1 @ (pq, port, ks) # qs2) R"
    "ports_abs (mem s') (qs1 @ (pq, port, ks) # qs2) = take_head port A"
    "net_pages s' (k # b # ps) (qs1 @ (pq, port, ks) # qs2) = net_pages s ps (qs1 @ (pq, port, (k, b) # ks) # qs2)" "same_rx s s'"
    "user_range (mem s) pgdir (ra_src a) 4 \<Longrightarrow> user_range (mem s) pgdir (ra_sport a) 2 \<Longrightarrow>
      user_range (mem s) pgdir (ra_buf a) (recv_count d a) \<Longrightarrow>
      r = of_nat (recv_count d a) \<and> ubytes (mem s') pgdir (ra_buf a) (recv_count d a) = take (recv_count d a) (d_data d)"
proof -
  let ?qs' = "qs1 @ (pq, port, ks) # qs2"
  obtain m where m: "pop_pkt (mem s) pq = (k, m)" "net_inv (s\<lparr>mem := m\<rparr>) ps ?qs' (insert b (insert k R))"
    "ports_abs m ?qs' = take_head port A" "pkt_fields m k b" "dgram_at m k = d" "k \<noteq> b" "k \<notin> R" "b \<notin> R"
    "valid_page (kend s) k" "valid_page (kend s) b" "\<And>P. aligned_set P \<Longrightarrow> pq \<notin> P \<Longrightarrow> agree (mem s) m P"
    by (rule dequeue_inv [OF inv, folded A_def d_def]) (rule that; (assumption | blast))
  have iq: "is_queue (mem s) pq port ((k, b) # ks)" using port_chain_split(1) [OF net_inv_wf(4) [OF inv]] by simp
  have asp: "aspace (mem s) pgdir T U" using cp by (simp add: caller_pages_def)
  have aT: "agree (mem s) m T"
  proof (rule m(11))
    show "aligned_set T" using asp by (simp add: aspace_def)
    show "pq \<notin> T" using cp inv by (auto simp: caller_pages_def net_inv_def owned_def)
  qed
  have cnt: "ld32 (mem s) (pq_count pq) \<noteq> 0"
  proof -
    have "ld32 (mem s) (pq_count pq) = of_nat (Suc (length ks))" "Suc (length ks) \<le> 16" using iq by (simp_all add: is_queue_def)
    then have e: "sint (ld32 (mem s) (pq_count pq)) = int (Suc (length ks))" using sint_count [of "Suc (length ks)"] by (simp only:)
    show ?thesis
    proof
      assume "ld32 (mem s) (pq_count pq) = 0"
      then show False using e by simp
    qed
  qed
  define u where "u = s\<lparr>mem := m\<rparr>"
  have qu: "quiet u" and mu: "mem u = m" and vu: "valid_page (kend u) k" "valid_page (kend u) b" using q m(9,10) by (simp_all add: u_def)
  have pf: "pkt_fields (mem u) k b" using m(4) mu by simp
  have cpu: "caller_pages u pgdir T U lp R" unfolding u_def using cp aT by (rule caller_pages_mem)
  have e: "recv_turn pgdir pq a (lk Netlock s) = do { (r, s) \<leftarrow> recv_copy pgdir k a u; Some (Ret r, s) }"
    using cnt m(1) release_netlock [OF qu] by (simp add: recv_turn_def u_def)
  obtain r s' where h: "recv_copy pgdir k a u = Some (r, s')" "quiet s'" "net_inv s' (k # b # ps) ?qs' R"
    "ports_abs (mem s') ?qs' = ports_abs m ?qs'" "net_pages s' ps ?qs' = net_pages u ps ?qs'" "same_rx u s'"
    "user_range m pgdir (ra_src a) 4 \<Longrightarrow> user_range m pgdir (ra_sport a) 2 \<Longrightarrow> user_range m pgdir (ra_buf a) (recv_count d a) \<Longrightarrow>
      r = of_nat (recv_count d a) \<and> ubytes (mem s') pgdir (ra_buf a) (recv_count d a) = take (recv_count d a) (d_data d)"
    by (rule recv_copy_inv [OF qu m(2) [folded u_def] m(6-8) vu pf cpu, unfolded mu m(5), of a]) (rule that; (assumption | blast))
  show ?thesis
  proof (rule that [OF _ h(2,3)])
    show "recv_turn pgdir pq a (lk Netlock s) = Some (Ret r, s')" using e h(1) by simp
    show "ports_abs (mem s') ?qs' = take_head port A" using h(4) m(3) by simp
    show "net_pages s' (k # b # ps) ?qs' = net_pages s ps (qs1 @ (pq, port, (k, b) # ks) # qs2)"
      using h(5) pop_pages [of s ps] by (simp add: u_def)
    show "same_rx s s'" using h(6) by (simp add: u_def same_rx_def)
  qed (use h(7) user_range_agree [OF asp aT] in blast)
qed

text \<open>With an empty queue it goes to sleep on the queue, and after a wakeup it looks again.\<close>

definition put_to_sleep :: "nat \<Rightarrow> chan \<Rightarrow> 'z pstate_scheme \<Rightarrow> 'z pstate_scheme" where
  "put_to_sleep me ch s = upd_proc me (\<lambda>p. p\<lparr>p_chan := ch, p_state := SLEEPING\<rparr>) s"

lemma release_under:
  assumes "quiet s" "l \<noteq> l'"
  shows "k_release l (lk l' (lk l s)) = Some (lk l' s)"
proof -
  have "k_release l (lk l' (lk l s)) = Some ((lk l' (lk l s))\<lparr>cpu_st := pushcli (cpu_st s), locks := (locks s)(l' := held_lock (cpuid s))\<rparr>)"
    by (rule k_release_held) (use assms in \<open>auto simp: lk_def quietD settled_pushcli fun_eq_iff\<close>)
  then show ?thesis by (simp add: lk_def)
qed

lemma sleep_out_eq:
  assumes "quiet s" "l \<noteq> Ptable_lock" "curproc s = Some me" "me < length (ptable s)"
  shows "sleep_out ch l (lk l s) = sched_out (lk Ptable_lock (put_to_sleep me ch s))"
proof -
  have "k_acquire Ptable_lock (lk l s) = Some (lk Ptable_lock (lk l s))" using assms by (intro acquire_lk) (simp add: quietD)
  moreover have "upd_proc me f (lk Ptable_lock u) = lk Ptable_lock (upd_proc me f u)" for f and u :: "'a pstate_scheme"
    by (simp add: upd_proc_def lk_def)
  moreover have "curproc (lk l s) = curproc s" by (simp add: lk_def)
  moreover have "upd_proc me (\<lambda>p. p\<lparr>p_state := SLEEPING\<rparr>) (upd_proc me (\<lambda>p. p\<lparr>p_chan := ch\<rparr>) s) = put_to_sleep me ch s"
    using assms(4) by (simp add: put_to_sleep_def upd_proc_def)
  ultimately show ?thesis using release_under [OF assms(1,2)] assms by (simp add: sleep_out_def)
qed

lemma sched_out_state: "sched_out s = Some (ie, s') \<Longrightarrow> s' = s"
  by (auto simp: sched_out_def split: option.splits if_splits)

lemma sched_out_asleep:
  assumes "quiet s" "curproc s = Some me" "me < length (ptable s)" "ncli (cpu_st s) = 0"
  shows "sched_out (lk Ptable_lock (put_to_sleep me ch s)) = Some (iflag (cpu_st s), lk Ptable_lock (put_to_sleep me ch s))"
  using assms by (simp add: sched_out_def put_to_sleep_def upd_proc_def lk_def holding_def held_lock_def pushcli_def Let_def)

text \<open>The state of the CPU when the process runs again.\<close>

definition resumed :: "bool \<Rightarrow> cpu \<Rightarrow> cpu" where
  "resumed ie c = (if ncli c = 0 then c\<lparr>intena := ie, iflag := ie\<rparr> else c\<lparr>intena := ie\<rparr>)"

lemma sleep_in_eq:
  fixes s :: "'z pstate_scheme" and ie :: bool
  assumes "quiet s" "l \<noteq> Ptable_lock" "curproc s = Some me"
  defines "u \<equiv> upd_proc me (\<lambda>p. p\<lparr>p_chan := Nochan\<rparr>) (s\<lparr>cpu_st := resumed ie (cpu_st s)\<rparr>)"
  shows "sleep_in l ie (lk Ptable_lock s) = Some (lk l u)" "quiet u"
proof -
  let ?c = "resumed ie (cpu_st s)"
  have st: "settled (cpu_st s)" using assms(1) by (simp add: quietD)
  have c: "(pushcli (cpu_st s))\<lparr>intena := ie\<rparr> = pushcli ?c" "settled ?c"
    using st by (auto simp: resumed_def settled_def pushcli_def Let_def)
  show qu: "quiet u" using assms(1) c(2) by (simp add: u_def upd_proc_def quiet_def)
  have "upd_proc me (\<lambda>p. p\<lparr>p_chan := Nochan\<rparr>) (sched_in ie (lk Ptable_lock s)) = lk Ptable_lock u"
    using c(1) by (simp add: sched_in_def upd_proc_def u_def lk_def)
  moreover have "k_release Ptable_lock (lk Ptable_lock u) = Some u" "k_acquire l u = Some (lk l u)"
    using qu by (auto intro!: release_lk acquire_lk simp: quietD)
  ultimately show "sleep_in l ie (lk Ptable_lock s) = Some (lk l u)" using assms(2,3) by (simp add: sleep_in_def lk_def)
qed

text \<open>The arguments of the call.\<close>

definition recv_call :: "'z net_scheme \<Rightarrow> (addr \<times> u16 \<times> recv_args) option" where
  "recv_call s = do {
     me \<leftarrow> curproc s;
     dport \<leftarrow> argint 0 s;
     src \<leftarrow> argaddr 1 s;
     sport \<leftarrow> argaddr 2 s;
     buf \<leftarrow> argaddr 3 s;
     maxlen \<leftarrow> argint 4 s;
     Some (p_pgdir (ptable s ! me), ucast dport, \<lparr>ra_src = src, ra_sport = sport, ra_buf = buf, ra_maxlen = maxlen\<rparr>)
   }"

lemma sys_recv_eq:
  assumes "quiet s" "net_inv s ps qs R" "recv_call s = Some (pgdir, port, a)"
  shows "sys_recv s = (if lookup_port port qs = 0 then Some (Ret (-1), s) else recv_turn pgdir (lookup_port port qs) a (lk Netlock s))"
proof -
  obtain me dport src sport buf maxlen where c: "curproc s = Some me" "argint 0 s = Some dport" "argaddr 1 s = Some src"
    "argaddr 2 s = Some sport" "argaddr 3 s = Some buf" "argint 4 s = Some maxlen"
    and p: "pgdir = p_pgdir (ptable s ! me)" "port = ucast dport" "a = \<lparr>ra_src = src, ra_sport = sport, ra_buf = buf, ra_maxlen = maxlen\<rparr>"
    using assms(3) by (auto simp: recv_call_def bind_eq_Some_conv)
  have "k_acquire Netlock s = Some (lk Netlock s)" using assms(1) by (intro acquire_lk) (simp add: quietD)
  moreover have "find_port_queue port (lk Netlock s) = Some (lookup_port port qs)"
    using find_port_from_chain [OF net_inv_wf(4) [OF assms(2)]] by (simp add: find_port_queue_def)
  ultimately show ?thesis using c p release_netlock [OF assms(1)] by (simp add: sys_recv_def Let_def)
qed

lemma sys_recv_none: "recv_call s = None \<Longrightarrow> sys_recv s = None"
  by (auto simp: recv_call_def sys_recv_def bind_eq_None_conv split: option.splits)

text \<open>A turn of \<open>recv\<close> on a queue of the list: it takes the first packet, or goes to sleep.\<close>

lemma recv_call_turn_inv:
  assumes "quiet s" "net_inv s ps (qs1 @ (pq, port, ks) # qs2) R" "caller_pages s pgdir T U lp R" "me < length (ptable s)"
    "recv_turn pgdir pq a (lk Netlock s) = Some (out, s')" "curproc s = Some me"
  obtains (slept) "out = Asleep" "s' = lk Ptable_lock (put_to_sleep me (Ch_addr pq) s)" "ks = []"
  | (taken) r k b ks' where "out = Ret r" "ks = (k, b) # ks'" "quiet s'" "net_inv s' (k # b # ps) (qs1 @ (pq, port, ks') # qs2) R"
      "net_pages s' (k # b # ps) (qs1 @ (pq, port, ks') # qs2) = net_pages s ps (qs1 @ (pq, port, ks) # qs2)" "same_rx s s'"
proof (cases ks)
  case Nil
  have iq: "is_queue (mem s) pq port ks" using port_chain_split(1) [OF net_inv_wf(4) [OF assms(2)]] by simp
  then have "recv_turn pgdir pq a (lk Netlock s) = do { (ie, s) \<leftarrow> sleep_out (Ch_addr pq) Netlock (lk Netlock s); Some (Asleep, s) }"
    using Nil by (simp add: recv_turn_def is_queue_def)
  also have "sleep_out (Ch_addr pq) Netlock (lk Netlock s) = sched_out (lk Ptable_lock (put_to_sleep me (Ch_addr pq) s))"
    by (rule sleep_out_eq) (use assms in simp_all)
  finally have e: "recv_turn pgdir pq a (lk Netlock s) =
      do { (ie, s) \<leftarrow> sched_out (lk Ptable_lock (put_to_sleep me (Ch_addr pq) s)); Some (Asleep, s) }" .
  then obtain ie s1 where "sched_out (lk Ptable_lock (put_to_sleep me (Ch_addr pq) s)) = Some (ie, s1)" "out = Asleep" "s' = s1"
    using assms(5) by (cases "sched_out (lk Ptable_lock (put_to_sleep me (Ch_addr pq) s))") auto
  then show ?thesis using slept sched_out_state Nil by blast
next
  case (Cons kb ks')
  obtain k b where kb: "kb = (k, b)" by (cases kb)
  obtain r s2 where "recv_turn pgdir pq a (lk Netlock s) = Some (Ret r, s2)" "quiet s2" "net_inv s2 (k # b # ps) (qs1 @ (pq, port, ks') # qs2) R"
    "net_pages s2 (k # b # ps) (qs1 @ (pq, port, ks') # qs2) = net_pages s ps (qs1 @ (pq, port, (k, b) # ks') # qs2)" "same_rx s s2"
    by (rule recv_turn_takes [OF assms(1) assms(2) [unfolded Cons kb] assms(3), of a]) (rule that; assumption)
  then show ?thesis using taken Cons kb assms(5) by simp
qed

section \<open>send\<close>

definition send_frame :: "addr \<Rightarrow> u32 \<Rightarrow> u32 \<Rightarrow> u32 \<Rightarrow> u32 \<Rightarrow> memory \<Rightarrow> memory" where
  "send_frame buf sport dst dport len m =
     put_udp (buf + 34) sport dport len (put_ip (buf + 14) dst len (put_eth buf (memset m buf 0 PGSIZE)))"

lemma send_frame_agree:
  assumes "page_aligned b" "aligned_set P" "b \<notin> P"
  shows "agree m (send_frame b sport dst dport len m) P"
proof -
  have z: "agree m (memset m b 0 PGSIZE) P" unfolding memset_page using assms by (intro agree_mfill [of b]) simp_all
  show ?thesis unfolding send_frame_def put_udp_def put_ip_def put_eth_def Let_def
    by (intro agree_writes [OF assms] z) (simp_all add: hdr_offsets host_mac_def local_mac_def within_def)
qed

record send_args =
  sa_sport :: u32
  sa_dst :: u32
  sa_dport :: u32
  sa_buf :: u64
  sa_len :: u32

definition send_call :: "'z net_scheme \<Rightarrow> (addr \<times> send_args) option" where
  "send_call s = do {
     me \<leftarrow> curproc s;
     sport \<leftarrow> argint 0 s;
     dst \<leftarrow> argint 1 s;
     dport \<leftarrow> argint 2 s;
     bufaddr \<leftarrow> argaddr 3 s;
     len \<leftarrow> argint 4 s;
     Some (p_pgdir (ptable s ! me), \<lparr>sa_sport = sport, sa_dst = dst, sa_dport = dport, sa_buf = bufaddr, sa_len = len\<rparr>)
   }"

lemma sys_send_none: "send_call s = None \<Longrightarrow> sys_send s = None"
  by (auto simp: send_call_def sys_send_def bind_eq_None_conv split: option.splits)

text \<open>The frame as it is before the payload is copied in.\<close>

abbreviation args_frame :: "addr \<Rightarrow> send_args \<Rightarrow> memory \<Rightarrow> memory" where
  "args_frame buf a m \<equiv> send_frame buf (sa_sport a) (sa_dst a) (sa_dport a) (sa_len a) m"

lemma sys_send_eq:
  assumes "send_call s = Some (pgdir, a)"
  shows "sys_send s = (if sint (sa_len a + 42) > 4096 then Some (-1, s)
    else do {
      (buf, s) \<leftarrow> kalloc s;
      if buf = 0 then Some (-1, cprintf ''sys_send: kalloc failed'' [] s)
      else do {
        (r, s) \<leftarrow> copyin_user pgdir (buf + 42) (sa_buf a) (scast (sa_len a)) (s\<lparr>mem := args_frame buf a (mem s)\<rparr>);
        if r < 0 then do { s \<leftarrow> kfree buf s; Some (-1, cprintf ''send: copyin failed'' [] s) }
        else do {
          (txret, s) \<leftarrow> e1000_transmit buf (sa_len a + 42) s;
          if txret < 0 then do { s \<leftarrow> kfree buf s; Some (-1, s) } else Some (0, s)
        }
      }
    })"
proof -
  obtain me sport dst dport bufaddr len where c: "curproc s = Some me" "argint 0 s = Some sport" "argint 1 s = Some dst"
    "argint 2 s = Some dport" "argaddr 3 s = Some bufaddr" "argint 4 s = Some len"
    and p: "pgdir = p_pgdir (ptable s ! me)"
      "a = \<lparr>sa_sport = sport, sa_dst = dst, sa_dport = dport, sa_buf = bufaddr, sa_len = len\<rparr>"
    using assms by (auto simp: send_call_def bind_eq_Some_conv)
  show ?thesis using c p
    by (simp add: sys_send_def Let_def send_frame_def sizeof_eth_def sizeof_ip_def sizeof_udp_def add.assoc cong: if_cong)
qed

text \<open>
  The length that \<open>send\<close> is called with. A negative length, or one so close to \<open>INT_MAX\<close> that adding
  the 42 bytes of headers wraps around, passes the test of the code.
\<close>

definition send_len_ok :: "u32 \<Rightarrow> bool" where
  "send_len_ok len \<longleftrightarrow> 0 \<le> sint len \<and> sint len + 42 < 2 ^ 31"

lemma send_len_eq:
  assumes "send_len_ok len"
  shows "unat (scast len :: u64) = unat len" "sint (len + 42) = int (unat len) + 42"
proof -
  have r: "0 \<le> sint len" "sint len + 42 < 2 ^ 31" using assms by (simp_all add: send_len_ok_def)
  have "uint len = take_bit LENGTH(32) (sint len)" by (rule uint_sint)
  also have "\<dots> = sint len" using r by (intro take_bit_int_eq_self) simp_all
  finally have u: "unat len = nat (sint len)" by (simp only: unat_eq_nat_uint)
  have "sint (len + 42) = signed_take_bit 31 (sint len + 42)" by (simp add: sint_word_add)
  also have "\<dots> = sint len + 42" using r by (intro signed_take_bit_int_eq_self) simp_all
  finally show "sint (len + 42) = int (unat len) + 42" using u r by simp
  have "unat (of_int k :: u64) = nat k" if "0 \<le> k" "k < 2 ^ 31" for k
    using that by (simp add: unsigned_of_int take_bit_int_eq_self)
  from this [of "sint len"] show "unat (scast len :: u64) = unat len" using u r by simp
qed

lemma send_len:
  assumes "send_len_ok len"
  shows "unat (scast len :: u64) = unat len" "sint (len + 42) > 4096 \<longleftrightarrow> unat len > 4054"
  using send_len_eq [OF assms] by linarith+

text \<open>The frame is built in the page \<open>b\<close>: headers, and the bytes of the caller when they are mapped.\<close>

lemma send_builds:
  fixes s :: "'z net_scheme"
  assumes "quiet s" "net_inv s (b # ps) qs R" and len: "unat (scast (sa_len a) :: u64) = unat (sa_len a)" "unat (sa_len a) \<le> 4054"
    and asp: "aspace (mem s) pgdir T U" and TU: "T \<union> U \<subseteq> R"
  defines "u \<equiv> s\<lparr>freelist := ld64 (mem s) b\<rparr>"
  obtains r m where "copyin_user pgdir (b + 42) (sa_buf a) (scast (sa_len a)) (u\<lparr>mem := args_frame b a (mem s)\<rparr>) = Some (r, u\<lparr>mem := m\<rparr>)"
    "r = 0 \<or> r = -1" "net_inv (u\<lparr>mem := m\<rparr>) ps qs (insert b R)" "ports_abs m qs = ports_abs (mem s) qs"
    "0 \<notin> uframes (mem s) pgdir (sa_buf a) (unat (sa_len a)) \<Longrightarrow>
       r = 0 \<and> m = mwrite (args_frame b a (mem s)) (b + 42) (ubytes (mem s) pgdir (sa_buf a) (unat (sa_len a)))"
proof -
  note ka = net_inv_kalloc [OF assms(2)]
  note kb = valid_page_bound [OF net_inv_wf(5) [OF assms(2)] ka(3)]
  let ?f = "args_frame b a (mem s)" and ?n = "unat (sa_len a)"
  have ag: "agree (mem s) ?f P" if "aligned_set P" "b \<notin> P" for P using kb(2) that by (rule send_frame_agree)
  have bT: "b \<notin> T" "b \<notin> U" using ka(4) TU by auto
  have agT: "agree (mem s) ?f T" using asp bT ag by (simp add: aspace_def)
  note au = aspace_agree [OF asp agT]
  have w: "within b (b + 42) (unat (scast (sa_len a) :: u64))" using len by (simp add: within_def)
  obtain r m where c: "copyin_user pgdir (b + 42) (sa_buf a) (scast (sa_len a)) (u\<lparr>mem := ?f\<rparr>) = Some (r, u\<lparr>mem := m\<rparr>)"
    "r = 0 \<or> r = -1" "\<forall>P. aligned_set P \<longrightarrow> b \<notin> P \<longrightarrow> agree ?f m P"
    using copyin_frame [of "u\<lparr>mem := ?f\<rparr>" pgdir T U b "b + 42" "scast (sa_len a)" "sa_buf a"] au(1) kb bT(1) w by auto
  have pg: "aligned_set (set ps \<union> set (pages_of qs))" "b \<notin> set ps \<union> set (pages_of qs)"
    using ka(2) by (auto simp: net_inv_def kmem_wf_def owned_def aligned_set_def list_all_iff valid_page_def)
  have "agree (mem s) m (set ps \<union> set (pages_of qs))" using agree_trans [OF ag [OF pg] c(3) [rule_format, OF pg]] .
  note nm = net_inv_mem [OF ka(2), of m, simplified, OF this]
  have full: "r = 0 \<and> m = mwrite ?f (b + 42) (ubytes (mem s) pgdir (sa_buf a) ?n)" if z: "0 \<notin> uframes (mem s) pgdir (sa_buf a) ?n"
  proof -
    have uf: "uframes ?f pgdir (sa_buf a) ?n = uframes (mem s) pgdir (sa_buf a) ?n" by (simp add: uframes_def au(2))
    have sub: "uframes (mem s) pgdir (sa_buf a) ?n \<subseteq> U" using asp z by (rule uframes_user)
    have ok: "copyin_ok (mem (u\<lparr>mem := ?f\<rparr>)) pgdir b (sa_buf a) (unat (scast (sa_len a) :: u64))"
      using au(1) kb z sub bT by (auto simp: copyin_ok_def aspace_def uf len(1))
    have "aligned_set R" using assms(2) by (simp add: net_inv_def)
    then have "agree (mem s) ?f (T \<union> U)" using bT TU by (intro ag) (auto simp: aligned_set_def)
    then have "ubytes ?f pgdir (sa_buf a) ?n = ubytes (mem s) pgdir (sa_buf a) ?n" by (rule ubytes_agree [OF asp _ z])
    then have r: "r = 0" and e: "u\<lparr>mem := m\<rparr> = u\<lparr>mem := mwrite ?f (b + 42) (ubytes (mem s) pgdir (sa_buf a) ?n)\<rparr>"
      using copyin_user_correct [OF ok w] c(1) len(1) by simp_all
    show ?thesis using r arg_cong [OF e, of mem] by simp
  qed
  show thesis by (rule that [OF c(1,2)]) (use nm full in \<open>simp_all add: u_def\<close>)
qed

lemma send_inv:
  assumes "quiet s" "net_inv s ps qs R" "send_call s = Some (pgdir, a)" "send_len_ok (sa_len a)"
    and asp: "aspace (mem s) pgdir T U" and TU: "T \<union> U \<subseteq> R"
  obtains (refused) s' ps' where "sys_send s = Some (-1, s')" "quiet s'" "net_inv s' ps' qs R" "ports_abs (mem s') qs = ports_abs (mem s) qs"
    "net_pages s' ps' qs = net_pages s ps qs" "same_rx s s'"
    "unat (sa_len a) > 4054 \<or> ps = [] \<or> 0 \<in> uframes (mem s) pgdir (sa_buf a) (unat (sa_len a)) \<or>
       tx_status (tx_ring s ! tx_tail s) AND E1000_TXD_STAT_DD = 0"
  | (sent) s' ps' buf m where "sys_send s = Some (0, s')" "quiet s'" "net_inv s' ps' qs R" "ports_abs (mem s') qs = ports_abs (mem s) qs"
    "0 \<notin> uframes (mem s) pgdir (sa_buf a) (unat (sa_len a)) \<Longrightarrow>
       m = mwrite (args_frame buf a (mem s)) (buf + 42) (ubytes (mem s) pgdir (sa_buf a) (unat (sa_len a)))"
    "tx_ring s' ! tx_tail s = (tx_ring s ! tx_tail s)\<lparr>tx_addr := V2P buf, tx_length := ucast (sa_len a + 42),
       tx_cmd := E1000_TXD_CMD_EOP OR E1000_TXD_CMD_RS, tx_status := 0\<rparr>"
    "agree m (mem s') {buf}" "net_pages s' ps' qs = net_pages s ps qs" "same_rx s s'"
proof -
  note ev = sys_send_eq [OF assms(3)]
  have said: thesis if "sys_send s = Some (-1, cprintf f [] s1)" "quiet s1" "net_inv s1 ps1 qs R" "ports_abs (mem s1) qs = ports_abs (mem s) qs"
    "net_pages s1 ps1 qs = net_pages s ps qs" "same_rx s s1"
    "ps = [] \<or> 0 \<in> uframes (mem s) pgdir (sa_buf a) (unat (sa_len a))" for f s1 ps1
  proof -
    have q: "quiet (cprintf f [] s1)" using that(2) by simp
    have "net_inv (cprintf f [] s1) ps1 qs R" by (rule net_inv_cong [OF that(3)]) (use lockable_quiet [OF q] in \<open>simp_all add: cprintf_def\<close>)
    moreover have "ports_abs (mem (cprintf f [] s1)) qs = ports_abs (mem s) qs" using that(4) by (simp add: cprintf_def)
    ultimately show thesis using refused [OF that(1) q] that(5-7) by auto
  qed
  show ?thesis
  proof (cases "sint (sa_len a + 42) > 4096")
    case True
    then have "unat (sa_len a) > 4054" using send_len(2) [OF assms(4)] by simp
    then show ?thesis using refused ev assms(1,2) True by simp
  next
    case len: False
    then have l: "unat (sa_len a) \<le> 4054" using send_len(2) [OF assms(4)] by simp
    show ?thesis
    proof (cases ps)
      case Nil
      have "sys_send s = Some (-1, cprintf ''sys_send: kalloc failed'' [] s)"
        using ev len net_inv_empty(2) [OF assms(2) [unfolded Nil]] by simp
      then show ?thesis using said assms(1,2) Nil by simp
    next
      case (Cons b ps1)
      note ka = net_inv_kalloc [OF assms(2) [unfolded Cons]]
      note kb = valid_page_bound [OF net_inv_wf(5) [OF assms(2)] ka(3)]
      obtain r m where c: "copyin_user pgdir (b + 42) (sa_buf a) (scast (sa_len a)) (s\<lparr>freelist := ld64 (mem s) b, mem := args_frame b a (mem s)\<rparr>) =
          Some (r, s\<lparr>freelist := ld64 (mem s) b, mem := m\<rparr>)" "r = 0 \<or> r = -1"
        "net_inv (s\<lparr>freelist := ld64 (mem s) b, mem := m\<rparr>) ps1 qs (insert b R)" "ports_abs m qs = ports_abs (mem s) qs"
        "0 \<notin> uframes (mem s) pgdir (sa_buf a) (unat (sa_len a)) \<Longrightarrow>
           r = 0 \<and> m = mwrite (args_frame b a (mem s)) (b + 42) (ubytes (mem s) pgdir (sa_buf a) (unat (sa_len a)))"
        by (rule send_builds [OF assms(1) assms(2) [unfolded Cons] send_len(1) [OF assms(4)] l asp TU]) (rule that; simp)
      define v where "v = s\<lparr>freelist := ld64 (mem s) b, mem := m\<rparr>"
      have v: "net_inv v ps1 qs (insert b R)" "ports_abs (mem v) qs = ports_abs (mem s) qs" "quiet v" "valid_page (kend v) b"
        "tx_ring v = tx_ring s" "tx_tail v = tx_tail s" "net_pages v (b # ps1) qs = net_pages s ps qs" "same_rx s v"
        using c(3,4) ka(3) assms(1) Cons by (simp_all add: v_def tx_tail_def)
      note kf = net_inv_kfree [OF v(1,4) ka(4)]
      have e: "sys_send s = (if r < 0 then do { s \<leftarrow> kfree b v; Some (-1, cprintf ''send: copyin failed'' [] s) }
          else do { (txret, s) \<leftarrow> e1000_transmit b (sa_len a + 42) v;
            if txret < 0 then do { s \<leftarrow> kfree b s; Some (-1, s) } else Some (0, s) })"
        using ev len ka(1) kb(3) c(1) by (simp add: v_def)
      show ?thesis
      proof (cases "r = 0")
        case False
        then have "sys_send s = Some (-1, cprintf ''send: copyin failed'' [] (push_page b v))" using e c(2) kf(1) by auto
        then show ?thesis using said [of _ "push_page b v" "b # ps1"] kf(2,3) v(2,3,7,8) c(5) False by auto
      next
        case r0: True
        show ?thesis
        proof (cases rule: transmit_inv [OF v(3,1,4) ka(4), where len = "sa_len a + 42", case_names full sent])
          case full
          then have "sys_send s = Some (-1, push_page b v)" using e r0 kf(1) by simp
          then show ?thesis using refused [of "push_page b v" "b # ps1"] full(2) kf(2,3) v by simp
        next
          case (sent s' ps')
          have a1: "sys_send s = Some (0, s')" using e r0 sent(1) by simp
          have a2: "ports_abs (mem s') qs = ports_abs (mem s) qs" using sent(4) v(2) by simp
          have a5: "agree m (mem s') {b}" using sent(14) [OF sent(8) kb(2)] by (simp add: v_def)
          have a6: "net_pages s' ps' qs = net_pages s ps qs" "same_rx s s'" using sent(15) v(7) same_rx_trans [OF v(8) sent(16)] by simp_all
          show ?thesis by (rule that(2) [OF a1 sent(2,3) a2 _ sent(13) [unfolded v(5,6)] a5 a6]) (use c(5) in blast)
        qed
      qed
    qed
  qed
qed

end
