(* ===== verification/NetFrame.thy ===== *)
theory NetFrame
  imports NetSys
begin

text \<open>
  What the frames look like on the wire: the byte-order helpers, the Internet checksum, and the
  headers that \<open>send\<close> writes, read back field by field.
\<close>

section \<open>Byte order\<close>

lemma bit_bswaps: "bit (bswaps v) i \<longleftrightarrow> (if i < 8 then bit v (i + 8) else i < 16 \<and> bit v (i - 8))"
proof -
  have m: "(0x00ff :: u16) = mask 8" "(0xff00 :: u16) = push_bit 8 (mask 8)" by (simp_all add: mask_numeral)
  show ?thesis unfolding bswaps_def m by (auto simp: bit_simps add.commute)
qed

lemma bswaps_bswaps: "bswaps (bswaps v) = v"
  by (rule bit_word_eqI) (auto simp: bit_bswaps)

lemma bit_bswapl:
  "bit (bswapl v) i \<longleftrightarrow> (if i < 8 then bit v (i + 24) else if i < 16 then bit v (i + 8)
     else if i < 24 then bit v (i - 8) else i < 32 \<and> bit v (i - 24))"
proof -
  have m: "(0x000000ff :: u32) = mask 8" "(0x0000ff00 :: u32) = push_bit 8 (mask 8)"
    "(0x00ff0000 :: u32) = push_bit 16 (mask 8)" "(0xff000000 :: u32) = push_bit 24 (mask 8)" by (simp_all add: mask_numeral)
  show ?thesis unfolding bswapl_def m by (auto simp: bit_simps add.commute)
qed

lemma bswapl_bswapl: "bswapl (bswapl v) = v"
  by (rule bit_word_eqI) (auto simp: bit_bswapl)

section \<open>The Internet checksum\<close>

text \<open>The 16-bit words that are summed.\<close>

definition cksum_words :: "memory \<Rightarrow> addr \<Rightarrow> nat \<Rightarrow> nat" where
  "cksum_words m a n = (\<Sum>i < n. unat (ld16 m (a + of_nat (2 * i))))"

lemma unat_ld16_less: "unat (ld16 m a) < 65536"
proof -
  have "unat (ld16 m a) < 2 ^ LENGTH(16)" by (rule unsigned_less)
  then show ?thesis by simp
qed

lemma cksum_words_le: "cksum_words m a n \<le> n * 65535"
proof -
  have "cksum_words m a n \<le> (\<Sum>i < n. 65535)" unfolding cksum_words_def
    by (intro sum_mono) (use unat_ld16_less in \<open>simp add: less_Suc_eq_le [symmetric]\<close>)
  then show ?thesis by simp
qed

lemma cksum_add_words: "cksum_add m a (2 * n) acc = acc + of_nat (cksum_words m a n)"
proof (induction n arbitrary: a acc)
  case (Suc n)
  have w: "(ucast (x :: u16) :: u32) = of_nat (unat x)" for x by simp
  have "cksum_words m a (Suc n) = unat (ld16 m a) + cksum_words m (a + 2) n"
    unfolding cksum_words_def lessThan_Suc_eq_insert_0 by (simp add: sum.reindex comp_def algebra_simps)
  then have s: "(of_nat (cksum_words m a (Suc n)) :: u32) = ucast (ld16 m a) + of_nat (cksum_words m (a + 2) n)"
    by (simp only: of_nat_add w)
  have "cksum_add m a (2 * Suc n) acc = cksum_add m (a + 2) (2 * n) (acc + ucast (ld16 m a))" by simp
  also have "\<dots> = acc + ucast (ld16 m a) + of_nat (cksum_words m (a + 2) n)" by (rule Suc)
  finally show ?case by (simp only: s add.assoc)
qed (simp add: cksum_words_def)

text \<open>Folding the carries: one's complement addition of 16-bit words.\<close>

definition fold16 :: "nat \<Rightarrow> nat" where
  "fold16 x = (let y = x mod 65536 + x div 65536 in if y < 65536 then y else y - 65535)"

lemma fold16_mod: "x < 2 ^ 32 \<Longrightarrow> fold16 x \<le> 65535 \<and> (\<exists>k. x = fold16 x + 65535 * k) \<and> (fold16 x = 0 \<longrightarrow> x = 0)"
proof -
  assume "x < 2 ^ 32"
  then have d: "x div 65536 < 65536" by (simp add: less_mult_imp_div_less)
  define q r where "q = x div 65536" and "r = x mod 65536"
  have x: "x = 65536 * q + r" "r < 65536" "q < 65536" using d by (simp_all add: q_def r_def)
  have f: "fold16 x = (if r + q < 65536 then r + q else r + q - 65535)" by (simp add: fold16_def q_def r_def)
  show ?thesis
  proof (cases "r + q < 65536")
    case True
    then show ?thesis using x f by (intro conjI exI [of _ q]) auto
  next
    case False
    then show ?thesis using x f by (intro conjI exI [of _ "q + 1"]) auto
  qed
qed

lemma unat_not16: "unat (NOT (w :: u16)) = 65535 - unat w"
proof -
  have "NOT w = - 1 - w" by (simp add: not_eq_complement)
  moreover have "w \<le> - 1" by simp
  ultimately have "unat (NOT w) = unat (- 1 :: u16) - unat w" by (simp add: unat_sub)
  then show ?thesis by (simp add: unsigned_minus_1_eq_mask mask_numeral)
qed

lemma cksum_fold_value: "unat (cksum_fold x) = 65535 - fold16 (unat x)"
proof -
  have lt: "unat x < 2 ^ 32" using unsigned_less [of x] by simp
  define y :: u32 where "y = (x AND 0xffff) + drop_bit 16 x"
  have a: "unat (x AND 0xffff) = unat x mod 65536"
  proof -
    have "x AND 0xffff = take_bit 16 x" by (simp add: take_bit_eq_mask mask_numeral)
    then show ?thesis by (simp add: take_bit_eq_mod unat_mod_distrib)
  qed
  have b: "unat (drop_bit 16 z) = unat z div 65536" for z :: u32 by (simp add: drop_bit_eq_div unat_div_distrib)
  have q: "unat x div 65536 < 65536" using lt by (simp add: less_mult_imp_div_less)
  have y: "unat y = unat x mod 65536 + unat x div 65536"
    unfolding y_def using a b q by (subst unat_plus_if') simp
  have "unat x mod 65536 < 65536" by simp
  then have yb: "unat y < 131071" using y q by linarith
  have dy: "unat y div 65536 = (if unat y < 65536 then 0 else 1)"
    by (cases "unat y < 65536") (use yb in \<open>simp_all add: div_nat_eqI\<close>)
  have z: "unat (y + drop_bit 16 y) = unat y + (if unat y < 65536 then 0 else 1)"
    using yb dy b [of y] by (subst unat_plus_if') simp
  have "(ucast (NOT w) :: u16) = NOT (ucast w)" for w :: u32 by (rule bit_word_eqI) (simp add: bit_simps)
  then have "cksum_fold x = NOT (ucast (y + drop_bit 16 y))" by (simp only: cksum_fold_def Let_def y_def)
  then have "unat (cksum_fold x) = 65535 - unat (ucast (y + drop_bit 16 y) :: u16)" by (simp add: unat_not16)
  also have "unat (ucast (y + drop_bit 16 y) :: u16) = unat (y + drop_bit 16 y) mod 65536"
    by (simp add: unsigned_ucast_eq take_bit_eq_mod)
  also have "\<dots> = fold16 (unat x)"
  proof (cases "unat y < 65536")
    case True
    then show ?thesis using z y by (simp add: fold16_def)
  next
    case False
    then have "(unat y + 1) mod 65536 = unat y + 1 - 65536" using yb by (simp add: mod_if)
    then show ?thesis using z y False by (simp add: fold16_def)
  qed
  finally show ?thesis .
qed

lemma in_cksum_value:
  assumes "n \<le> 65536"
  shows "unat (in_cksum m a (2 * n)) = 65535 - fold16 (cksum_words m a n)" "cksum_words m a n < 2 ^ 32"
proof -
  have "cksum_words m a n \<le> n * 65535" by (rule cksum_words_le)
  also have "\<dots> \<le> 65536 * 65535" using assms by simp
  finally show lt: "cksum_words m a n < 2 ^ 32" by simp
  then have "unat (of_nat (cksum_words m a n) :: u32) = cksum_words m a n"
    by (simp add: unsigned_of_nat take_bit_nat_eq_self)
  then show "unat (in_cksum m a (2 * n)) = 65535 - fold16 (cksum_words m a n)"
    by (simp add: in_cksum_def cksum_add_words cksum_fold_value)
qed

text \<open>Filling in a word of the summed range.\<close>

lemma words_apart:
  fixes a :: addr
  assumes "i < n" "j < n" "i \<noteq> j" "n \<le> 65536"
  shows "apart (a + of_nat (2 * i)) 2 (a + of_nat (2 * j)) 2"
proof -
  have d: "2 \<le> unat (of_nat (2 * i) - of_nat (2 * j) :: u64)" if "i < 65536" "j < 65536" "i \<noteq> j" for i j :: nat
  proof -
    have u: "unat (of_nat (2 * i) :: u64) = 2 * i" "unat (of_nat (2 * j) :: u64) = 2 * j"
      using that by (intro unat64_of_nat; simp)+
    show ?thesis
    proof (cases "j < i")
      case True
      then have "unat (of_nat (2 * i) - of_nat (2 * j) :: u64) = 2 * i - 2 * j"
        using u by (subst unat_sub) (simp_all add: word_le_nat_alt)
      then show ?thesis using True by simp
    next
      case False
      then have "unat (of_nat (2 * i) - of_nat (2 * j) :: u64) = 2 * i + 2 ^ 64 - 2 * j"
        using u that(3) by (simp add: unat_sub_if' del: of_nat_mult)
      then show ?thesis using that by simp
    qed
  qed
  show ?thesis using d [of i j] d [of j i] assms by (simp add: apart_fields del: of_nat_mult)
qed

lemma cksum_words_st16:
  assumes "j < n" "n \<le> 65536" "ld16 m (a + of_nat (2 * j)) = 0"
  shows "cksum_words (st16 m (a + of_nat (2 * j)) w) a n = cksum_words m a n + unat w"
proof -
  let ?f = "\<lambda>m i. unat (ld16 m (a + of_nat (2 * i)))" and ?m = "st16 m (a + of_nat (2 * j)) w"
  have o: "?f ?m i = ?f m i" if "i < n" "i \<noteq> j" for i
    using words_apart [OF that(1) assms(1) that(2) assms(2), of a] by (simp add: ld_st_apart del: of_nat_mult)
  have "sum (?f ?m) {..<n} = ?f ?m j + sum (?f ?m) ({..<n} - {j})" "sum (?f m) {..<n} = ?f m j + sum (?f m) ({..<n} - {j})"
    using assms(1) by (simp_all add: sum.remove del: of_nat_mult)
  moreover have "sum (?f ?m) ({..<n} - {j}) = sum (?f m) ({..<n} - {j})" using o by (intro sum.cong) auto
  ultimately show ?thesis using assms(3) by (simp add: cksum_words_def ld16_st16_same del: of_nat_mult)
qed

lemma in_cksum_zero:
  assumes "j < n" "n \<le> 65536" "ld16 m (a + of_nat (2 * j)) = 0"
  shows "in_cksum (st16 m (a + of_nat (2 * j)) (in_cksum m a (2 * n))) a (2 * n) = 0"
proof -
  let ?S = "cksum_words m a n" and ?c = "in_cksum m a (2 * n)" and ?m = "st16 m (a + of_nat (2 * j)) (in_cksum m a (2 * n))"
  note v = in_cksum_value [OF assms(2), of m a] and v' = in_cksum_value [OF assms(2), of ?m a]
  have S': "cksum_words ?m a n = ?S + unat ?c" by (rule cksum_words_st16 [OF assms])
  note fm = fold16_mod [OF v(2)]
  have f: "fold16 ?S \<le> 65535" using fm by (rule conjunct1)
  have "\<exists>k. ?S = fold16 ?S + 65535 * k" using fm [THEN conjunct2] by (rule conjunct1)
  then obtain k where k: "?S = fold16 ?S + 65535 * k" by (elim exE)
  have "unat ?c + fold16 ?S = 65535" using v(1) f by simp
  moreover have "x = 65535 * (k + 1)" if "c + f = 65535" "x = s + c" "s = f + 65535 * k" for x s c f :: nat using that by simp
  ultimately have e: "cksum_words ?m a n = 65535 * (k + 1)" using S' k by blast
  have "fold16 (65535 * (k + 1)) = 65535" if "65535 * (k + 1) < 2 ^ 32"
  proof -
    define F where "F = fold16 (65535 * (k + 1))"
    have F: "F \<le> 65535 \<and> (\<exists>k'. 65535 * (k + 1) = F + 65535 * k') \<and> (F = 0 \<longrightarrow> 65535 * (k + 1) = 0)"
      unfolding F_def by (rule fold16_mod [OF that])
    then obtain k' where "65535 * (k + 1) = F + 65535 * k'" by (elim conjE exE)
    then have d: "F = 65535 * (k + 1 - k')" by (simp add: diff_mult_distrib2)
    moreover have "F \<noteq> 0" using F by (metis add_is_0 mult_is_0 one_neq_zero zero_neq_numeral)
    moreover have "F \<le> 65535" using F by (rule conjunct1)
    ultimately have "k + 1 - k' = 1" by simp
    then show ?thesis using d unfolding F_def [symmetric] by simp
  qed
  then have "fold16 (cksum_words ?m a n) = 65535" using v'(2) unfolding e by blast
  then have "unat (in_cksum ?m a (2 * n)) = 0" using v'(1) by simp
  then show ?thesis by (simp add: unsigned_eq_0_iff)
qed

section \<open>The frames that \<open>send\<close> builds\<close>

lemma mread_sub: "o' + n \<le> k \<Longrightarrow> mread m (a + of_nat o') n = take n (drop o' (mread m a k))"
proof -
  assume h: "o' + n \<le> k"
  then have "mread m a k = mread m a o' @ mread m (a + of_nat o') (k - o')" using mread_add [of m a o' "k - o'"] by simp
  moreover have "mread m (a + of_nat o') (k - o') = mread m (a + of_nat o') n @ mread m (a + of_nat o' + of_nat n) (k - o' - n)"
    using h mread_add [of m "a + of_nat o'" n "k - o' - n"] by simp
  ultimately show ?thesis by simp
qed

lemma mread_same_sub:
  assumes "mread m' a k = mread m a k" "o' + n \<le> k"
  shows "mread m' (a + of_nat o') n = mread m (a + of_nat o') n"
  using assms by (simp add: mread_sub)

lemma cksum_add_cong: "mread m' a n = mread m a n \<Longrightarrow> cksum_add m' a n acc = cksum_add m a n acc"
proof (induction m a n acc rule: cksum_add.induct)
  case (2 m a acc)
  then show ?case by (simp add: mread_def)
next
  case (3 m a n acc)
  have "mread m' (a + 2) n = mread m (a + 2) n" "mread m' a 2 = mread m a 2"
    using mread_same_sub [OF 3(2), of 2 n] mread_same_sub [OF 3(2), of 0 2] by simp_all
  then show ?case using 3(1) by (simp add: ld16_def)
qed simp

text \<open>Numbers on the wire: the most significant byte first.\<close>

definition be16 :: "u16 \<Rightarrow> byte list" where
  "be16 v = [ucast (drop_bit 8 v), ucast v]"

definition be32 :: "u32 \<Rightarrow> byte list" where
  "be32 v = [ucast (drop_bit 24 v), ucast (drop_bit 16 v), ucast (drop_bit 8 v), ucast v]"

lemma to_le_bswap: "to_le 2 (bswaps v) = be16 v" "to_le 4 (bswapl w) = be32 w"
proof -
  have "ucast (bswaps v) = (ucast (drop_bit 8 v) :: byte)" "ucast (drop_bit 8 (bswaps v)) = (ucast v :: byte)"
    by (rule bit_word_eqI; simp add: bit_simps bit_bswaps add.commute)+
  then show "to_le 2 (bswaps v) = be16 v" by (simp add: numeral_2_eq_2 be16_def)
  have "ucast (bswapl w) = (ucast (drop_bit 24 w) :: byte)" "ucast (drop_bit 8 (bswapl w)) = (ucast (drop_bit 16 w) :: byte)"
    "ucast (drop_bit 16 (bswapl w)) = (ucast (drop_bit 8 w) :: byte)" "ucast (drop_bit 24 (bswapl w)) = (ucast w :: byte)"
    by (rule bit_word_eqI; simp add: bit_simps bit_bswapl add.commute)+
  then show "to_le 4 (bswapl w) = be32 w" by (simp add: eval_nat_numeral be32_def)
qed

lemma be_iff:
  "ld16 m a = bswaps v \<longleftrightarrow> mread m a 2 = be16 v" "ld32 m a = bswapl w \<longleftrightarrow> mread m a 4 = be32 w"
proof -
  have "to_le 2 (ld16 m a) = mread m a 2" "to_le 4 (ld32 m a) = mread m a 4"
    unfolding ld16_def ld32_def by (rule to_le_from_le; simp)+
  moreover have "(from_le (to_le 2 x) :: u16) = x" "(from_le (to_le 4 y) :: u32) = y" for x y
    by (rule from_le_to_le_full; simp)+
  ultimately show "ld16 m a = bswaps v \<longleftrightarrow> mread m a 2 = be16 v" "ld32 m a = bswapl w \<longleftrightarrow> mread m a 4 = be32 w"
    unfolding to_le_bswap [symmetric] by metis+
qed

text \<open>
  An Ethernet frame with an IP and a UDP header and the payload \<open>data\<close>; the words of the IP header add
  up to \<open>0xffff\<close>.
\<close>

definition udp_frame :: "memory \<Rightarrow> addr \<Rightarrow> u32 \<Rightarrow> u16 \<Rightarrow> u16 \<Rightarrow> byte list \<Rightarrow> bool" where
  "udp_frame m buf dst sport dport data \<longleftrightarrow>
     mread m buf 6 = host_mac \<and> mread m (buf + 6) 6 = local_mac \<and> mread m (buf + 12) 2 = [0x08, 0x00] \<and>
     mread m (buf + 14) 2 = [0x45, 0] \<and> mread m (buf + 16) 2 = be16 (of_nat (28 + length data)) \<and>
     mread m (buf + 18) 6 = [0, 0, 0, 0, 100, 17] \<and> fold16 (cksum_words m (buf + 14) 10) = 0xffff \<and>
     mread m (buf + 26) 4 = [10, 0, 2, 15] \<and> mread m (buf + 30) 4 = be32 dst \<and>
     mread m (buf + 34) 2 = be16 sport \<and> mread m (buf + 36) 2 = be16 dport \<and>
     mread m (buf + 38) 2 = be16 (of_nat (8 + length data)) \<and> mread m (buf + 42) (length data) = data"

lemma local_ip_bytes: "be32 local_ip = [10, 0, 2, 15]" "be16 ETHTYPE_IP = [0x08, 0x00]"
  by (simp_all add: be32_def be16_def local_ip_def MAKE_IP_ADDR_def ETHTYPE_IP_def)

lemma fold16_iff: "in_cksum m a 20 = 0 \<longleftrightarrow> fold16 (cksum_words m a 10) = 0xffff"
proof -
  have v: "unat (in_cksum m a (2 * 10)) = 65535 - fold16 (cksum_words m a 10)" "cksum_words m a 10 < 2 ^ 32"
    using in_cksum_value [of 10 m a] by simp_all
  have "fold16 (cksum_words m a 10) \<le> 65535" using fold16_mod [OF v(2)] by simp
  then show ?thesis using v(1) by (simp add: word_unat_eq_iff)
qed

lemma udp_frame_alt:
  "udp_frame m buf dst sport dport data \<longleftrightarrow>
     mread m buf 6 = host_mac \<and> mread m (buf + 6) 6 = local_mac \<and> ld16 m (buf + 12) = htons ETHTYPE_IP \<and>
     mread m (buf + 14) 2 = [0x45, 0] \<and> ld16 m (buf + 16) = htons (of_nat (28 + length data)) \<and>
     mread m (buf + 18) 6 = [0, 0, 0, 0, 100, IPPROTO_UDP] \<and> in_cksum m (buf + 14) 20 = 0 \<and>
     ld32 m (buf + 26) = htonl local_ip \<and> ld32 m (buf + 30) = htonl dst \<and>
     ld16 m (buf + 34) = htons sport \<and> ld16 m (buf + 36) = htons dport \<and>
     ld16 m (buf + 38) = htons (of_nat (8 + length data)) \<and> mread m (buf + 42) (length data) = data"
  unfolding udp_frame_def be_iff fold16_iff local_ip_bytes IPPROTO_UDP_def by (rule refl)

text \<open>
  What a receiver looks at: a UDP packet from anywhere, with an IP header of five words, that is without options. (\<open>ip_rx\<close> also
  skips options; the invariants above cover every header length.)
\<close>

definition udp_packet :: "memory \<Rightarrow> addr \<Rightarrow> u32 \<Rightarrow> u16 \<Rightarrow> u16 \<Rightarrow> byte list \<Rightarrow> bool" where
  "udp_packet m buf src sport dport data \<longleftrightarrow>
     mread m (buf + 12) 2 = [0x08, 0x00] \<and> m (buf + 14) AND 0x0f = 5 \<and> m (buf + 23) = 17 \<and>
     mread m (buf + 26) 4 = be32 src \<and> mread m (buf + 34) 2 = be16 sport \<and> mread m (buf + 36) 2 = be16 dport \<and>
     mread m (buf + 38) 2 = be16 (of_nat (8 + length data)) \<and> mread m (buf + 42) (length data) = data"

lemma udp_packet_alt:
  "udp_packet m buf src sport dport data \<longleftrightarrow>
     ld16 m (buf + 12) = htons ETHTYPE_IP \<and> m (buf + 14) AND 0x0f = 5 \<and> m (buf + 23) = IPPROTO_UDP \<and>
     ld32 m (buf + 26) = htonl src \<and> ld16 m (buf + 34) = htons sport \<and> ld16 m (buf + 36) = htons dport \<and>
     ld16 m (buf + 38) = htons (of_nat (8 + length data)) \<and> mread m (buf + 42) (length data) = data"
  unfolding udp_packet_def be_iff local_ip_bytes IPPROTO_UDP_def by (rule refl)

lemma udp_frame_packet:
  assumes "udp_frame m buf dst sport dport data"
  shows "udp_packet m buf local_ip sport dport data"
proof -
  note f = assms [unfolded udp_frame_alt]
  have "mread m (buf + 14) 2 ! 0 = 0x45" "mread m (buf + 18) 6 ! 5 = IPPROTO_UDP" using f by simp_all
  then have "m (buf + 14) = 0x45" "m (buf + 23) = IPPROTO_UDP" by (simp_all add: add.assoc)
  then show ?thesis using f by (simp add: udp_packet_alt)
qed

lemma udp_packet_copy:
  assumes "mread m' p n = mread m b n" "42 + length data \<le> n" "udp_packet m b src sport dport data"
  shows "udp_packet m' p src sport dport data"
proof -
  have sub: "mread m' (p + of_nat k) l = mread m (b + of_nat k) l" if "k + l \<le> n" for k l
    using that by (simp add: mread_sub assms(1))
  have "ld16 m' (p + 12) = ld16 m (b + 12)" "ld32 m' (p + 26) = ld32 m (b + 26)" "ld16 m' (p + 34) = ld16 m (b + 34)"
    "ld16 m' (p + 36) = ld16 m (b + 36)" "ld16 m' (p + 38) = ld16 m (b + 38)"
    "mread m' (p + 42) (length data) = mread m (b + 42) (length data)"
    using sub [of 12 2] sub [of 26 4] sub [of 34 2] sub [of 36 2] sub [of 38 2] sub [of 42 "length data"] assms(2)
    by (simp_all add: ld16_def ld32_def)
  moreover have "m' (p + 14) = m (b + 14)" "m' (p + 23) = m (b + 23)"
    using sub [of 14 1] sub [of 23 1] assms(2) by (simp_all add: mread_def)
  ultimately show ?thesis using assms(3) by (simp add: udp_packet_alt)
qed

lemma udp_packet_parse:
  assumes "udp_packet m buf src sport dport data" "length data \<le> 1500"
  shows "m (ip_p (buf + of_nat sizeof_eth)) = IPPROTO_UDP" "ntohs (ld16 m (eth_type buf)) = ETHTYPE_IP"
    "frame_port m buf = dport"
    "frame_dgram m buf = \<lparr>d_src = src, d_sport = sport, d_len = of_nat (length data), d_data = mread m (buf + 42) 1500\<rparr>"
    "take (length data) (d_data (frame_dgram m buf)) = data"
proof -
  note f = assms(1) [unfolded udp_packet_alt]
  have u: "frame_udp m buf = buf + 34" using f by (simp add: frame_udp_def frame_ihl_def hdr_offsets sizeof_eth_def)
  show "m (ip_p (buf + of_nat sizeof_eth)) = IPPROTO_UDP" using f by (simp add: hdr_offsets sizeof_eth_def add.assoc)
  show "ntohs (ld16 m (eth_type buf)) = ETHTYPE_IP" using f by (simp add: hdr_offsets bswaps_bswaps)
  show "frame_port m buf = dport" using f by (simp add: frame_port_def u hdr_offsets add.assoc bswaps_bswaps)
  have l: "(ucast (of_nat (8 + length data) :: u16) :: u32) - 8 = of_nat (length data)"
  proof -
    have "(ucast (of_nat (8 + length data) :: u16) :: u32) = of_nat (8 + length data)"
      using assms(2) by (simp add: word_eq_iff_unsigned unsigned_ucast_eq unsigned_of_nat take_bit_nat_eq_self del: of_nat_add)
    then show ?thesis by simp
  qed
  show d: "frame_dgram m buf = \<lparr>d_src = src, d_sport = sport, d_len = of_nat (length data), d_data = mread m (buf + 42) 1500\<rparr>"
    using f l by (simp add: frame_dgram_def u hdr_offsets sizeof_eth_def add.assoc bswaps_bswaps bswapl_bswapl)
  have "mread m (buf + 42) (length data) = data" using f by blast
  then show "take (length data) (d_data (frame_dgram m buf)) = data" using mread_take [OF assms(2), of m "buf + 42"] by (simp add: d)
qed

lemma unat_minus_1: "unat (- 1 :: u64) = 2 ^ 64 - 1"
  by (simp add: unsigned_minus_1_eq_mask mask_eq_exp_minus_1)

lemmas frame_simps = unat_minus_1 st8_def st16_def st32_def ld16_def ld32_def mem_simps apart_fields hdr_offsets add.assoc
  host_mac_def local_mac_def

lemma put_ip_cksum:
  assumes "ld16 m (ip + 10) = 0"
  shows "in_cksum (put_ip ip dst len m) ip 20 = 0"
proof -
  define m0 where "m0 = (let m = st8 m (ip_vhl ip) 0x45;
          m = st8 m (ip_tos ip) 0;
          m = st16 m (ip_len ip) (htons (ucast (of_nat (sizeof_ip + sizeof_udp) + len)));
          m = st16 m (ip_id ip) 0;
          m = st16 m (ip_off ip) 0;
          m = st8 m (ip_ttl ip) 100;
          m = st8 m (ip_p ip) IPPROTO_UDP;
          m = st32 m (ip_src ip) (htonl local_ip)
      in st32 m (ip_dst ip) (htonl dst))"
  have p: "put_ip ip dst len m = st16 m0 (ip + of_nat (2 * 5)) (in_cksum m0 ip (2 * 10))"
    by (simp add: put_ip_def m0_def Let_def ip_sum_def sizeof_ip_def)
  have "ld16 m0 (ip + of_nat (2 * 5)) = ld16 m (ip + 10)" by (simp add: m0_def Let_def frame_simps)
  then have "in_cksum (st16 m0 (ip + of_nat (2 * 5)) (in_cksum m0 ip (2 * 10))) ip (2 * 10) = 0"
    using assms by (intro in_cksum_zero) simp_all
  then show ?thesis unfolding p by simp
qed

lemma send_frame_header:
  assumes "m' = send_frame buf sport dst dport len m"
  shows "mread m' buf 6 = host_mac" "mread m' (buf + 6) 6 = local_mac" "ld16 m' (buf + 12) = htons ETHTYPE_IP"
    "mread m' (buf + 14) 2 = [0x45, 0]" "ld16 m' (buf + 16) = htons (ucast (28 + len))"
    "mread m' (buf + 18) 6 = [0, 0, 0, 0, 100, IPPROTO_UDP]" "in_cksum m' (buf + 14) 20 = 0"
    "ld32 m' (buf + 26) = htonl local_ip" "ld32 m' (buf + 30) = htonl dst"
    "ld16 m' (buf + 34) = htons (ucast sport)" "ld16 m' (buf + 36) = htons (ucast dport)"
    "ld16 m' (buf + 38) = htons (ucast (len + 8))"
proof -
  define m1 where "m1 = put_eth buf (memset m buf 0 PGSIZE)"
  define m2 where "m2 = put_ip (buf + 14) dst len m1"
  have m': "m' = put_udp (buf + 34) sport dport len m2" by (simp add: assms send_frame_def m2_def m1_def)
  note d = m' m2_def m1_def put_udp_def put_ip_def put_eth_def memset_page Let_def frame_simps sizeof_ip_def sizeof_udp_def
  show "mread m' buf 6 = host_mac" "mread m' (buf + 6) 6 = local_mac" "ld16 m' (buf + 12) = htons ETHTYPE_IP"
    by (simp_all add: d)
  show "ld16 m' (buf + 16) = htons (ucast (28 + len))" "ld32 m' (buf + 26) = htonl local_ip" "ld32 m' (buf + 30) = htonl dst"
    by (simp_all add: d)
  show "ld16 m' (buf + 34) = htons (ucast sport)" "ld16 m' (buf + 36) = htons (ucast dport)"
    "ld16 m' (buf + 38) = htons (ucast (len + 8))"
    by (simp_all add: d)
  have "mread m' (buf + 14) 2 = mread m' (buf + 14) 1 @ mread m' (buf + 15) 1"
    using mread_add [of m' "buf + 14" 1 1] by (simp add: add.assoc numeral_2_eq_2)
  then show "mread m' (buf + 14) 2 = [0x45, 0]" by (simp add: d)
  have "mread m' (buf + 18) 6 = mread m' (buf + 18) 2 @ mread m' (buf + 20) 2 @ mread m' (buf + 22) 1 @ mread m' (buf + 23) 1"
    using mread_add [of m' "buf + 18" 2 4] mread_add [of m' "buf + 20" 2 2] mread_add [of m' "buf + 22" 1 1] by (simp add: add.assoc eval_nat_numeral)
  moreover have "mread m' (buf + 18) 2 = to_le 2 (0 :: u16)" "mread m' (buf + 20) 2 = to_le 2 (0 :: u16)"
    "mread m' (buf + 22) 1 = [100]" "mread m' (buf + 23) 1 = [IPPROTO_UDP]" by (simp_all add: d)
  ultimately show "mread m' (buf + 18) 6 = [0, 0, 0, 0, 100, IPPROTO_UDP]" by (simp add: numeral_2_eq_2)
  have "ld16 m1 (buf + 14 + 10) = 0" by (simp add: d) (simp add: numeral_2_eq_2)
  then have z: "in_cksum m2 (buf + 14) 20 = 0" unfolding m2_def by (rule put_ip_cksum)
  have "mread m' (buf + 14) 20 = mread m2 (buf + 14) 20" unfolding m' by (simp add: put_udp_def Let_def frame_simps)
  from cksum_add_cong [OF this, of 0] show "in_cksum m' (buf + 14) 20 = 0" using z by (simp add: in_cksum_def)
qed

text \<open>With the payload behind the headers.\<close>

lemma send_frame_payload:
  assumes "length data \<le> 4054" "unat len = length data"
  shows "udp_frame (mwrite (send_frame buf sport dst dport len m) (buf + 42) data) buf dst (ucast sport) (ucast dport) data"
proof -
  define m1 where "m1 = send_frame buf sport dst dport len m"
  define m2 where "m2 = mwrite m1 (buf + 42) data"
  note h = send_frame_header [OF m1_def]
  have "apart buf 42 (buf + of_nat 42) (length data)" using assms(1) by (intro apart_adjacent) simp_all
  then have s: "mread m2 buf 42 = mread m1 buf 42" by (simp add: m2_def mread_mwrite_apart)
  have r: "mread m2 (buf + of_nat o') n = mread m1 (buf + of_nat o') n" if "o' + n \<le> 42" for o' n
    using mread_same_sub [OF s that] .
  note ri = r [of 0 6] r [of 6 6] r [of 12 2] r [of 14 2] r [of 16 2] r [of 18 6] r [of 14 20] r [of 26 4] r [of 30 4]
    r [of 34 2] r [of 36 2] r [of 38 2]
  have c: "in_cksum m2 (buf + 14) 20 = 0" using h(7) ri(7) cksum_add_cong [of m2 "buf + 14" 20 m1] by (simp add: in_cksum_def)
  have l: "len = of_nat (length data)" using assms(2) by (metis of_nat_unat ucast_id unsigned_of_nat word_unat_eq_iff)
  have w: "(ucast (28 + len) :: u16) = of_nat (28 + length data)" "(ucast (len + 8) :: u16) = of_nat (8 + length data)"
  proof -
    have u: "(ucast (of_nat k :: u32) :: u16) = of_nat k" for k
    proof -
      have "unat (ucast (of_nat k :: u32) :: u16) = unat (of_nat k :: u16)"
        by (simp only: unsigned_ucast_eq unsigned_of_nat take_bit_take_bit) simp
      then show ?thesis by (simp only: word_unat_eq_iff)
    qed
    show "(ucast (28 + len) :: u16) = of_nat (28 + length data)" "(ucast (len + 8) :: u16) = of_nat (8 + length data)"
      using u [of "28 + length data"] u [of "8 + length data"] by (simp_all add: l add.commute)
  qed
  have "mread m2 (buf + 42) (length data) = data" using assms(1) by (simp add: m2_def mread_mwrite_same)
  then show ?thesis unfolding m1_def [symmetric] m2_def [symmetric] udp_frame_alt
    using h ri c w by (simp add: ld16_def ld32_def)
qed

end
