(* ===== verification/NetRun.thy ===== *)
theory NetRun
  imports NetFrame
begin

text \<open>
  The network code as a whole: initialisation of the driver, and every interleaving of its system
  calls, its interrupt handler, the card, and the rest of the kernel, which owns other pages.
\<close>

section \<open>Initialisation\<close>

lemma rx_fill_spec:
  fixes s :: "'z net_scheme"
  assumes "kmem_wf s (bs @ ps)" "k + length bs = n" "length (rx_bufs s) = n" "length (rx_ring s) = n"
  shows "\<exists>fl rb rr. rx_fill [k..<n] s = Some (s\<lparr>freelist := fl, rx_bufs := rb, rx_ring := rr\<rparr>) \<and>
    kmem_wf (s\<lparr>freelist := fl\<rparr>) ps \<and> rb = take k (rx_bufs s) @ bs \<and> length rr = n \<and>
    (\<forall>i < k. rr ! i = rx_ring s ! i) \<and> (\<forall>i. k \<le> i \<longrightarrow> i < n \<longrightarrow> rx_addr (rr ! i) = V2P (rb ! i) \<and> rx_status (rr ! i) = 0)"
  using assms
proof (induction bs arbitrary: s k)
  case Nil
  then show ?case by (intro exI [of _ "freelist s"] exI [of _ "rx_bufs s"] exI [of _ "rx_ring s"]) simp
next
  case (Cons b bs)
  have w: "kmem_wf s (b # (bs @ ps))" using Cons.prems(1) by simp
  note ka = kalloc_pop [OF w]
  have b: "b \<noteq> 0" using w valid_page_nonzero by (auto simp: kmem_wf_def)
  let ?d = "(rx_ring s ! k)\<lparr>rx_addr := V2P b, rx_status := 0\<rparr>"
  define t where "t = s\<lparr>freelist := ld64 (mem s) b, rx_bufs := (rx_bufs s)[k := b], rx_ring := (rx_ring s)[k := ?d]\<rparr>"
  have k: "k < n" using Cons.prems(2) by simp
  have wt: "kmem_wf t (bs @ ps)" using ka(2) by (simp add: t_def kmem_wf_def kmem_lockable_def)
  have e: "rx_fill [k..<n] s = rx_fill [Suc k..<n] t"
    using k ka(1) b Cons.prems(4) by (simp add: upt_conv_Cons Let_def t_def)
  obtain fl rb rr where h: "rx_fill [Suc k..<n] t = Some (t\<lparr>freelist := fl, rx_bufs := rb, rx_ring := rr\<rparr>)"
    "kmem_wf (t\<lparr>freelist := fl\<rparr>) ps" "rb = take (Suc k) (rx_bufs t) @ bs" "length rr = n"
    "\<forall>i < Suc k. rr ! i = rx_ring t ! i" "\<forall>i. Suc k \<le> i \<longrightarrow> i < n \<longrightarrow> rx_addr (rr ! i) = V2P (rb ! i) \<and> rx_status (rr ! i) = 0"
    using Cons.IH [OF wt, of "Suc k"] Cons.prems k by (auto simp: t_def)
  have rb: "rb = take k (rx_bufs s) @ b # bs"
    using h(3) k Cons.prems(3) by (simp add: t_def take_Suc_conv_app_nth)
  have ad: "rx_addr (rr ! i) = V2P (rb ! i) \<and> rx_status (rr ! i) = 0" if "k \<le> i" "i < n" for i
  proof (cases "i = k")
    case True
    have "rr ! k = rx_ring t ! k" using h(5) by simp
    then show ?thesis using True k Cons.prems(3,4) by (simp add: t_def rb nth_append)
  qed (use that h(6) in simp)
  have "rx_fill [k..<n] s = Some (s\<lparr>freelist := fl, rx_bufs := rb, rx_ring := rr\<rparr>)" using e h(1) by (simp add: t_def)
  moreover have "kmem_wf (s\<lparr>freelist := fl\<rparr>) ps" using h(2) by (simp add: t_def kmem_wf_def kmem_lockable_def)
  moreover have "\<forall>i < k. rr ! i = rx_ring s ! i" using h(5) by (simp add: t_def)
  ultimately show ?case using rb ad h(4) by (intro exI [of _ fl] exI [of _ rb] exI [of _ rr]) simp
qed

lemma clear_regs:
  "\<exists>r. fold (\<lambda>i s. set_reg (k + i) 0 s) xs s = s\<lparr>regs := r\<rparr> \<and> (\<forall>j. j \<notin> (\<lambda>i. k + i) ` set xs \<longrightarrow> r j = regs s j)"
proof (induction xs arbitrary: s)
  case Nil
  show ?case by (intro exI [of _ "regs s"]) simp
next
  case (Cons x xs)
  from Cons [of "set_reg (k + x) 0 s"] obtain r where
    "fold (\<lambda>i s. set_reg (k + i) 0 s) xs (set_reg (k + x) 0 s) = (set_reg (k + x) 0 s)\<lparr>regs := r\<rparr>"
    "\<forall>j. j \<notin> (\<lambda>i. k + i) ` set xs \<longrightarrow> r j = regs (set_reg (k + x) 0 s) j" by blast
  then show ?case by (intro exI [of _ r]) (auto simp: set_reg_def)
qed

lemma enable_regs:
  "\<exists>r. e1000_enable s = s\<lparr>regs := r\<rparr> \<and> r E1000_TDH = regs s E1000_TDH \<and> r E1000_RDH = regs s E1000_RDH \<and>
    r E1000_RDT = regs s E1000_RDT \<and> r E1000_TDT = regs s E1000_TDT"
proof -
  let ?s = "set_reg (E1000_RA + 1) (0x5634 OR push_bit 31 1) (set_reg E1000_RA 0x12005452 s)"
  from clear_regs [of E1000_MTA "[0..<4096 div 32]" ?s] obtain r where
    r: "fold (\<lambda>i s. set_reg (E1000_MTA + i) 0 s) [0..<4096 div 32] ?s = ?s\<lparr>regs := r\<rparr>"
    "\<forall>j. j \<notin> (\<lambda>i. E1000_MTA + i) ` set [0..<4096 div 32] \<longrightarrow> r j = regs ?s j" by blast
  have "E1000_TDH \<notin> (\<lambda>i. E1000_MTA + i) ` set [0..<4096 div 32]" "E1000_RDH \<notin> (\<lambda>i. E1000_MTA + i) ` set [0..<4096 div 32]"
    "E1000_RDT \<notin> (\<lambda>i. E1000_MTA + i) ` set [0..<4096 div 32]" "E1000_TDT \<notin> (\<lambda>i. E1000_MTA + i) ` set [0..<4096 div 32]"
    by (auto simp: e1000_regs)
  then have "r E1000_TDH = regs s E1000_TDH" "r E1000_RDH = regs s E1000_RDH" "r E1000_RDT = regs s E1000_RDT"
    "r E1000_TDT = regs s E1000_TDT"
    using r(2) by (simp_all add: set_reg_def) (simp_all add: e1000_regs)
  then show ?thesis unfolding e1000_enable_def Let_def r(1)
    by (intro exI) (auto simp: set_reg_def e1000_regs)
qed

lemma init_inv:
  fixes s :: "'z net_scheme"
  assumes "quiet s" "kmem_wf s (bs @ ps)" "length bs = RX_RING_SIZE" "length (rx_bufs s) = RX_RING_SIZE" "port_list s = 0"
    and R: "aligned_set R" "set (bs @ ps) \<inter> R = {}"
  obtains s' where "e1000_init xregs s = Some s'" "quiet s'" "net_inv s' ps [] R" "rx_bufs s' = bs" "port_list s' = 0"
    "seen_arp s' = seen_arp s" "mem s' = mem s" "kend s' = kend s" "curproc s' = curproc s" "ptable s' = ptable s"
    "recv_locals s' = recv_locals s" "regs s' E1000_RDT = 15" "regs s' E1000_RDH = 0" "regs s' E1000_TDT = 0"
    "tx_ring s' = replicate TX_RING_SIZE (zero_tx_desc\<lparr>tx_status := E1000_TXD_STAT_DD, tx_addr := 0\<rparr>)"
    "cpu_st s' = cpu_st s" "rx_window s'" "net_pages s' ps [] = set (bs @ ps)"
proof -
  define t where "t = e1000_tx_setup (e1000_reset ((cprintf ''e1000_init: ENTER xregs=%p'' [xregs] s)\<lparr>regs_base := xregs\<rparr>))"
  have lkf: "c\<lparr>locks := (locks c)(E1000_lock := initlock (locks c E1000_lock))\<rparr> = c"
    if "c = cprintf ''e1000_init: ENTER xregs=%p'' [xregs] s" for c
  proof -
    have "locks c = (\<lambda>_. free_lock)" using assms(1) that by (simp add: quiet_def cprintf_def)
    then have "(locks c)(E1000_lock := initlock (locks c E1000_lock)) = locks c" by (simp add: initlock_def free_lock_def fun_eq_iff)
    then show ?thesis by simp
  qed
  note t_defs = t_def e1000_tx_setup_def e1000_reset_def cprintf_def Let_def set_reg_def
  have tf: "locks t = locks s" "cpu_st t = cpu_st s" "mem t = mem s" "freelist t = freelist s" "use_lock t = use_lock s" "kend t = kend s"
    "rx_bufs t = rx_bufs s" "port_list t = 0" "seen_arp t = seen_arp s" "tx_bufs t = replicate TX_RING_SIZE 0"
    "tx_ring t = replicate TX_RING_SIZE (zero_tx_desc\<lparr>tx_status := E1000_TXD_STAT_DD, tx_addr := 0\<rparr>)" "regs t E1000_TDH = 0"
    "regs t E1000_TDT = 0" "curproc t = curproc s" "ptable t = ptable s" "recv_locals t = recv_locals s"
    using assms(5) by (simp_all add: t_defs map_replicate_const e1000_regs)
  define u where "u = t\<lparr>rx_ring := replicate RX_RING_SIZE zero_rx_desc\<rparr>"
  have wu: "kmem_wf u (bs @ ps)" using assms(2) tf by (simp add: u_def kmem_wf_def kmem_lockable_def)
  obtain fl rb rr where f: "rx_fill [0..<RX_RING_SIZE] u = Some (u\<lparr>freelist := fl, rx_bufs := rb, rx_ring := rr\<rparr>)"
    "kmem_wf (u\<lparr>freelist := fl\<rparr>) ps" "rb = bs" "length rr = RX_RING_SIZE" "\<forall>i < RX_RING_SIZE. rx_addr (rr ! i) = V2P (rb ! i) \<and> rx_status (rr ! i) = 0"
    using rx_fill_spec [OF wu, of 0 RX_RING_SIZE] assms(3,4) tf by (auto simp: u_def)
  define v where "v = u\<lparr>freelist := fl, rx_bufs := bs, rx_ring := rr\<rparr>"
  define w where "w = set_reg E1000_RDT (of_nat (RX_RING_SIZE - 1)) (set_reg E1000_RDH 0 (set_reg E1000_RDLEN (of_nat (16 * RX_RING_SIZE))
      (set_reg E1000_RDBAH (ucast (drop_bit 32 (V2P (rx_ring_va v)))) (set_reg E1000_RDBAL (ucast (V2P (rx_ring_va v))) v))))"
  from enable_regs [of w] obtain r where r: "e1000_enable w = w\<lparr>regs := r\<rparr>" "r E1000_TDH = regs w E1000_TDH"
    "r E1000_RDH = regs w E1000_RDH" "r E1000_RDT = regs w E1000_RDT" "r E1000_TDT = regs w E1000_TDT" by blast
  define s' where "s' = cprintf ''e1000_init: STATUS=0x%x'' [ucast (r E1000_STATUS)] (w\<lparr>regs := r\<rparr>)"
  have "e1000_rx_setup t = Some w" using f(1,3) by (simp add: e1000_rx_setup_def u_def v_def w_def Let_def)
  then have e: "e1000_init xregs s = Some s'"
    using r(1) by (simp add: e1000_init_def Let_def s'_def t_def lkf)
  have sf: "locks s' = locks s" "cpu_st s' = cpu_st s" "mem s' = mem s" "freelist s' = fl" "use_lock s' = use_lock s" "kend s' = kend s"
    "rx_bufs s' = bs" "port_list s' = 0" "seen_arp s' = seen_arp s" "tx_bufs s' = replicate TX_RING_SIZE 0"
    "tx_ring s' = replicate TX_RING_SIZE (zero_tx_desc\<lparr>tx_status := E1000_TXD_STAT_DD, tx_addr := 0\<rparr>)"
    "regs s' E1000_TDH = 0" "regs s' E1000_RDH = 0" "regs s' E1000_RDT = 15" "rx_ring s' = rr"
    "regs s' E1000_TDT = 0" "curproc s' = curproc s" "ptable s' = ptable s" "recv_locals s' = recv_locals s"
    using tf r by (simp_all add: s'_def w_def v_def u_def cprintf_def set_reg_def e1000_regs RX_RING_SIZE_def)
  have "kmem_wf s' ps" using f(2) tf sf by (simp add: kmem_wf_def kmem_lockable_def u_def)
  moreover have "nic_wf s'" using sf f assms(3) by (simp add: nic_wf_def TX_RING_SIZE_def RX_RING_SIZE_def E1000_TXD_STAT_DD_def)
  moreover have ow: "owned s' [] = bs" using sf by (simp add: owned_def tx_pages_def)
  ultimately have "net_inv s' ps [] R" using assms(2) R sf by (auto simp: net_inv_def kmem_wf_def)
  moreover have "quiet s'" using assms(1) sf by (simp add: quiet_def)
  moreover have "rx_window s'" using sf f(5) by (simp add: rx_window_def rx_done_def in_ring_def rx_next_def RX_RING_SIZE_def)
  moreover have "net_pages s' ps [] = set (bs @ ps)" using ow by (auto simp: net_pages_def)
  ultimately show ?thesis using that [OF e] sf by simp
qed

section \<open>Runs\<close>

text \<open>
  After a call that sleeps, the scheduler has the CPU and releases the table lock; a call that returns
  holds no lock.
\<close>

definition leave :: "'a outcome \<Rightarrow> 'z pstate_scheme \<Rightarrow> 'z pstate_scheme option" where
  "leave out s = (case out of Ret r \<Rightarrow> Some s | Asleep \<Rightarrow> k_release Ptable_lock s)"

text \<open>
  The part of \<open>recv\<close> that takes a packet off its queue under \<open>netlock\<close>: the packet node, and the state after the lock is released.
\<close>

definition recv_dequeue :: "u16 \<Rightarrow> 'z net_scheme \<Rightarrow> (addr \<times> 'z net_scheme) option" where
  "recv_dequeue port s = do {
     s \<leftarrow> k_acquire Netlock s;
     pq \<leftarrow> find_port_queue port s;
     if pq = 0 \<or> ld32 (mem s) (pq_count pq) = 0 then None
     else do {
       let (k, m) = pop_pkt (mem s) pq;
       s \<leftarrow> k_release Netlock (s\<lparr>mem := m\<rparr>);
       Some (k, s)
     }
   }"

text \<open>
  \<open>net_run P s R W ls\<close>: the state \<open>s\<close> is reached between operations, \<open>P\<close> are all pages there are, the pages \<open>R\<close> are in the hands of
  code that runs or belong to other parts of the kernel, processes sleep in \<open>recv\<close> on the queues \<open>W\<close>,
  and \<open>ls\<close> are the lengths with which \<open>send\<close> has been called.

  The system calls and the interrupt handler occur whole, and also cut at the boundaries of their critical
  sections, so that other CPUs can run in between: \<open>send\<close> allocates a page (\<open>alloc\<close>), fills it (\<open>store\<close>) and hands it
  over (\<open>transmit\<close>) or frees it (\<open>free\<close>); \<open>recv\<close> takes a packet (\<open>dequeue\<close>), copies it to user pages (\<open>store\<close>) and frees it
  (\<open>free\<close>); the receive loop takes a frame (\<open>take\<close>) and handles it (\<open>handle\<close>); the ARP reply is an \<open>alloc\<close>, a \<open>store\<close> and
  a \<open>transmit\<close>. Other parts of the kernel allocate and free pages, write to pages in their hands, and change the process table.
\<close>

inductive net_run :: "addr set \<Rightarrow> 'z net_scheme \<Rightarrow> addr set \<Rightarrow> addr set \<Rightarrow> u32 list \<Rightarrow> bool" for P where
  boot: "quiet s \<Longrightarrow> kmem_wf s ps \<Longrightarrow> RX_RING_SIZE \<le> length ps \<Longrightarrow> length (rx_bufs s) = RX_RING_SIZE \<Longrightarrow>
    port_list s = 0 \<Longrightarrow> aligned_set R \<Longrightarrow> set ps \<inter> R = {} \<Longrightarrow> P = set ps \<union> R \<Longrightarrow> e1000_init xregs s = Some s' \<Longrightarrow> net_run P s' R {} []"
| bind: "net_run P s R W ls \<Longrightarrow> sys_bind s = Some (r, s') \<Longrightarrow> net_run P s' R W ls"
| send: "net_run P s R W ls \<Longrightarrow> send_call s = Some (pgdir, a) \<Longrightarrow> caller_pages s pgdir T U lp R \<Longrightarrow>
    sys_send s = Some (r, s') \<Longrightarrow> net_run P s' R W (sa_len a # ls)"
| recv: "net_run P s R W ls \<Longrightarrow> recv_call s = Some (pgdir, port, a) \<Longrightarrow> caller_pages s pgdir T U lp R \<Longrightarrow>
    curproc s = Some me \<Longrightarrow> me < length (ptable s) \<Longrightarrow> find_port_queue port s = Some pq \<Longrightarrow>
    sys_recv s = Some (out, s1) \<Longrightarrow> leave out s1 = Some s' \<Longrightarrow> net_run P s' R (if out = Asleep then insert pq W else W) ls"
| recv_again: "net_run P s R W ls \<Longrightarrow> pq \<in> W \<Longrightarrow> caller_pages s pgdir T U lp R \<Longrightarrow>
    curproc s = Some me \<Longrightarrow> me < length (ptable s) \<Longrightarrow> k_acquire Ptable_lock s = Some s1 \<Longrightarrow>
    recv_resume ie pgdir pq a s1 = Some (out, s2) \<Longrightarrow> leave out s2 = Some s' \<Longrightarrow> net_run P s' R W ls"
| intr: "net_run P s R W ls \<Longrightarrow> e1000_intr s = Some s' \<Longrightarrow> net_run P s' R W ls"
| card: "net_run P s R W ls \<Longrightarrow> nic_step s s' \<Longrightarrow> net_run P s' R W ls"
| transmit: "net_run P s R W ls \<Longrightarrow> p \<in> R \<Longrightarrow> valid_page (kend s) p \<Longrightarrow> e1000_transmit p len s = Some (r, s') \<Longrightarrow>
    net_run P s' (if r = 0 then R - {p} else R) W ls"
| dequeue: "net_run P s R W ls \<Longrightarrow> recv_dequeue port s = Some (k, s') \<Longrightarrow>
    net_run P s' (insert k (insert (ld64 (mem s) (pkt_fullbuf k)) R)) W ls"
| take: "net_run P s R W ls \<Longrightarrow> e1000_recv_take s = Some (more_work, dst, len, s') \<Longrightarrow>
    net_run P s' (if dst = 0 then R else insert dst R) W ls"
| handle: "net_run P s R W ls \<Longrightarrow> p \<in> R \<Longrightarrow> valid_page (kend s) p \<Longrightarrow> net_rx p len s = Some s' \<Longrightarrow> net_run P s' (R - {p}) W ls"
| store: "net_run P s R W ls \<Longrightarrow> \<forall>x. m x \<noteq> mem s x \<longrightarrow> (\<exists>p \<in> R. unat (x - p) < 4096) \<Longrightarrow> net_run P (s\<lparr>mem := m\<rparr>) R W ls"
| alloc: "net_run P s R W ls \<Longrightarrow> kalloc s = Some (p, s') \<Longrightarrow> p \<noteq> 0 \<Longrightarrow> net_run P s' (insert p R) W ls"
| free: "net_run P s R W ls \<Longrightarrow> p \<in> R \<Longrightarrow> kfree p s = Some s' \<Longrightarrow> net_run P s' (R - {p}) W ls"
| others_run: "net_run P s R W ls \<Longrightarrow> net_run P (s\<lparr>ptable := pt, curproc := c\<rparr>) R W ls"

text \<open>
  What holds in such a state: the invariant, the window of the receive ring, and that the pages of the network code, of others and
  the lost ones \<open>L\<close> are all the pages there are.
\<close>

definition net_at ::
    "addr set \<Rightarrow> 'z net_scheme \<Rightarrow> addr list \<Rightarrow> (addr \<times> u16 \<times> (addr \<times> addr) list) list \<Rightarrow> addr set \<Rightarrow> addr set \<Rightarrow> bool" where
  "net_at P s ps qs R L \<longleftrightarrow> quiet s \<and> net_inv s ps qs (R \<union> L) \<and> rx_window s \<and> net_pages s ps qs \<union> (R \<union> L) = P \<and> L \<inter> R = {} \<and>
     (L = {} \<or> (\<exists>p. L = {p}) \<and> seen_arp s)"

definition net_ok :: "addr set \<Rightarrow> 'z net_scheme \<Rightarrow> addr set \<Rightarrow> addr set \<Rightarrow> bool" where
  "net_ok P s R W \<longleftrightarrow> (\<exists>ps qs L. net_at P s ps qs R L \<and> W \<subseteq> fst ` set qs)"

lemma net_okI: "net_at P s ps qs R L \<Longrightarrow> W \<subseteq> fst ` set qs \<Longrightarrow> net_ok P s R W"
  by (auto simp: net_ok_def)

lemma net_okE:
  assumes "net_ok P s R W"
  obtains ps qs L where "net_at P s ps qs R L" "quiet s" "net_inv s ps qs (R \<union> L)" "W \<subseteq> fst ` set qs" "rx_window s"
  using assms by (auto simp: net_ok_def net_at_def)

text \<open>An operation that keeps the pages together, and one that also moves pages to or from others or loses one.\<close>

lemma net_at_step:
  assumes "net_at P s ps qs R L" "quiet s'" "net_inv s' ps' qs' (R \<union> L)" "net_pages s' ps' qs' = net_pages s ps qs" "same_rx s s'"
  shows "net_at P s' ps' qs' R L"
  using assms rx_window_same [OF assms(5)] by (auto simp: net_at_def same_rx_def)

lemma net_at_move:
  assumes "net_at P s ps qs R L" "quiet s'" "net_inv s' ps' qs' (R' \<union> (L \<union> L2))" "rx_window s'" "lost_page s s' L2" "seen_arp s \<longrightarrow> seen_arp s'"
    and "net_pages s' ps' qs' \<union> (R' \<union> L2) = net_pages s ps qs \<union> R" "L2 \<inter> R' = {}" "L \<inter> R' = {}"
  shows "net_at P s' ps' qs' R' (L \<union> L2)"
proof -
  have "net_pages s' ps' qs' \<union> (R' \<union> (L \<union> L2)) = P" using assms(1,7) unfolding net_at_def by blast
  moreover have "L \<union> L2 = {} \<or> (\<exists>p. L \<union> L2 = {p}) \<and> seen_arp s'"
    using assms(1,5,6) by (auto simp: net_at_def lost_page_def)
  ultimately show ?thesis using assms by (auto simp: net_at_def)
qed

lemma caller_pages_mono: "caller_pages s pgdir T U lp R \<Longrightarrow> R \<subseteq> R' \<Longrightarrow> caller_pages s pgdir T U lp R'"
  by (auto simp: caller_pages_def)

lemma bind_ok:
  assumes "net_ok P s R W" "sys_bind s = Some (r, s')"
  shows "net_ok P s' R W"
proof (rule net_okE [OF assms(1)])
  fix ps qs L
  assume h: "net_at P s ps qs R L" "quiet s" "net_inv s ps qs (R \<union> L)" "W \<subseteq> fst ` set qs"
  obtain port where p: "argint 0 s = Some port" using assms(2) by (auto simp: sys_bind_def bind_eq_Some_conv)
  show ?thesis
  proof (cases rule: bind_inv [OF h(2,3) p, case_names refused bound])
    case refused
    then show ?thesis using assms by simp
  next
    case (bound s'' q ps')
    then show ?thesis using assms(2) h(4) net_okI [OF net_at_step [OF h(1) bound(2,4,9,10)], of W] by auto
  qed
qed

lemma send_ok:
  assumes "net_ok P s R W" "send_call s = Some (pgdir, a)" "send_len_ok (sa_len a)" "caller_pages s pgdir T U lp R"
    "sys_send s = Some (r, s')"
  shows "net_ok P s' R W"
proof (rule net_okE [OF assms(1)])
  fix ps qs L
  assume h: "net_at P s ps qs R L" "quiet s" "net_inv s ps qs (R \<union> L)" "W \<subseteq> fst ` set qs"
  have c: "aspace (mem s) pgdir T U" "T \<union> U \<subseteq> R \<union> L" using assms(4) by (auto simp: caller_pages_def)
  show ?thesis
  proof (cases rule: send_inv [OF h(2,3) assms(2,3) c, case_names refused sent])
    case (refused s'' ps')
    then show ?thesis using assms(5) net_okI [OF net_at_step [OF h(1) refused(2,3,5,6)] h(4)] by simp
  next
    case (sent s'' ps' buf m)
    then show ?thesis using assms(5) net_okI [OF net_at_step [OF h(1) sent(2,3,8,9)] h(4)] by simp
  qed
qed

text \<open>A turn of \<open>recv\<close> on a queue of the list.\<close>

lemma turn_ok:
  assumes h: "net_at P s ps qs R L" "quiet s" "net_inv s ps qs (R \<union> L)" "W \<subseteq> fst ` set qs"
    and "pq \<in> fst ` set qs" "caller_pages s pgdir T U lp R" "curproc s = Some me" "me < length (ptable s)"
    and t: "recv_turn pgdir pq a (lk Netlock s) = Some (out, s1)" "leave out s1 = Some s'"
  shows "net_ok P s' R (insert pq W)"
proof -
  obtain qs1 port ks qs2 where qs: "qs = qs1 @ (pq, port, ks) # qs2" using assms(5) by (auto dest!: split_list)
  have cp: "caller_pages s pgdir T U lp (R \<union> L)" using assms(6) by (rule caller_pages_mono) simp
  show ?thesis
  proof (cases rule: recv_call_turn_inv [OF h(2) h(3) [unfolded qs] cp assms(8) t(1) assms(7), case_names slept taken])
    case slept
    let ?u = "put_to_sleep me (Ch_addr pq) s"
    have qu: "quiet ?u" using h(2) by (simp add: put_to_sleep_def upd_proc_def)
    then have "k_release Ptable_lock (lk Ptable_lock ?u) = Some ?u" by (intro release_lk) (simp_all add: quietD)
    then have "s' = ?u" using t(2) slept by (simp add: leave_def)
    moreover have "net_inv ?u ps qs (R \<union> L)"
      by (rule net_inv_cong [OF h(3)]) (use lockable_quiet [OF qu] in \<open>simp_all add: put_to_sleep_def upd_proc_def\<close>)
    then have "net_at P ?u ps qs R L" by (rule net_at_step [OF h(1) qu]) (simp_all add: put_to_sleep_def)
    ultimately show ?thesis using net_okI [of P ?u ps qs R L "insert pq W"] assms(5) h(4) by simp
  next
    case (taken r k b ks')
    then have "s' = s1" using t(2) by (simp add: leave_def)
    moreover have "net_at P s1 (k # b # ps) (qs1 @ (pq, port, ks') # qs2) R L"
      by (rule net_at_step [OF h(1) taken(3,4)]) (use taken(5,6) qs in simp_all)
    moreover have "fst ` set (qs1 @ (pq, port, ks') # qs2) = fst ` set qs" unfolding qs by simp
    ultimately show ?thesis using net_okI [of P s1 _ _ R L "insert pq W"] assms(5) h(4) by simp
  qed
qed

lemma net_ok_less: "net_ok P s R W \<Longrightarrow> W' \<subseteq> W \<Longrightarrow> net_ok P s R W'"
  unfolding net_ok_def by blast

lemma recv_ok:
  assumes "net_ok P s R W" "recv_call s = Some (pgdir, port, a)" "caller_pages s pgdir T U lp R" "curproc s = Some me"
    "me < length (ptable s)" "find_port_queue port s = Some pq" "sys_recv s = Some (out, s1)" "leave out s1 = Some s'"
  shows "net_ok P s' R (if out = Asleep then insert pq W else W)"
proof (rule net_okE [OF assms(1)])
  fix ps qs L
  assume h: "net_at P s ps qs R L" "quiet s" "net_inv s ps qs (R \<union> L)" "W \<subseteq> fst ` set qs"
  note e = sys_recv_eq [OF h(2,3) assms(2)]
  have pq: "pq = lookup_port port qs"
    using assms(6) find_port_from_chain [OF net_inv_wf(4) [OF h(3)]] by (simp add: find_port_queue_def)
  show ?thesis
  proof (cases "pq = 0")
    case True
    then have "out = Ret (-1)" "s' = s" using e assms(7,8) pq by (auto simp: leave_def)
    then show ?thesis using assms(1) by simp
  next
    case False
    then obtain qs1 ks qs2 where "qs = qs1 @ (pq, port, ks) # qs2"
      using lookup_port_split [OF net_inv_wf(4) [OF h(3)], of port] pq by metis
    then have i: "pq \<in> fst ` set qs" by (simp add: rev_image_eqI)
    have "recv_turn pgdir pq a (lk Netlock s) = Some (out, s1)" using e assms(7) pq False by simp
    from turn_ok [OF h i assms(3-5) this assms(8)] show ?thesis by (auto elim: net_ok_less)
  qed
qed

lemma recv_again_ok:
  assumes "net_ok P s R W" "pq \<in> W" "caller_pages s pgdir T U lp R" "curproc s = Some me" "me < length (ptable s)"
    "k_acquire Ptable_lock s = Some s1" "recv_resume ie pgdir pq a s1 = Some (out, s2)" "leave out s2 = Some s'"
  shows "net_ok P s' R W"
proof (rule net_okE [OF assms(1)])
  fix ps qs L
  assume h: "net_at P s ps qs R L" "quiet s" "net_inv s ps qs (R \<union> L)" "W \<subseteq> fst ` set qs"
  have s1: "s1 = lk Ptable_lock s" using assms(6) h(2) acquire_lk [of s Ptable_lock] by (simp add: quietD)
  define u where "u = upd_proc me (\<lambda>p. p\<lparr>p_chan := Nochan\<rparr>) (s\<lparr>cpu_st := resumed ie (cpu_st s)\<rparr>)"
  note si = sleep_in_eq [OF h(2) _ assms(4), of Netlock ie, folded u_def, simplified]
  have t: "recv_turn pgdir pq a (lk Netlock u) = Some (out, s2)" using assms(7) si(1) by (simp add: recv_resume_def s1)
  have iu: "net_inv u ps qs (R \<union> L)"
    by (rule net_inv_cong [OF h(3)]) (use lockable_quiet [OF si(2)] in \<open>simp_all add: u_def upd_proc_def\<close>)
  have au: "net_at P u ps qs R L"
    by (rule net_at_step [OF h(1) si(2) iu]) (simp_all add: u_def upd_proc_def net_pages_def owned_def tx_pages_def same_rx_def)
  have cu: "caller_pages u pgdir T U lp R" "curproc u = Some me" "me < length (ptable u)"
    using assms(3-5) by (simp_all add: u_def upd_proc_def caller_pages_def)
  have i: "pq \<in> fst ` set qs" using assms(2) h(4) by blast
  from turn_ok [OF au si(2) iu h(4) i cu t assms(8)] show ?thesis by (rule net_ok_less) auto
qed

lemma net_inv_set_reg:
  assumes "net_inv s ps qs R" "r \<notin> {E1000_TDH, E1000_RDH, E1000_RDT}"
  shows "net_inv (set_reg r v s) ps qs R"
proof -
  have "nic_wf (set_reg r v s)" using net_inv_wf(3) [OF assms(1)] assms(2) by (simp add: nic_wf_def set_reg_def)
  moreover have "kmem_wf (set_reg r v s) ps" using net_inv_wf(1) [OF assms(1)] by (simp add: kmem_wf_def kmem_lockable_def set_reg_def)
  ultimately show ?thesis using assms(1) by (simp add: net_inv_def owned_def tx_pages_def set_reg_def)
qed

lemma intr_inv:
  fixes s :: "'z net_scheme"
  assumes "quiet s" "net_inv s ps qs R"
  defines "t \<equiv> set_reg E1000_ICR 0xffffffff s"
  shows "quiet t" "net_inv t ps qs R" "mem t = mem s" "e1000_intr s = e1000_recv t" "seen_arp t = seen_arp s" "dd_count t = dd_count s"
    "rx_window t = rx_window s" "net_pages t ps qs = net_pages s ps qs" "lost_page t s' L = lost_page s s' L"
proof -
  show q: "quiet t" using assms(1) by (simp add: t_def)
  show "e1000_intr s = e1000_recv t" by (simp add: e1000_intr_def t_def)
  show "mem t = mem s" "seen_arp t = seen_arp s" "dd_count t = dd_count s" "net_pages t ps qs = net_pages s ps qs"
    "lost_page t s' L = lost_page s s' L"
    by (simp_all add: t_def) (simp_all add: set_reg_def dd_count_def lost_page_def)
  show "net_inv t ps qs R" unfolding t_def using assms(2) by (rule net_inv_set_reg) (simp add: e1000_regs)
  show "rx_window t = rx_window s" by (rule rx_window_same) (simp add: t_def same_rx_def set_reg_def e1000_regs)
qed

lemma intr_ok:
  assumes "net_ok P s R W" "e1000_intr s = Some s'"
  shows "net_ok P s' R W"
proof (rule net_okE [OF assms(1)])
  fix ps qs L
  assume h: "net_at P s ps qs R L" "quiet s" "net_inv s ps qs (R \<union> L)" "W \<subseteq> fst ` set qs" "rx_window s"
  note t = intr_inv [OF h(2,3)]
  from recv_inv [OF t(1,2)] obtain ps' qs' L2 where r: "quiet s'" "net_inv s' ps' qs' (R \<union> (L \<union> L2))" "map fst qs' = map fst qs"
    "rx_window s'" "net_pages s' ps' qs' \<union> L2 = net_pages s ps qs" "lost_page s s' L2" "L2 \<inter> (R \<union> L) = {}" "seen_arp s \<longrightarrow> seen_arp s'"
    using assms(2) h(5) unfolding t(4,5,7,8,9) by (auto simp: Un_assoc)
  have "L \<inter> R = {}" using h(1) by (simp add: net_at_def)
  then have "net_at P s' ps' qs' R (L \<union> L2)"
    by (intro net_at_move [OF h(1) r(1,2,4,6,8)]) (use r(5,7) in blast)+
  moreover have "fst ` set qs' = fst ` set qs" using arg_cong [OF r(3), of set] by simp
  ultimately show ?thesis using h(4) net_okI by metis
qed

text \<open>The critical sections on their own. A page of others is set apart first.\<close>

lemma own_page:
  assumes "net_at P s ps qs R L" "p \<in> R"
  shows "net_inv s ps qs (insert p (R - {p} \<union> L))" "p \<notin> R - {p} \<union> L"
proof -
  have "p \<notin> L" "net_inv s ps qs (R \<union> L)" using assms by (auto simp: net_at_def)
  moreover have "R \<union> L = insert p (R - {p} \<union> L)" using assms(2) by auto
  ultimately show "net_inv s ps qs (insert p (R - {p} \<union> L))" "p \<notin> R - {p} \<union> L" by auto
qed

lemma transmit_ok:
  assumes "net_ok P s R W" "p \<in> R" "valid_page (kend s) p" "e1000_transmit p len s = Some (r, s')"
  shows "net_ok P s' (if r = 0 then R - {p} else R) W"
proof (rule net_okE [OF assms(1)])
  fix ps qs L
  assume h: "net_at P s ps qs R L" "quiet s" "net_inv s ps qs (R \<union> L)" "W \<subseteq> fst ` set qs" "rx_window s"
  note ow = own_page [OF h(1) assms(2)]
  show ?thesis
  proof (cases rule: transmit_inv [OF h(2) ow(1) assms(3) ow(2), where len = len, case_names full sent])
    case full
    then show ?thesis using assms(1,4) by auto
  next
    case (sent s2 ps')
    have "net_at P s2 ps' qs (R - {p}) (L \<union> {})"
    proof (rule net_at_move [OF h(1) sent(2)])
      show "net_inv s2 ps' qs (R - {p} \<union> (L \<union> {}))" using sent(3) by simp
      show "rx_window s2" using rx_window_same [OF sent(16)] h(5) by simp
      show "net_pages s2 ps' qs \<union> (R - {p} \<union> {}) = net_pages s ps qs \<union> R" using sent(15) assms(2) by auto
      show "L \<inter> (R - {p}) = {}" using h(1) by (auto simp: net_at_def)
    qed (use sent(9) in simp_all)
    then show ?thesis using net_okI h(4) sent(1) assms(4) by simp
  qed
qed

lemma handle_ok:
  assumes "net_ok P s R W" "p \<in> R" "valid_page (kend s) p" "net_rx p len s = Some s'"
  shows "net_ok P s' (R - {p}) W"
proof (rule net_okE [OF assms(1)])
  fix ps qs L
  assume h: "net_at P s ps qs R L" "quiet s" "net_inv s ps qs (R \<union> L)" "W \<subseteq> fst ` set qs" "rx_window s"
  note ow = own_page [OF h(1) assms(2)]
  show ?thesis
  proof (cases rule: net_rx_inv [OF h(2) ow(1) assms(3) ow(2), where len = len, case_names panic ok])
    case panic
    then show ?thesis using assms(4) by simp
  next
    case (ok s2 ps' qs' L2)
    have "net_at P s2 ps' qs' (R - {p}) (L \<union> L2)"
    proof (rule net_at_move [OF h(1) ok(2) _ _ ok(9)])
      show "net_inv s2 ps' qs' (R - {p} \<union> (L \<union> L2))" using ok(3) by (simp add: Un_assoc)
      show "rx_window s2" using rx_window_same [OF ok(4)] h(5) by simp
      show "net_pages s2 ps' qs' \<union> (R - {p} \<union> L2) = net_pages s ps qs \<union> R" using ok(8) assms(2) by auto
      show "L \<inter> (R - {p}) = {}" using h(1) by (auto simp: net_at_def)
      show "seen_arp s \<longrightarrow> seen_arp s2" using ok(4) by (simp add: same_rx_def)
    qed (use ok(10) in auto)
    moreover have "fst ` set qs' = fst ` set qs" using arg_cong [OF ok(7), of set] by simp
    ultimately show ?thesis using net_okI [of P s2 ps' qs' "R - {p}" "L \<union> L2" W] h(4) ok(1) assms(4) by simp
  qed
qed

lemma take_ok:
  assumes "net_ok P s R W" "e1000_recv_take s = Some (more_work, dst, len, s')"
  shows "net_ok P s' (if dst = 0 then R else insert dst R) W"
proof (rule net_okE [OF assms(1)])
  fix ps qs L
  assume h: "net_at P s ps qs R L" "quiet s" "net_inv s ps qs (R \<union> L)" "W \<subseteq> fst ` set qs" "rx_window s"
  note wf = net_inv_wf(3) [OF h(3)]
  have lr: "L \<inter> R = {}" using h(1) by (simp add: net_at_def)
  show ?thesis
  proof (cases "rx_ready s")
    case False
    then show ?thesis using recv_take_idle [OF h(2)] assms by simp
  next
    case rdy: True
    show ?thesis
    proof (cases rule: recv_take_inv [OF h(2,3) rdy, case_names none copied])
      case none
      have "net_at P (rx_return s) ps qs R (L \<union> {})"
        by (rule net_at_move [OF h(1)]) (use none(2) h(2) lr rx_window_return [OF wf h(5) rdy] in simp_all)
      then show ?thesis using net_okI h(4) none(1) assms(2) by simp
    next
      case (copied p ps1 v)
      have "p \<notin> L" using copied(11) by simp
      then have "net_at P v ps1 qs (insert p R) (L \<union> {})"
        by (intro net_at_move [OF h(1) copied(4)])
          (use copied lr rx_window_same [OF copied(6)] rx_window_return [OF wf h(5) rdy] in simp_all)
      then show ?thesis using net_okI h(4) copied(1,12) assms(2) by simp
    qed
  qed
qed

lemma dequeue_ok:
  assumes "net_ok P s R W" "recv_dequeue port s = Some (k, s')"
  shows "net_ok P s' (insert k (insert (ld64 (mem s) (pkt_fullbuf k)) R)) W"
proof (rule net_okE [OF assms(1)])
  fix ps qs L
  assume h: "net_at P s ps qs R L" "quiet s" "net_inv s ps qs (R \<union> L)" "W \<subseteq> fst ` set qs" "rx_window s"
  note ch = net_inv_wf(4) [OF h(3)]
  define pq where "pq = lookup_port port qs"
  have acq: "k_acquire Netlock s = Some (lk Netlock s)" using h(2) by (intro acquire_lk) (simp add: quietD)
  have fnd: "find_port_queue port (lk Netlock s) = Some pq"
    using find_port_from_chain [OF ch] by (simp add: find_port_queue_def pq_def)
  have nz: "pq \<noteq> 0" "ld32 (mem s) (pq_count pq) \<noteq> 0" using assms(2) acq fnd by (auto simp: recv_dequeue_def split: if_splits)
  obtain qs1 ks qs2 where qs: "qs = qs1 @ (pq, port, ks) # qs2" 
    using nz(1) unfolding pq_def by (rule lookup_port_split [OF ch])
  have "ks \<noteq> []" using nz(2) port_chain_split(1) [OF ch, of pq port ks] qs by (auto simp: is_queue_def)
  then obtain k' b ks' where ks: "ks = (k', b) # ks'" by (cases ks) auto
  obtain m where m: "pop_pkt (mem s) pq = (k', m)"
    "net_inv (s\<lparr>mem := m\<rparr>) ps (qs1 @ (pq, port, ks') # qs2) (insert b (insert k' (R \<union> L)))" "k' \<notin> R \<union> L" "b \<notin> R \<union> L"
    by (rule dequeue_inv [OF h(3) [unfolded qs ks]]) (rule that; assumption)
  have qm: "quiet (s\<lparr>mem := m\<rparr>)" using h(2) by simp
  have s': "k = k'" "s' = s\<lparr>mem := m\<rparr>" using assms(2) acq fnd nz m(1) release_netlock [OF qm] by (auto simp: recv_dequeue_def)
  have b: "ld64 (mem s) (pkt_fullbuf k') = b"
    using port_chain_split(1) [OF ch, of pq port ks] qs ks by (auto simp: is_queue_def pkt_fields_def)
  have "net_at P (s\<lparr>mem := m\<rparr>) ps (qs1 @ (pq, port, ks') # qs2) (insert k' (insert b R)) (L \<union> {})"
  proof (rule net_at_move [OF h(1) qm])
    have "insert k' (insert b R) \<union> (L \<union> {}) = insert b (insert k' (R \<union> L))" by auto
    then show "net_inv (s\<lparr>mem := m\<rparr>) ps (qs1 @ (pq, port, ks') # qs2) (insert k' (insert b R) \<union> (L \<union> {}))" using m(2) by simp
    show "rx_window (s\<lparr>mem := m\<rparr>)" using h(5) rx_window_same [of s "s\<lparr>mem := m\<rparr>"] by simp
    show "net_pages (s\<lparr>mem := m\<rparr>) ps (qs1 @ (pq, port, ks') # qs2) \<union> (insert k' (insert b R) \<union> {}) = net_pages s ps qs \<union> R"
      unfolding qs ks pop_pages by auto
    show "L \<inter> insert k' (insert b R) = {}" using h(1) m(3,4) by (auto simp: net_at_def)
  qed simp_all
  then show ?thesis unfolding s' b by (rule net_okI) (use h(4) qs in auto)
qed

lemma others_ok:
  assumes "net_ok P s R W"
  shows "\<forall>x. m x \<noteq> mem s x \<longrightarrow> (\<exists>p \<in> R. unat (x - p) < 4096) \<Longrightarrow> net_ok P (s\<lparr>mem := m\<rparr>) R W"
    "kalloc s = Some (p, s') \<Longrightarrow> p \<noteq> 0 \<Longrightarrow> net_ok P s' (insert p R) W"
    "p \<in> R \<Longrightarrow> kfree p s = Some s' \<Longrightarrow> net_ok P s' (R - {p}) W"
    "net_ok P (s\<lparr>ptable := pt, curproc := c\<rparr>) R W"
proof -
  obtain ps qs L where h: "net_at P s ps qs R L" "quiet s" "net_inv s ps qs (R \<union> L)" "W \<subseteq> fst ` set qs" "rx_window s"
    using assms by (rule net_okE)
  note pg = net_inv_pages [OF h(3)]
  have lr: "L \<inter> R = {}" using h(1) by (simp add: net_at_def)
  have alR: "aligned_set R" using h(3) by (simp add: net_inv_def aligned_set_def)
  show "net_ok P (s\<lparr>mem := m\<rparr>) R W" if w: "\<forall>x. m x \<noteq> mem s x \<longrightarrow> (\<exists>p \<in> R. unat (x - p) < 4096)"
  proof -
    have "m x = mem s x" if q: "q \<in> set ps \<union> set (pages_of qs)" "unat (x - q) < 4096" for q x
    proof (rule ccontr)
      assume "m x \<noteq> mem s x"
      then obtain p where p: "p \<in> R" "unat (x - p) < 4096" using w by blast
      have "page_aligned p" "page_aligned q" "p \<noteq> q" using p(1) q(1) alR pg(1,2,4,5) by (auto simp: aligned_set_def)
      then show False using page_disjoint [of p q x] p(2) q(2) by simp
    qed
    then have "agree (mem s) m (set ps \<union> set (pages_of qs))" by (auto simp: agree_def)
    note i = net_inv_mem(1) [OF h(3) this]
    have "quiet (s\<lparr>mem := m\<rparr>)" using h(2) by simp
    then show ?thesis using net_okI [OF net_at_step [OF h(1) _ i] h(4)] by simp
  qed
  show "net_ok P s' (insert p R) W" if k: "kalloc s = Some (p, s')" "p \<noteq> 0"
  proof (cases ps)
    case Nil
    show ?thesis using k net_inv_empty(2) [OF h(3) [unfolded Nil]] by simp
  next
    case (Cons q ps')
    note ka = net_inv_kalloc [OF h(3) [unfolded Cons]]
    then have s': "s' = s\<lparr>freelist := ld64 (mem s) q\<rparr>" "p = q" using k by simp_all
    have "net_at P s' ps' qs (insert p R) (L \<union> {})"
    proof (rule net_at_move [OF h(1)])
      show "rx_window s'" using h(5) rx_window_same [of s s'] by (simp add: s')
    qed (use ka(2,4) h(2) lr Cons in \<open>simp_all add: s'\<close>)
    then show ?thesis using net_okI h(4) by blast
  qed
  show "net_ok P s' (R - {p}) W" if k: "p \<in> R" "kfree p s = Some s'"
  proof -
    have v: "valid_page (kend s) p" using kfree_invalid k(2) by force
    note ow = own_page [OF h(1) k(1)]
    note kf = net_inv_kfree [OF ow(1) v ow(2)]
    have s': "s' = push_page p s" using kf(1) k(2) by simp
    have "net_at P s' (p # ps) qs (R - {p}) (L \<union> {})"
    proof (rule net_at_move [OF h(1)])
      show "rx_window s'" using h(5) rx_window_same [of s s'] by (simp add: s')
      show "net_pages s' (p # ps) qs \<union> (R - {p} \<union> {}) = net_pages s ps qs \<union> R" using k(1) by (auto simp: s')
      show "seen_arp s \<longrightarrow> seen_arp s'" by (simp add: s' push_page_def)
    qed (use kf(2) h(2) lr in \<open>auto simp: s'\<close>)
    then show ?thesis using net_okI h(4) by blast
  qed
  let ?t = "s\<lparr>ptable := pt, curproc := c\<rparr>"
  have q: "quiet ?t" using h(2) by (simp add: quiet_def)
  have "net_inv ?t ps qs (R \<union> L)"
    by (rule net_inv_cong [OF h(3)]) (use lockable_quiet [OF q] in simp_all)
  then have "net_at P ?t ps qs R L"
    by (rule net_at_step [OF h(1) q]) (simp_all add: net_pages_def owned_def tx_pages_def same_rx_def)
  then show "net_ok P ?t R W" using h(4) net_okI by blast
qed

lemma boot_ok:
  assumes "quiet s" "kmem_wf s ps" "RX_RING_SIZE \<le> length ps" "length (rx_bufs s) = RX_RING_SIZE" "port_list s = 0"
    "aligned_set R" "set ps \<inter> R = {}" "P = set ps \<union> R" "e1000_init xregs s = Some s'"
  shows "net_ok P s' R {}"
proof -
  define bs ps' where "bs = take RX_RING_SIZE ps" and "ps' = drop RX_RING_SIZE ps"
  have ps: "ps = bs @ ps'" by (simp add: bs_def ps'_def)
  have l: "length bs = RX_RING_SIZE" using assms(3) by (simp add: bs_def)
  obtain s2 where s2: "e1000_init xregs s = Some s2" "quiet s2" "net_inv s2 ps' [] R" "rx_window s2" "net_pages s2 ps' [] = set ps"
    by (rule init_inv [OF assms(1) assms(2) [unfolded ps] l assms(4-6) assms(7) [unfolded ps], of xregs]) (rule that, simp_all add: ps)
  then have "net_at P s' ps' [] R {}" using assms(8,9) by (simp add: net_at_def)
  then show ?thesis by (rule net_okI) simp
qed

lemma net_run_ok:
  assumes "net_run P s R W ls" "list_all send_len_ok ls"
  shows "net_ok P s R W"
  using assms
proof (induction rule: net_run.induct)
  case (card s R W ls s')
  then obtain ps qs L where h: "net_at P s ps qs R L" "quiet s" "net_inv s ps qs (R \<union> L)" "W \<subseteq> fst ` set qs" "rx_window s"
    by (auto elim: net_okE)
  note n = nic_step_inv [OF card(2) h(2,3)]
  have "net_at P s' ps qs R L" using h(1) n(1,2,4) n(5) [OF h(5)] n(6) by (simp add: net_at_def)
  then show ?case using h(4) by (rule net_okI)
next
  case (send s R W ls pgdir a T U lp r s')
  then show ?case using send_ok by auto
qed (blast intro: boot_ok bind_ok recv_ok recv_again_ok intr_ok transmit_ok dequeue_ok take_ok handle_ok others_ok)+

end
