(* ===== verification/NetProps.thy ===== *)
theory NetProps
  imports NetRun
begin

text \<open>
  The properties of the network code, each with a sample state at which its hypotheses hold.
\<close>

section \<open>Sample states\<close>

text \<open>
  A machine with one process: pages 0 to 3 of the sample hold its page tables, page 4 is its frame at
  address 4096, page 5 holds its trap frame and page 6 the locals of \<open>sys_recv\<close>; page 7 is filled
  with the byte 7. Pages 10 to 79 are free when the driver is initialised.
\<close>

definition sample_proc :: proc where
  "sample_proc = unused_proc\<lparr>p_state := RUNNING, p_pid := 1, p_pgdir := sample_page 0, p_tf := sample_page 5\<rparr>"

definition sample_args :: "u64 \<Rightarrow> u64 \<Rightarrow> u64 \<Rightarrow> u64 \<Rightarrow> u64 \<Rightarrow> memory \<Rightarrow> memory" where
  "sample_args a0 a1 a2 a3 a4 m =
     (let tf = sample_page 5 in
      st64 (st64 (st64 (st64 (st64 m (tf + tf_rdi) a0) (tf + tf_rsi) a1) (tf + tf_rdx) a2) (tf + tf_r10) a3) (tf + tf_r8) a4)"

definition sample_mem :: memory where
  "sample_mem = install_pt (mfill (\<lambda>_. 0) (sample_page 7) 7 4096)"

definition sample_pool :: "nat \<Rightarrow> nat \<Rightarrow> addr list" where
  "sample_pool i j = map sample_page [i..<j]"

definition sample_boot :: "memory \<Rightarrow> net" where
  "sample_boot m = fill_pool (sample_pool 10 80) ((sample_net [sample_proc] (Some 0))\<lparr>mem := m, recv_locals := sample_page 6\<rparr>)"

definition sample_own :: "addr set" where
  "sample_own = sample_page ` {0..<10}"

definition sample_all :: "addr set" where
  "sample_all = set (sample_pool 10 80) \<union> sample_own"

lemma sample_page_props [simp]:
  assumes "i < 1000"
  shows "page_aligned (sample_page i)" "unat (sample_page i) < 2 ^ 64 - 8192" "sample_page i \<noteq> 0"
proof -
  have k: "KERNBASE \<le> KERNBASE + (0x200000 :: u64)" by (simp add: KERNBASE_def)
  show "page_aligned (sample_page i)" "unat (sample_page i) < 2 ^ 64 - 8192" "sample_page i \<noteq> 0"
    using valid_page_bound [OF k sample_page_valid [OF assms]] by simp_all
qed

lemma sample_pool_props:
  assumes "j \<le> 1000"
  shows "list_all (valid_page (KERNBASE + 0x200000)) (sample_pool i j)" "distinct (sample_pool i j)"
    "set (sample_pool i j) = sample_page ` {i..<j}" "length (sample_pool i j) = j - i"
proof -
  have "set [i..<j] \<subseteq> {..<1000}" using assms by auto
  from sample_pages [OF this] show "list_all (valid_page (KERNBASE + 0x200000)) (sample_pool i j)" "distinct (sample_pool i j)"
    by (simp_all add: sample_pool_def)
qed (simp_all add: sample_pool_def)

lemma sample_pool_append: "i \<le> k \<Longrightarrow> k \<le> j \<Longrightarrow> sample_pool i j = sample_pool i k @ sample_pool k j"
  using upt_add_eq_append [of i k "j - k"] by (simp add: sample_pool_def)

lemma sample_pool_Cons: "i < j \<Longrightarrow> sample_pool i j = sample_page i # sample_pool (Suc i) j"
  by (simp add: sample_pool_def upt_conv_Cons)

lemma sample_own_aligned [simp]: "aligned_set (sample_page ` I)" if "\<forall>i \<in> I. i < 1000"
  using that by (auto simp: aligned_set_def)

lemma sample_own_iff: "i < 1000 \<Longrightarrow> sample_page i \<in> sample_own \<longleftrightarrow> i < 10"
  by (auto simp: sample_own_def sample_page_eq_iff)

lemma fill_pool_fields [simp]:
  "locks (fill_pool ps s) = locks s" "cpu_st (fill_pool ps s) = cpu_st s" "ptable (fill_pool ps s) = ptable s"
  "curproc (fill_pool ps s) = curproc s" "recv_locals (fill_pool ps s) = recv_locals s" "port_list (fill_pool ps s) = port_list s"
  "rx_bufs (fill_pool ps s) = rx_bufs s" "seen_arp (fill_pool ps s) = seen_arp s"
  for s :: "'z net_scheme"
  by (induction ps) (simp_all add: fill_pool_def push_page_def)

text \<open>The state after initialisation.\<close>

lemma sample_boot_inv:
  obtains s where "e1000_init 0 (sample_boot m) = Some s" "quiet s" "net_inv s (sample_pool 26 80) [] sample_own"
    "net_run sample_all s sample_own {} []" "port_list s = 0"
    "agree m (mem s) sample_own" "kend s = KERNBASE + 0x200000" "curproc s = Some 0" "ptable s = [sample_proc]"
    "recv_locals s = sample_page 6" "regs s E1000_RDT = 15" "regs s E1000_RDH = 0" "regs s E1000_TDT = 0" "\<not> seen_arp s"
    "tx_ring s = replicate TX_RING_SIZE (zero_tx_desc\<lparr>tx_status := E1000_TXD_STAT_DD, tx_addr := 0\<rparr>)" "ncli (cpu_st s) = 0" "rx_window s"
proof -
  let ?s = "(sample_net [sample_proc] (Some 0))\<lparr>mem := m, recv_locals := sample_page 6\<rparr>"
  note defs = sample_net_def sample_e1000_def sample_pstate_def net.defs e1000.defs pstate.defs
  have q: "quiet (sample_boot m)" by (simp add: sample_boot_def quiet_def settled_def defs)
  have w0: "kmem_wf ?s []" by (simp add: defs kmem_wf_def kmem_lockable_def settled_def layout)
  have ke: "kend ?s = KERNBASE + 0x200000" by (simp add: defs)
  note pl = sample_pool_props [of 80 10]
  have w: "kmem_wf (sample_boot m) (sample_pool 10 80)"
    unfolding sample_boot_def by (rule fill_pool_wf) (use w0 pl ke in simp_all)
  have sp: "sample_pool 10 80 = sample_pool 10 26 @ sample_pool 26 80" by (rule sample_pool_append) simp_all
  have dis: "set (sample_pool 10 80) \<inter> sample_own = {}" using pl(3) by (auto simp: sample_own_def sample_page_eq_iff)
  have al: "aligned_set sample_own" by (simp add: sample_own_def)
  have sb: "length (rx_bufs (sample_boot m)) = RX_RING_SIZE" "port_list (sample_boot m) = 0" "curproc (sample_boot m) = Some 0"
    "ptable (sample_boot m) = [sample_proc]" "recv_locals (sample_boot m) = sample_page 6" "\<not> seen_arp (sample_boot m)"
    "kend (sample_boot m) = KERNBASE + 0x200000" "ncli (cpu_st (sample_boot m)) = 0"
    by (simp_all add: sample_boot_def defs RX_RING_SIZE_def)
  have ag: "agree m (mem (sample_boot m)) sample_own"
    using fill_pool_agree [of sample_own "sample_pool 10 80" ?s] al dis pl(3)
    by (simp add: sample_boot_def)
  have lb: "length (sample_pool 10 26) = RX_RING_SIZE" using sample_pool_props(4) [of 26 10] by (simp add: RX_RING_SIZE_def)
  obtain s where s: "e1000_init 0 (sample_boot m) = Some s" "quiet s" "net_inv s (sample_pool 26 80) [] sample_own"
    "port_list s = 0" "seen_arp s = seen_arp (sample_boot m)" "mem s = mem (sample_boot m)" "kend s = kend (sample_boot m)"
    "curproc s = curproc (sample_boot m)" "ptable s = ptable (sample_boot m)"
    "recv_locals s = recv_locals (sample_boot m)" "regs s E1000_RDT = 15" "regs s E1000_RDH = 0" "regs s E1000_TDT = 0"
    "tx_ring s = replicate TX_RING_SIZE (zero_tx_desc\<lparr>tx_status := E1000_TXD_STAT_DD, tx_addr := 0\<rparr>)"
    "cpu_st s = cpu_st (sample_boot m)" "rx_window s"
    by (rule init_inv [OF q w [unfolded sp] lb sb(1,2) al dis [unfolded sp], of 0]) (rule that)
  have "net_run sample_all s sample_own {} []"
    by (rule net_run.boot [OF q w _ sb(1,2) al dis sample_all_def s(1)]) (use pl(4) in \<open>simp add: RX_RING_SIZE_def\<close>)
  then show thesis using that [OF s(1-3)] s sb ag by simp
qed

definition booted :: "memory \<Rightarrow> net" where
  "booted m = the (e1000_init 0 (sample_boot m))"

lemma booted:
  "quiet (booted m)" "net_inv (booted m) (sample_pool 26 80) [] sample_own" "net_run sample_all (booted m) sample_own {} []"
  "agree m (mem (booted m)) sample_own" "kend (booted m) = KERNBASE + 0x200000" "curproc (booted m) = Some 0"
  "ptable (booted m) = [sample_proc]" "recv_locals (booted m) = sample_page 6" "regs (booted m) E1000_RDT = 15"
  "regs (booted m) E1000_RDH = 0" "regs (booted m) E1000_TDT = 0" "\<not> seen_arp (booted m)" "port_list (booted m) = 0"
  "tx_ring (booted m) = replicate TX_RING_SIZE (zero_tx_desc\<lparr>tx_status := E1000_TXD_STAT_DD, tx_addr := 0\<rparr>)"
  "ncli (cpu_st (booted m)) = 0" "rx_window (booted m)"
  by (rule sample_boot_inv [of m]; simp add: booted_def)+

lemma ld64_entry_st64:
  assumes "page_aligned t" "page_aligned t'" "i < 512" "i' < 512"
  shows "ld64 (st64 m (entry t' i') v) (entry t i) = (if t = t' \<and> i = i' then v else ld64 m (entry t i))"
proof (cases "t = t' \<and> i = i'")
  case False
  have "entry t i \<noteq> entry t' i'"
  proof (cases "t = t'")
    case True
    then have "i \<noteq> i'" using False by simp
    moreover have "unat (8 * i) = 8 * unat i" "unat (8 * i') = 8 * unat i'"
      using assms(3,4) by (simp_all add: word_less_nat_alt unat_word_ariths)
    ultimately have "8 * i \<noteq> 8 * i'" by (metis mult_cancel1 word_unat_eq_iff zero_neq_numeral)
    then show ?thesis using True by (simp add: entry_def)
  qed (use entry_neq [OF assms(1,2) _ assms(3,4)] in simp)
  then have "apart (entry t i) 8 (entry t' i') 8" using assms by (intro apart8 aligned8_entry)
  then show ?thesis using False by (auto simp: mem_simps)
qed (simp add: mem_simps)

text \<open>The address space of the sample process.\<close>

lemma sample_tables:
  assumes "\<And>k i. k < 4 \<Longrightarrow> i < 512 \<Longrightarrow> ld64 m (entry (sample_page k) i) = 0"
  shows "aspace (install_pt m) (sample_page 0) (sample_page ` {0, 1, 2, 3}) {sample_page 4}"
    "PTX va \<noteq> 1 \<Longrightarrow> upage (install_pt m) (sample_page 0) va = 0"
proof -
  let ?m = "install_pt m"
  have ld: "ld64 ?m (entry (sample_page 0) i) = (if i = 0 then V2P (sample_page 1) OR 7 else 0)"
    "ld64 ?m (entry (sample_page 1) i) = (if i = 0 then V2P (sample_page 2) OR 7 else 0)"
    "ld64 ?m (entry (sample_page 2) i) = (if i = 0 then V2P (sample_page 3) OR 7 else 0)"
    "ld64 ?m (entry (sample_page 3) i) = (if i = 1 then V2P (sample_page 4) OR 7 else 0)" if "i < 512" for i
    using that assms [of 0 i] assms [of 1 i] assms [of 2 i] assms [of 3 i]
    by (simp_all add: install_pt_def ld64_entry_st64 sample_page_eq_iff)
  have h: "P2V (PTE_ADDR (V2P (sample_page 1) OR 7)) = sample_page 1" "P2V (PTE_ADDR (V2P (sample_page 2) OR 7)) = sample_page 2"
    "P2V (PTE_ADDR (V2P (sample_page 3) OR 7)) = sample_page 3" "P2V (PTE_ADDR (V2P (sample_page 4) OR 7)) = sample_page 4"
    "has (V2P (sample_page 1) OR 7) PTE_P" "has (V2P (sample_page 2) OR 7) PTE_P" "has (V2P (sample_page 3) OR 7) PTE_P"
    by (simp_all add: has_def PTE_ADDR_def PTE_P_def V2P_def P2V_def sample_page_def layout)
  have st0: "pt_step ?m (sample_page 0) i = (if i = 0 then Some (sample_page 1) else None)"
    "pt_step ?m (sample_page 1) i = (if i = 0 then Some (sample_page 2) else None)"
    "pt_step ?m (sample_page 2) i = (if i = 0 then Some (sample_page 3) else None)" if "i < 512" for i
    using h ld [OF that] by (simp_all add: pt_step_def has_def)
  have "va_tables ?m (sample_page 0) va \<subseteq> sample_page ` {0, 1, 2, 3}" for va
    using pt_index_bound [of va] by (auto simp: va_tables_def pt_path_def st0 simp del: One_nat_def split: if_splits)
  moreover have fr: "upage ?m (sample_page 0) va \<in> {0, sample_page 4} \<and> (PTX va \<noteq> 1 \<longrightarrow> upage ?m (sample_page 0) va = 0)" for va
  proof (cases "mapped ?m (sample_page 0) va")
    case None
    then show ?thesis by (simp add: upage_def)
  next
    case (Some e)
    then have "e = ld64 ?m (entry (sample_page 3) (PTX va))" "has e PTE_P"
      using pt_index_bound [of va] by (auto simp: mapped_def pte_of_def pt_path_def st0 Let_def simp del: One_nat_def split: if_splits)
    then have "e = V2P (sample_page 4) OR 7" "PTX va = 1"
      using ld(4) [of "PTX va"] pt_index_bound [of va] by (auto simp: has_def split: if_splits)
    then show ?thesis using Some h by (simp add: upage_def)
  qed
  ultimately show "aspace ?m (sample_page 0) (sample_page ` {0, 1, 2, 3}) {sample_page 4}"
    by (auto simp: aspace_def sample_page_eq_iff aligned_set_def)
  show "upage ?m (sample_page 0) va = 0" if "PTX va \<noteq> 1" using fr that by blast
qed

text \<open>Reading the arguments of a system call from the trap frame.\<close>

lemma agree_sample_args: "aligned_set P \<Longrightarrow> sample_page 5 \<notin> P \<Longrightarrow> agree m (sample_args a0 a1 a2 a3 a4 m) P"
  unfolding sample_args_def Let_def
  by (intro agree_writes [of "sample_page 5"]) (simp_all add: tf_rdi_def tf_rsi_def tf_rdx_def tf_r10_def tf_r8_def)

lemma sample_args_read:
  assumes "agree (sample_args a0 a1 a2 a3 a4 m) (mem s) {sample_page 5}" "curproc s = Some 0" "ptable s = [sample_proc]"
  shows "argint 0 s = Some (ucast a0)" "argint 1 s = Some (ucast a1)" "argint 2 s = Some (ucast a2)" "argint 4 s = Some (ucast a4)"
    "argaddr 1 s = Some a1" "argaddr 2 s = Some a2" "argaddr 3 s = Some a3"
proof -
  let ?m = "sample_args a0 a1 a2 a3 a4 m" and ?tf = "sample_page 5"
  note tf = tf_rdi_def tf_rsi_def tf_rdx_def tf_r10_def tf_r8_def
  have "ld64 ?m (?tf + tf_rdi) = a0" "ld64 ?m (?tf + tf_rsi) = a1" "ld64 ?m (?tf + tf_rdx) = a2" "ld64 ?m (?tf + tf_r10) = a3"
    "ld64 ?m (?tf + tf_r8) = a4" by (simp_all add: sample_args_def Let_def tf mem_simps apart_fields)
  moreover have "ld64 (mem s) (?tf + x) = ld64 ?m (?tf + x)" if "unat x + 8 \<le> 4096" for x
    using agree_ld64 [OF assms(1), of ?tf "?tf + x"] that by simp
  ultimately have "ld64 (mem s) (?tf + tf_rdi) = a0" "ld64 (mem s) (?tf + tf_rsi) = a1" "ld64 (mem s) (?tf + tf_rdx) = a2"
    "ld64 (mem s) (?tf + tf_r10) = a3" "ld64 (mem s) (?tf + tf_r8) = a4" by (simp_all add: tf)
  then show "argint 0 s = Some (ucast a0)" "argint 1 s = Some (ucast a1)" "argint 2 s = Some (ucast a2)" "argint 4 s = Some (ucast a4)"
    "argaddr 1 s = Some a1" "argaddr 2 s = Some a2" "argaddr 3 s = Some a3"
    using assms(2,3) by (simp_all add: argint_def argaddr_def cur_tf_def fetcharg_def sample_proc_def)
qed

lemma sample_mem_tables: "k < 4 \<Longrightarrow> i < 512 \<Longrightarrow> ld64 (mfill (\<lambda>_. 0) (sample_page 7) 7 4096) (entry (sample_page k) i) = 0"
proof -
  assume k: "k < 4" and i: "i < 512"
  have "agree (\<lambda>_. 0) (mfill (\<lambda>_. 0) (sample_page 7) 7 4096) {sample_page k}"
    using k by (intro agree_mfill [of "sample_page 7"]) (auto simp: aligned_set_def sample_page_eq_iff)
  from agree_ld64 [OF this _ within_entry [OF i]] have
    "ld64 (mfill (\<lambda>_. 0) (sample_page 7) 7 4096) (entry (sample_page k) i) = ld64 (\<lambda>_. 0) (entry (sample_page k) i)" by simp
  then show ?thesis by (simp add: ld64_def mread_def upt_rec)
qed

lemma sample_mem_aspace: "aspace sample_mem (sample_page 0) (sample_page ` {0, 1, 2, 3}) {sample_page 4}"
  unfolding sample_mem_def by (rule sample_tables [OF sample_mem_tables])

text \<open>The sample process in a state whose memory still holds its pages.\<close>

definition sample_caller :: "u64 list \<Rightarrow> net \<Rightarrow> bool" where
  "sample_caller a s \<longleftrightarrow> agree (sample_args (a ! 0) (a ! 1) (a ! 2) (a ! 3) (a ! 4) sample_mem) (mem s) (sample_page ` {0..<7}) \<and>
     curproc s = Some 0 \<and> ptable s = [sample_proc] \<and> recv_locals s = sample_page 6"

lemma sample_tables_kept:
  assumes "sample_caller a s"
  shows "agree sample_mem (mem s) (sample_page ` {0, 1, 2, 3})"
proof -
  let ?m = "sample_args (a ! 0) (a ! 1) (a ! 2) (a ! 3) (a ! 4) sample_mem"
  have "agree sample_mem ?m (sample_page ` {0, 1, 2, 3})"
    by (rule agree_sample_args) (auto simp: sample_page_eq_iff aligned_set_def)
  moreover have "agree ?m (mem s) (sample_page ` {0, 1, 2, 3})"
    by (rule agree_mono [OF conjunct1 [OF assms [unfolded sample_caller_def]]]) (rule image_mono, simp)
  ultimately show ?thesis by (rule agree_trans)
qed

lemma sample_aspace: "sample_caller a s \<Longrightarrow> aspace (mem s) (sample_page 0) (sample_page ` {0, 1, 2, 3}) {sample_page 4}"
  using aspace_agree(1) [OF sample_mem_aspace sample_tables_kept] .

lemma sample_caller_pages:
  assumes "sample_caller a s" "sample_page ` {0..<7} \<subseteq> R"
  shows "caller_pages s (sample_page 0) (sample_page ` {0, 1, 2, 3}) {sample_page 4} (sample_page 6) R"
proof -
  have "sample_page i \<in> R" if "i < 7" for i using assms(2) that by auto
  moreover have "unat (sample_page 6) < 2 ^ 64 - 8192" by (rule sample_page_props) simp
  ultimately show ?thesis using sample_aspace [OF assms(1)] assms(1)
    by (simp add: caller_pages_def sample_caller_def sample_page_eq_iff within_def)
qed

lemma sample_user_frame:
  assumes "sample_caller a s" "va AND - 4096 = 4096"
  shows "upage (mem s) (sample_page 0) va = sample_page 4"
  using sample_upage(1) [OF assms(2), of "mfill (\<lambda>_. 0) (sample_page 7) 7 4096"]
    aspace_agree(2) [OF sample_mem_aspace sample_tables_kept [OF assms(1)]]
  by (simp add: sample_mem_def)

lemma sample_unmapped: "sample_caller a s \<Longrightarrow> PTX va \<noteq> 1 \<Longrightarrow> upage (mem s) (sample_page 0) va = 0"
  using sample_tables(2) [OF sample_mem_tables, of va] aspace_agree(2) [OF sample_mem_aspace sample_tables_kept]
  by (simp add: sample_mem_def)

lemma sample_range:
  assumes "sample_caller a s" "\<And>i. i < n \<Longrightarrow> (va + of_nat i) AND - 4096 = 4096" "unat va + n < 2 ^ 64"
  shows "user_range (mem s) (sample_page 0) va n" "uframes (mem s) (sample_page 0) va n \<subseteq> {sample_page 4}"
proof -
  show u: "uframes (mem s) (sample_page 0) va n \<subseteq> {sample_page 4}"
    using sample_user_frame [OF assms(1)] assms(2) by (auto simp: uframes_def)
  show "user_range (mem s) (sample_page 0) va n"
    using u assms(2,3) by (auto simp: user_range_def PGROUNDDOWN_def PGSIZE_def)
qed

lemma sample_ranges:
  assumes "sample_caller a s"
  shows "user_range (mem s) (sample_page 0) 4100 4" "user_range (mem s) (sample_page 0) 4104 2" "user_range (mem s) (sample_page 0) 4108 2"
    "uframes (mem s) (sample_page 0) 4108 2 \<subseteq> {sample_page 4}"
proof -
  have i: "(4100 + of_nat i :: u64) AND - 4096 = 4096" "(4104 + of_nat i :: u64) AND - 4096 = 4096"
    "(4108 + of_nat i :: u64) AND - 4096 = 4096" if "i < 4" for i
  proof -
    have "i = 0 \<or> i = 1 \<or> i = 2 \<or> i = 3" using that by linarith
    then show "(4100 + of_nat i :: u64) AND - 4096 = 4096" "(4104 + of_nat i :: u64) AND - 4096 = 4096"
      "(4108 + of_nat i :: u64) AND - 4096 = 4096" by (elim disjE; simp)+
  qed
  show "user_range (mem s) (sample_page 0) 4100 4" "user_range (mem s) (sample_page 0) 4104 2"
    "user_range (mem s) (sample_page 0) 4108 2" "uframes (mem s) (sample_page 0) 4108 2 \<subseteq> {sample_page 4}"
    using i by (intro sample_range [OF assms]; simp)+
qed

lemma sample_call:
  assumes "sample_caller [a0, a1, a2, a3, a4] s"
  shows "recv_call s = Some (sample_page 0, ucast (ucast a0 :: u32), \<lparr>ra_src = a1, ra_sport = a2, ra_buf = a3, ra_maxlen = ucast a4\<rparr>)"
    "send_call s = Some (sample_page 0, \<lparr>sa_sport = ucast a0, sa_dst = ucast a1, sa_dport = ucast a2, sa_buf = a3, sa_len = ucast a4\<rparr>)"
    "argint 0 s = Some (ucast a0)"
proof -
  have s: "agree (sample_args a0 a1 a2 a3 a4 sample_mem) (mem s) (sample_page ` {0..<7})" "curproc s = Some 0" "ptable s = [sample_proc]"
    using assms by (simp_all add: sample_caller_def)
  note a = sample_args_read [OF agree_mono [OF s(1), of "{sample_page 5}"] s(2,3)]
  note s(2,3)
  then show "recv_call s = Some (sample_page 0, ucast (ucast a0 :: u32), \<lparr>ra_src = a1, ra_sport = a2, ra_buf = a3, ra_maxlen = ucast a4\<rparr>)"
    "send_call s = Some (sample_page 0, \<lparr>sa_sport = ucast a0, sa_dst = ucast a1, sa_dport = ucast a2, sa_buf = a3, sa_len = ucast a4\<rparr>)"
    "argint 0 s = Some (ucast a0)"
    using a by (simp_all add: recv_call_def send_call_def sample_proc_def)
qed

section \<open>Every page has one owner\<close>

text \<open>A run in which the sample process sends two bytes.\<close>

lemma sample_sends:
  obtains s :: net where "net_run sample_all s sample_own {} [2]"
proof -
  let ?m = "sample_args 5 9 7 4108 2 sample_mem"
  let ?s = "booted ?m" and ?a = "\<lparr>sa_sport = 5, sa_dst = 9, sa_dport = 7, sa_buf = 4108, sa_len = 2\<rparr>"
  have "agree ?m (mem ?s) (sample_page ` {0..<7})" by (rule agree_mono [OF booted(4)]) (auto simp: sample_own_def)
  then have c: "sample_caller [5, 9, 7, 4108, 2] ?s" using booted [of ?m] by (simp add: sample_caller_def)
  have call: "send_call ?s = Some (sample_page 0, ?a)" using sample_call(2) [OF c] by simp
  have cp: "caller_pages ?s (sample_page 0) (sample_page ` {0, 1, 2, 3}) {sample_page 4} (sample_page 6) sample_own"
    by (rule sample_caller_pages [OF c]) (auto simp: sample_own_def)
  have lo: "send_len_ok (sa_len ?a)" by (simp add: send_len_ok_def)
  have asp: "aspace (mem ?s) (sample_page 0) (sample_page ` {0, 1, 2, 3}) {sample_page 4}"
    "sample_page ` {0, 1, 2, 3} \<union> {sample_page 4} \<subseteq> sample_own" using cp by (simp_all add: caller_pages_def)
  obtain r s' where "sys_send ?s = Some (r, s')"
    by (cases rule: send_inv [OF booted(1,2) call lo asp]) (rule that; assumption)+
  from net_run.send [OF booted(3) call cp this] show thesis using that by simp
qed

text \<open>C1: Pages of the network code are neither shared nor lost, but for one. Take any state reached from initialisation by
  any interleaving of the system calls, of the interrupt handler, of their critical sections taken singly, of the card, and of other parts
  of the kernel that touch only pages in their hands; let no \<open>send\<close> in it have been called with a negative length or one
  within 42 of \<open>INT_MAX\<close>. Then no lock is held, the rings and the list of ports are well formed, and every page there is has exactly
  one owner: it is on the free list, in one port queue, in the transmit ring, in the receive ring, or in the hands of running code or
  other parts. The only exception is a single page, which can have been lost only after an ARP frame was seen.\<close>

theorem net_pages_owned_once:
  assumes "net_run P s R W ls" "list_all send_len_ok ls"
  shows "\<exists>ps qs L. quiet s \<and> kmem_wf s ps \<and> nic_wf s \<and> rx_window s \<and> port_chain (mem s) (port_list s) qs \<and>
    distinct (map (fst \<circ> snd) qs) \<and> W \<subseteq> fst ` set qs \<and>
    distinct (ps @ pages_of qs @ tx_pages s @ rx_bufs s) \<and>
    set (ps @ pages_of qs @ tx_pages s @ rx_bufs s) \<union> R \<union> L = P \<and>
    set (ps @ pages_of qs @ tx_pages s @ rx_bufs s) \<inter> R = {} \<and>
    L \<inter> (set (ps @ pages_of qs @ tx_pages s @ rx_bufs s) \<union> R) = {} \<and>
    (L = {} \<or> (\<exists>p. L = {p}) \<and> seen_arp s)"
proof -
  obtain ps qs L where a: "net_at P s ps qs R L" and w: "W \<subseteq> fst ` set qs"
    using net_run_ok [OF assms] by (auto simp: net_ok_def)
  have d: "set (ps @ owned s qs) \<inter> (R \<union> L) = {}" "set (ps @ owned s qs) \<union> R \<union> L = P" "L \<inter> R = {}"
    using a by (simp_all add: net_at_def net_inv_def net_pages_def Un_assoc)
  then have l: "L \<inter> (set (ps @ owned s qs) \<union> R) = {}" "set (ps @ owned s qs) \<inter> R = {}" by blast+
  show ?thesis
    by (intro exI [of _ ps] exI [of _ qs] exI [of _ L]) (use a w d(2) l in \<open>simp add: net_at_def net_inv_def owned_def\<close>)
qed

theorem net_pages_owned_once_witness:
  "\<exists>(s :: net) ps qs L. net_run sample_all s sample_own {} [2] \<and> kmem_wf s ps \<and> length (rx_bufs s) = 16 \<and>
     distinct (ps @ pages_of qs @ tx_pages s @ rx_bufs s) \<and>
     set (ps @ pages_of qs @ tx_pages s @ rx_bufs s) \<union> sample_own \<union> L = sample_all"
proof -
  obtain s :: net where s: "net_run sample_all s sample_own {} [2]" by (rule sample_sends)
  have "list_all send_len_ok [2]" by (simp add: send_len_ok_def)
  from net_pages_owned_once [OF s this] obtain ps qs L where h:
    "kmem_wf s ps" "nic_wf s" "distinct (ps @ pages_of qs @ tx_pages s @ rx_bufs s)"
    "set (ps @ pages_of qs @ tx_pages s @ rx_bufs s) \<union> sample_own \<union> L = sample_all"
    by (elim exE conjE) (rule that; assumption)
  have "length (rx_bufs s) = 16" using h(2) by (simp add: nic_wf_def RX_RING_SIZE_def)
  then show ?thesis using h(1,3,4) s
    by (intro exI [of _ s] exI [of _ ps] exI [of _ qs] exI [of _ L] conjI)
qed

section \<open>Received frames\<close>

text \<open>A frame arrives at the sample machine.\<close>

lemma sample_frame_arrives:
  assumes "quiet s" "net_inv s ps qs R" "regs s E1000_RDT = 15" "regs s E1000_RDH = 0" "0 < length frame" "length frame \<le> 2048"
  obtains s' where "nic_step s s'" "quiet s'" "net_inv s' ps qs R" "ports_abs (mem s') qs = ports_abs (mem s) qs"
    "rx_ready s'" "rx_next s' = 0" "rx_len s' = of_nat (length frame)" "mem s' = mwrite (mem s) (rx_bufs s ! 0) frame"
    "rx_bufs s' = rx_bufs s" "seen_arp s' = seen_arp s" "curproc s' = curproc s" "ptable s' = ptable s" "dd_count s' \<le> 16"
proof -
  let ?d = "rx_ring s ! 0"
  define s' where "s' = set_reg E1000_RDH (of_nat ((rdh s + 1) mod RX_RING_SIZE))
      (s\<lparr>mem := mwrite (mem s) (P2V (rx_addr ?d)) frame,
         rx_ring := (rx_ring s)[0 := ?d\<lparr>rx_length := of_nat (length frame), rx_status := E1000_RXD_STAT_DD OR E1000_RXD_STAT_EOP\<rparr>]\<rparr>)"
  have w: "nic_wf s" using assms(2) by (rule net_inv_wf)
  have r: "rdh s = 0" "rdt s = 15" using assms(3,4) by simp_all
  have st: "nic_step s s'" unfolding s'_def using nic_step.received [of s ?d frame] r assms(5,6) by simp
  have l: "0 < length (rx_ring s)" "length (rx_ring s) = 16" using w by (simp_all add: nic_wf_def RX_RING_SIZE_def)
  have a: "P2V (rx_addr ?d) = rx_bufs s ! 0" using w by (simp add: nic_wf_def RX_RING_SIZE_def P2V_def V2P_def)
  have n: "rx_next s' = 0" using assms(3) by (simp add: rx_next_def s'_def set_reg_def e1000_regs RX_RING_SIZE_def)
  have lf: "(ucast (of_nat (length frame) :: u16) :: u32) = of_nat (length frame)"
    using assms(6) by (simp add: word_unat_eq_iff unsigned_ucast_eq unat_of_nat take_bit_nat_eq_self_iff take_bit_nat_eq_self)
  have "rx_ready s'" "rx_len s' = of_nat (length frame)"
    unfolding rx_ready_def rx_len_def n using l lf by (simp_all add: s'_def set_reg_def E1000_RXD_STAT_DD_def E1000_RXD_STAT_EOP_def)
  moreover have "dd_count s' \<le> 16"
    using length_filter_le [of "\<lambda>d. rx_status d AND E1000_RXD_STAT_DD \<noteq> 0" "rx_ring s'"] l by (simp add: dd_count_def s'_def set_reg_def)
  moreover note nic_step_inv [OF st assms(1,2)]
  ultimately show thesis using st n a by (intro that [of s']) (simp_all add: s'_def set_reg_def)
qed

text \<open>C5: The interrupt handler returns and empties the receive ring: afterwards no descriptor is marked done and the head of the card is at
  the descriptor that the driver looks at next, so every frame that was in the ring has been taken. This holds whatever the frames are,
  provided that an ARP frame was answered before or there are two free pages for every received frame; what is queued
  for the ports is only appended to, in order.\<close>

theorem intr_drains_ring:
  assumes "quiet s" "net_inv s ps qs R" "rx_window s" "seen_arp s \<or> 2 * dd_count s \<le> length ps"
  shows "\<exists>s' ps' qs'. e1000_intr s = Some s' \<and> quiet s' \<and> net_inv s' ps' qs' R \<and> rx_window s' \<and>
    dd_count s' = 0 \<and> rdh s' = rx_next s' \<and>
    map fst qs' = map fst qs \<and> queues_extend (ports_abs (mem s) qs) (ports_abs (mem s') qs')"
proof -
  note t = intr_inv [OF assms(1,2)]
  obtain s' ps' qs' L where h: "e1000_intr s = Some s'" "quiet s'" "net_inv s' ps' qs' (R \<union> L)" "\<not> rx_ready s'" "rx_window s'"
    "map fst qs' = map fst qs" "queues_extend (ports_abs (mem s) qs) (ports_abs (mem s') qs')"
    using recv_inv [OF t(1,2)] assms(3,4) unfolding t(3-7) by auto
  have "net_inv s' ps' qs' R" using h(3) by (rule net_inv_less) simp
  then show ?thesis using h rx_window_drained [OF net_inv_wf(3) [OF h(3)] h(5,4)] by blast
qed

theorem intr_drains_ring_witness:
  "\<exists>(s :: net) s'. net_run sample_all s sample_own {} [] \<and> rx_ready s \<and> e1000_intr s = Some s' \<and> dd_count s' = 0"
proof -
  obtain s1 where t: "nic_step (booted sample_mem) s1" "quiet s1" "net_inv s1 (sample_pool 26 80) [] sample_own" "rx_ready s1"
    "dd_count s1 \<le> 16"
    by (rule sample_frame_arrives [OF booted(1,2,9,10), of "replicate 60 0" sample_mem]) simp_all
  have w: "rx_window s1" using nic_step_inv(5) [OF t(1) booted(1,2,16)] .
  have "2 * dd_count s1 \<le> length (sample_pool 26 80)" using t(5) sample_pool_props(4) [of 80 26] by simp
  then obtain s' where "e1000_intr s1 = Some s'" "dd_count s' = 0" using intr_drains_ring [OF t(2,3) w] by blast
  then show ?thesis using t(4) net_run.card [OF booted(3) t(1)] by blast
qed

text \<open>What is queued for a bound port.\<close>

lemma queue_of_port:
  assumes "net_inv s ps qs R" "(port, ds) \<in> set (ports_abs (mem s) qs)"
  obtains qs1 pq ks qs2 where "qs = qs1 @ (pq, port, ks) # qs2" "lookup_port port qs = pq" "pq \<noteq> 0" "map (\<lambda>(k, b). dgram_at (mem s) k) ks = ds"
proof -
  note ch = net_inv_wf(4) [OF assms(1)]
  have "port \<in> fst ` set (ports_abs (mem s) qs)" using assms(2) by force
  then have "port \<in> (fst \<circ> snd) ` set qs"
    using arg_cong [OF ports_abs_simps(4) [of "mem s" qs], of set] by (simp only: set_map)
  then have nz: "lookup_port port qs \<noteq> 0" using lookup_port_zero [OF ch] by simp
  then obtain qs1 ks qs2 where qs: "qs = qs1 @ (lookup_port port qs, port, ks) # qs2" by (rule lookup_port_split [OF ch])
  have "(port, map (\<lambda>(k, b). dgram_at (mem s) k) ks) \<in> set (ports_abs (mem s) qs)" by (subst qs) simp
  moreover have "distinct (map fst (ports_abs (mem s) qs))" using assms(1) by (simp add: net_inv_def)
  ultimately have "map (\<lambda>(k, b). dgram_at (mem s) k) ks = ds" using assms(2) eq_key_imp_eq_value by metis
  then show thesis using that qs nz by blast
qed

lemma memmove_reads:
  assumes "unat p < 2 ^ 64 - 8192" "unat q < 2 ^ 64 - 8192" "unat n \<le> 4096"
  shows "mread (memmove m p q n) p (unat n) = mread m q (unat n)"
proof -
  have "memmove m p q n = mcopy m p q (unat n)" using assms by (intro memmove_eq_mcopy) simp_all
  then show ?thesis using assms(3) by (simp add: mcopy_eq_mwrite mread_mwrite_same)
qed

text \<open>C2: A UDP packet in the receive ring, addressed to a bound port with room in its queue, is appended to that
  queue with its source address, source port, length and payload when two pages are free; all other
  queues stay as they are.\<close>

theorem frame_delivered:
  assumes "quiet s" "net_inv s ps qs R" "rx_ready s" "2 \<le> length ps"
    and pkt: "udp_packet (mem s) (rx_bufs s ! rx_next s) src sport dport data" "42 + length data \<le> unat (rx_len s)"
      "unat (rx_len s) \<le> 4096" "length data \<le> 1500"
    and room: "(dport, ds) \<in> set (ports_abs (mem s) qs)" "length ds < 16"
  shows "\<exists>s' ps' qs' d. e1000_recv_turn s = Some (True, s') \<and> quiet s' \<and> net_inv s' ps' qs' R \<and>
    ports_abs (mem s') qs' = deliver dport d (ports_abs (mem s) qs) \<and>
    d_src d = src \<and> d_sport d = sport \<and> d_len d = of_nat (length data) \<and> take (length data) (d_data d) = data"
proof (cases rule: recv_turn_inv [OF assms(1,2), case_names idle panic ok])
  case (ok s' ps' qs' L)
  have iR: "net_inv s' ps' qs' R" using ok(3) by (rule net_inv_less) simp
  let ?len = "rx_len s" and ?src = "rx_bufs s ! rx_next s" and ?A = "ports_abs (mem s) qs"
  obtain p q ps1 where ps: "ps = p # q # ps1" using assms(4) by (cases ps; cases "tl ps") auto
  define m where "m = memmove (mem s) p ?src ?len"
  note kb = net_inv_wf(5) [OF assms(2)]
  have "?src \<in> set (rx_bufs s)" using net_inv_wf(3) [OF assms(2)] rx_next_less [of s] by (simp add: nic_wf_def)
  then have v: "valid_page (kend s) ?src" "valid_page (kend s) p"
    using assms(2) by (auto simp: net_inv_def owned_def list_all_iff kmem_wf_def ps)
  have "mread m p (unat ?len) = mread (mem s) ?src (unat ?len)"
    unfolding m_def using valid_page_bound(1) [OF kb] v pkt(3) by (intro memmove_reads) simp_all
  from udp_packet_parse [OF udp_packet_copy [OF this pkt(2,1)] pkt(4)]
  have f: "m (ip_p (p + of_nat sizeof_eth)) = IPPROTO_UDP" "ntohs (ld16 m (eth_type p)) = ETHTYPE_IP" "frame_port m p = dport"
    "d_src (frame_dgram m p) = src" "d_sport (frame_dgram m p) = sport" "d_len (frame_dgram m p) = of_nat (length data)"
    "take (length data) (d_data (frame_dgram m p)) = data" by simp_all
  have ln: "sint ?len = int (unat ?len)" using rx_len_less [of s] by (intro sint_small) simp
  have c: "0 < sint ?len" "sint ?len \<le> 4096" "34 \<le> sint ?len" using pkt(2,3) unfolding ln by linarith+
  have "ip_accepts m p (q # ps1) ?A" using f room by (auto simp: ip_accepts_def)
  then have "turn_effect s ps ?A = deliver dport (frame_dgram m p) ?A"
    using c f(2,3) by (simp add: turn_effect_def rx_effect_def ps m_def)
  then show ?thesis using ok(1,2,7) iR f by auto
qed (use assms in simp_all)

text \<open>The sample machine with port 7 bound, and a packet for it in the receive ring.\<close>

definition sample_bound :: "memory \<Rightarrow> net" where
  "sample_bound m = (let s = booted m; q = sample_page 26 in
     s\<lparr>freelist := ld64 (mem s) q, mem := new_queue q 7 0 (mem s), port_list := q\<rparr>)"

lemma sample_bound:
  "quiet (sample_bound m)" "net_inv (sample_bound m) (sample_pool 27 80) [(sample_page 26, 7, [])] sample_own"
  "agree m (mem (sample_bound m)) sample_own" "regs (sample_bound m) = regs (booted m)" "curproc (sample_bound m) = Some 0"
  "ptable (sample_bound m) = [sample_proc]" "recv_locals (sample_bound m) = sample_page 6" "kend (sample_bound m) = KERNBASE + 0x200000"
  "ncli (cpu_st (sample_bound m)) = 0"
proof -
  let ?s = "booted m" and ?q = "sample_page 26"
  have i: "net_inv ?s (?q # sample_pool 27 80) [] sample_own" using booted(2) [of m] sample_pool_Cons [of 26 80] by simp
  show "net_inv (sample_bound m) (sample_pool 27 80) [(?q, 7, [])] sample_own"
    using new_queue_inv(1) [OF i, of 7] booted(13) [of m] by (simp add: sample_bound_def Let_def)
  have "agree (mem ?s) (mem (sample_bound m)) sample_own"
    unfolding sample_bound_def Let_def using new_queue_agree [of ?q sample_own "mem ?s" 7 0] sample_own_iff [of 26]
    by (simp add: sample_own_def)
  with booted(4) [of m] show "agree m (mem (sample_bound m)) sample_own" by (rule agree_trans)
qed (use booted [of m] in \<open>simp_all add: sample_bound_def Let_def\<close>)

theorem frame_delivered_witness:
  "\<exists>(s :: net) s' d. rx_ready s \<and> e1000_recv_turn s = Some (True, s') \<and> take 2 (d_data d) = [1, 2] \<and> d_sport d = 9 \<and>
    (\<exists>qs'. ports_abs (mem s') qs' = [(7, [d])])"
proof -
  let ?s = "sample_bound sample_mem" and ?f = "mwrite (send_frame 0 9 3 7 2 (\<lambda>_. 0)) 42 [1, 2]"
  have u: "udp_packet ?f 0 local_ip 9 7 [1, 2]"
    using udp_frame_packet [OF send_frame_payload [of "[1, 2]" 2 0 9 3 7 "\<lambda>_. 0"]] by simp
  have h: "regs ?s E1000_RDT = 15" "regs ?s E1000_RDH = 0" "0 < length (mread ?f 0 44)" "length (mread ?f 0 44) \<le> 2048"
    using booted(9,10) [of sample_mem] by (simp_all add: sample_bound(4))
  obtain s1 :: net where s1: "quiet s1" "net_inv s1 (sample_pool 27 80) [(sample_page 26, 7, [])] sample_own" "rx_ready s1"
    "rx_next s1 = 0" "rx_len s1 = of_nat (length (mread ?f 0 44))" "mem s1 = mwrite (mem ?s) (rx_bufs ?s ! 0) (mread ?f 0 44)"
    "rx_bufs s1 = rx_bufs ?s"
    by (rule sample_frame_arrives [OF sample_bound(1,2) h]) (rule that; assumption)
  have t: "quiet s1" "net_inv s1 (sample_pool 27 80) [(sample_page 26, 7, [])] sample_own" "rx_ready s1" "rx_next s1 = 0" "rx_len s1 = 44"
    "mem s1 = mwrite (mem ?s) (rx_bufs ?s ! 0) (mread ?f 0 44)" "rx_bufs s1 = rx_bufs ?s" using s1 by simp_all
  have "mread (mem s1) (rx_bufs s1 ! rx_next s1) 44 = mread ?f 0 44"
    unfolding t(4,6,7) by (rule mread_mwrite_same) simp_all
  from udp_packet_copy [OF this _ u] have p: "udp_packet (mem s1) (rx_bufs s1 ! rx_next s1) local_ip 9 7 [1, 2]" by simp
  have "2 \<le> length (sample_pool 27 80)" using sample_pool_props(4) [of 80 27] by simp
  from frame_delivered [OF t(1-3) this p, of "[]"] t(5) obtain s' ps' qs' d where
    "e1000_recv_turn s1 = Some (True, s')" "ports_abs (mem s') qs' = deliver 7 d [(7, [])]" "take (Suc (Suc 0)) (d_data d) = [1, 2]" "d_sport d = 9"
    by auto
  then show ?thesis using t(3) by (intro exI [of _ s1] exI [of _ s'] exI [of _ d]) (auto simp: deliver_def numeral_2_eq_2)
qed

section \<open>System calls\<close>

text \<open>C3: When a datagram is queued for the port, \<open>recv\<close> takes the oldest one, copies the payload, cut to the
  caller's limit and to 1500 bytes, into the caller's buffer, returns that length, and gives both pages
  of the packet back to the allocator; the other queues stay as they are.\<close>

theorem recv_takes_oldest:
  assumes "quiet s" "net_inv s ps qs R" "recv_call s = Some (pgdir, port, a)" "caller_pages s pgdir T U lp R"
    and d: "(port, d # ds) \<in> set (ports_abs (mem s) qs)"
    and r: "user_range (mem s) pgdir (ra_src a) 4" "user_range (mem s) pgdir (ra_sport a) 2"
      "user_range (mem s) pgdir (ra_buf a) (recv_count d a)"
  shows "\<exists>s' ps' qs'. sys_recv s = Some (Ret (of_nat (recv_count d a)), s') \<and> quiet s' \<and> net_inv s' ps' qs' R \<and>
    length ps' = length ps + 2 \<and> ports_abs (mem s') qs' = take_head port (ports_abs (mem s) qs) \<and>
    ubytes (mem s') pgdir (ra_buf a) (recv_count d a) = take (recv_count d a) (d_data d)"
proof -
  obtain qs1 pq ks qs2 where q: "qs = qs1 @ (pq, port, ks) # qs2" "lookup_port port qs = pq" "pq \<noteq> 0"
    "map (\<lambda>(k, b). dgram_at (mem s) k) ks = d # ds" by (rule queue_of_port [OF assms(2) d])
  then obtain k b ks' where ks: "ks = (k, b) # ks'" "dgram_at (mem s) k = d" by (cases ks) auto
  have e: "sys_recv s = recv_turn pgdir pq a (lk Netlock s)" using sys_recv_eq [OF assms(1-3)] q(2,3) by simp
  note inv = assms(2) [unfolded q(1) ks(1)]
  obtain r s' where "recv_turn pgdir pq a (lk Netlock s) = Some (Ret r, s')" "quiet s'"
    "net_inv s' (k # b # ps) (qs1 @ (pq, port, ks') # qs2) R"
    "ports_abs (mem s') (qs1 @ (pq, port, ks') # qs2) = take_head port (ports_abs (mem s) (qs1 @ (pq, port, (k, b) # ks') # qs2))"
    "r = of_nat (recv_count d a)" "ubytes (mem s') pgdir (ra_buf a) (recv_count d a) = take (recv_count d a) (d_data d)"
    by (rule recv_turn_takes [OF assms(1) inv assms(4), of a, unfolded ks(2)]) (use r in blast)
  then show ?thesis using e unfolding q(1) ks(1)
    by (intro exI [of _ s'] exI [of _ "k # b # ps"] exI [of _ "qs1 @ (pq, port, ks') # qs2"]) simp
qed

text \<open>The sample machine with one packet queued for port 7: the frame of page 7, in the node page 27.\<close>

definition sample_queued :: "memory \<Rightarrow> net" where
  "sample_queued m = (let s = sample_bound m; k = sample_page 27; b = sample_page 7 in
     s\<lparr>freelist := ld64 (mem s) k, mem := push_pkt (fill_pkt k b (frame_udp (mem s) b) (mem s)) (sample_page 26) k\<rparr>)"

lemma sample_queued:
  "quiet (sample_queued m)" "net_inv (sample_queued m) (sample_pool 28 80) [(sample_page 26, 7, [(sample_page 27, sample_page 7)])] (sample_own - {sample_page 7})"
  "agree m (mem (sample_queued m)) (sample_page ` {0..<7})" "curproc (sample_queued m) = Some 0"
  "ptable (sample_queued m) = [sample_proc]" "recv_locals (sample_queued m) = sample_page 6"
  "ports_abs (mem (sample_queued m)) [(sample_page 26, 7, [(sample_page 27, sample_page 7)])] = [(7, [frame_dgram (mem (sample_bound m)) (sample_page 7)])]"
proof -
  let ?s = "sample_bound m" and ?k = "sample_page 27" and ?b = "sample_page 7" and ?q = "sample_page 26"
  let ?m = "push_pkt (fill_pkt ?k ?b (frame_udp (mem ?s) ?b) (mem ?s)) ?q ?k"
  have "insert ?b (sample_own - {?b}) = sample_own" using sample_own_iff [of 7] by auto
  then have i: "net_inv ?s (?k # sample_pool 28 80) ([] @ (?q, 7, []) # []) (insert ?b (sample_own - {?b}))"
    using sample_bound(2) [of m] sample_pool_Cons [of 27 80] by simp
  have b: "valid_page (kend ?s) ?b" "?b \<notin> sample_own - {?b}" using sample_page_valid [of 7] sample_bound(8) by simp_all
  note e = enqueue_inv [OF i _ b refl]
  show "net_inv (sample_queued m) (sample_pool 28 80) [(?q, 7, [(?k, ?b)])] (sample_own - {?b})"
    using e(1) by (simp add: sample_queued_def Let_def)
  show "ports_abs (mem (sample_queued m)) [(?q, 7, [(?k, ?b)])] = [(7, [frame_dgram (mem ?s) ?b])]"
    using e(2) by (simp add: sample_queued_def Let_def deliver_def)
  have al: "aligned_set (sample_page ` {0..<7})" by simp
  have n: "?k \<notin> sample_page ` {0..<7}" "?q \<notin> sample_page ` {0..<7}" by (auto simp: sample_page_eq_iff)
  have "agree (mem ?s) ?m (sample_page ` {0..<7})" using al n by (intro e(3)) auto
  moreover have "agree m (mem ?s) (sample_page ` {0..<7})"
    by (rule agree_mono [OF sample_bound(3)]) (auto simp: sample_own_def)
  ultimately show "agree m (mem (sample_queued m)) (sample_page ` {0..<7})"
    by (simp add: sample_queued_def Let_def agree_trans)
qed (use sample_bound [of m] in \<open>simp_all add: sample_queued_def Let_def\<close>)

lemma sample_queued_caller: "sample_caller [a0, a1, a2, a3, a4] (sample_queued (sample_args a0 a1 a2 a3 a4 sample_mem))"
  using sample_queued [of "sample_args a0 a1 a2 a3 a4 sample_mem"] by (simp add: sample_caller_def)

text \<open>The bytes of page 7 are kept until the frame is read.\<close>

lemma sample_frame:
  assumes "o' + n \<le> 4096"
  shows "mread (mem (sample_bound (sample_args a0 a1 a2 a3 a4 sample_mem))) (sample_page 7 + of_nat o') n = replicate n 7"
proof -
  let ?m = "sample_args a0 a1 a2 a3 a4 sample_mem" and ?p = "sample_page 7"
  have w: "within ?p (?p + of_nat o') n" using assms by (simp add: within_def unat64_of_nat)
  have "agree ?m (mem (sample_bound ?m)) {?p}" by (rule agree_mono [OF sample_bound(3)]) (simp add: sample_own_def)
  moreover have "agree sample_mem ?m {?p}" by (rule agree_sample_args) (simp_all add: aligned_set_def sample_page_eq_iff)
  moreover have "agree (mfill (\<lambda>_. 0) ?p 7 4096) sample_mem {?p}"
    unfolding sample_mem_def install_pt_def
    by (intro agree_trans [OF agree_st64 agree_trans [OF agree_st64 agree_trans [OF agree_st64 agree_st64]]])
      (auto simp: sample_page_eq_iff aligned_set_def intro: within_entry)
  ultimately have "agree (mfill (\<lambda>_. 0) ?p 7 4096) (mem (sample_bound ?m)) {?p}" using agree_trans by blast
  from agree_mread [OF this _ w] have "mread (mem (sample_bound ?m)) (?p + of_nat o') n = mread (mfill (\<lambda>_. 0) ?p 7 4096) (?p + of_nat o') n"
    by simp
  also have "\<dots> = take n (drop o' (mread (mfill (\<lambda>_. 0) ?p 7 4096) ?p 4096))" using assms by (rule mread_sub)
  also have "mread (mfill (\<lambda>_. 0) ?p 7 4096) ?p 4096 = replicate 4096 7"
    unfolding mfill_eq_mwrite by (rule mread_mwrite_same) simp_all
  finally show ?thesis using assms by simp
qed

theorem recv_takes_oldest_witness:
  "\<exists>(s :: net) s'. sys_recv s = Some (Ret 2, s') \<and> ubytes (mem s') (sample_page 0) 4108 2 = [7, 7]"
proof -
  let ?m = "sample_args 7 4100 4104 4108 2 sample_mem" and ?b = "sample_page 7"
  let ?s = "sample_queued ?m" and ?a = "\<lparr>ra_src = 4100, ra_sport = 4104, ra_buf = 4108, ra_maxlen = 2\<rparr>"
  define d where "d = frame_dgram (mem (sample_bound ?m)) ?b"
  note c = sample_queued_caller [of 7 4100 4104 4108 2]
  have call: "recv_call ?s = Some (sample_page 0, 7, ?a)" using sample_call(1) [OF c] by simp
  have cp: "caller_pages ?s (sample_page 0) (sample_page ` {0, 1, 2, 3}) {sample_page 4} (sample_page 6) (sample_own - {?b})"
    by (rule sample_caller_pages [OF c]) (auto simp: sample_own_def sample_page_eq_iff)
  have byte: "mread (mem (sample_bound ?m)) (?b + 14) 1 = [7]" using sample_frame [of 14 1] by simp
  then have u: "frame_udp (mem (sample_bound ?m)) ?b = ?b + 42"
    by (simp add: frame_udp_def frame_ihl_def hdr_offsets sizeof_eth_def mread_def)
  have two: "replicate 2 (7 :: byte) = [7, 7]" by (simp add: numeral_2_eq_2)
  have "mread (mem (sample_bound ?m)) (?b + 46) 2 = [7, 7]" using sample_frame [of 46 2] two by simp
  then have "ld16 (mem (sample_bound ?m)) (?b + 46) = 0x0707" by (simp add: ld16_def)
  then have "d_len d = 1791" by (simp add: d_def frame_dgram_def u hdr_offsets add.assoc bswaps_def)
  moreover have "d_data d = replicate 1500 7" using sample_frame [of 50 1500] by (simp add: d_def frame_dgram_def u add.assoc)
  ultimately have n: "recv_count d ?a = 2" "take 2 (d_data d) = [7, 7]"
    using two by (simp_all add: recv_count_def)
  have q: "(7, [d]) \<in> set (ports_abs (mem ?s) [(sample_page 26, 7, [(sample_page 27, ?b)])])"
    using sample_queued(7) [of ?m] by (simp add: d_def)
  have r: "user_range (mem ?s) (sample_page 0) (ra_src ?a) 4" "user_range (mem ?s) (sample_page 0) (ra_sport ?a) 2"
    "user_range (mem ?s) (sample_page 0) (ra_buf ?a) (recv_count d ?a)" using sample_ranges [OF c] n by simp_all
  from recv_takes_oldest [OF sample_queued(1,2) call cp q r] n show ?thesis by auto
qed

text \<open>C7: \<open>recv\<close> on a bound port with nothing queued does not return: the calling process sleeps on its port queue,
  and \<open>netlock\<close> is free again.\<close>

theorem recv_sleeps_when_empty:
  assumes "quiet s" "net_inv s ps qs R" "recv_call s = Some (pgdir, port, a)" "(port, []) \<in> set (ports_abs (mem s) qs)"
    and "curproc s = Some me" "me < length (ptable s)" "ncli (cpu_st s) = 0"
  shows "\<exists>s'. sys_recv s = Some (Asleep, s') \<and> locks s' Netlock = free_lock \<and> p_state (ptable s' ! me) = SLEEPING \<and>
    p_chan (ptable s' ! me) = Ch_addr (lookup_port port qs)"
proof -
  obtain qs1 pq ks qs2 where q: "qs = qs1 @ (pq, port, ks) # qs2" "lookup_port port qs = pq" "pq \<noteq> 0"
    "map (\<lambda>(k, b). dgram_at (mem s) k) ks = []" by (rule queue_of_port [OF assms(2,4)])
  have "is_queue (mem s) pq port ks" using port_chain_split(1) [OF net_inv_wf(4) [OF assms(2), unfolded q(1)]] by simp
  then have "ld32 (mem s) (pq_count pq) = 0" using q(4) by (simp add: is_queue_def)
  then have "sys_recv s = Some (Asleep, lk Ptable_lock (put_to_sleep me (Ch_addr pq) s))"
    using sys_recv_eq [OF assms(1-3)] q(2,3) sleep_out_eq [OF assms(1) _ assms(5,6), of Netlock "Ch_addr pq"]
      sched_out_asleep [OF assms(1,5-7), of "Ch_addr pq"] by (simp add: recv_turn_def)
  then show ?thesis using assms(1,6) q(2) by (auto simp: put_to_sleep_def upd_proc_def quietD)
qed

theorem recv_sleeps_when_empty_witness:
  "\<exists>(s :: net) s'. sys_recv s = Some (Asleep, s') \<and> p_chan (ptable s' ! 0) = Ch_addr (sample_page 26)"
proof -
  let ?m = "sample_args 7 4100 4104 4108 2 sample_mem"
  let ?s = "sample_bound ?m"
  have "agree ?m (mem ?s) (sample_page ` {0..<7})" by (rule agree_mono [OF sample_bound(3)]) (auto simp: sample_own_def)
  then have c: "sample_caller [7, 4100, 4104, 4108, 2] ?s" using sample_bound [of ?m] by (simp add: sample_caller_def)
  have call: "recv_call ?s = Some (sample_page 0, 7, \<lparr>ra_src = 4100, ra_sport = 4104, ra_buf = 4108, ra_maxlen = 2\<rparr>)"
    using sample_call(1) [OF c] by simp
  have "ncli (cpu_st ?s) = 0" using sample_bound(9) .
  from recv_sleeps_when_empty [OF sample_bound(1,2) call _ sample_bound(5) _ this] sample_bound(6) [of ?m] show ?thesis by auto
qed

text \<open>C6: A UDP frame that is queued for a port makes every process that sleeps on that port queue runnable, and
  changes no other process: no wakeup is lost.\<close>

theorem packet_wakes_readers:
  assumes "quiet s" "net_inv s (k # ps) qs (insert buf R)" "valid_page (kend s) buf" "buf \<notin> R"
    and "udp_packet (mem s) buf src sport port data" "length data \<le> 1500" "(port, ds) \<in> set (ports_abs (mem s) qs)" "length ds < 16"
    and "i < length (ptable s)"
  shows "\<exists>s'. ip_rx buf len s = Some s' \<and> ptable s' ! i =
    (if p_state (ptable s ! i) = SLEEPING \<and> p_chan (ptable s ! i) = Ch_addr (lookup_port port qs)
     then (ptable s ! i)\<lparr>p_state := RUNNABLE\<rparr> else ptable s ! i)"
proof -
  note p = udp_packet_parse [OF assms(5,6)]
  have "ip_accepts (mem s) buf (k # ps) (ports_abs (mem s) qs)" using p(1,3) assms(7,8) by (auto simp: ip_accepts_def)
  then obtain s' where "ip_rx buf len s = Some s'" "ptable s' = ptable (wakeup1 (Ch_addr (lookup_port port qs)) s)"
    using p(3) by (cases rule: ip_rx_inv [OF assms(1-4), of len]) simp
  then show ?thesis using assms(9) by (auto simp: wakeup1_def)
qed

theorem packet_wakes_readers_witness:
  "\<exists>(s :: net) s'. p_state (ptable s ! 0) = SLEEPING \<and> ip_rx (sample_page 7) 44 s = Some s' \<and> p_state (ptable s' ! 0) = RUNNABLE"
proof -
  let ?f = "mwrite (send_frame 0 9 3 7 2 (\<lambda>_. 0)) 42 [1, 2]" and ?b = "sample_page 7" and ?q = "sample_page 26"
  let ?m = "mwrite sample_mem ?b (mread ?f 0 44)"
  let ?t = "sample_bound ?m"
  define s where "s = ?t\<lparr>ptable := [sample_proc\<lparr>p_state := SLEEPING, p_chan := Ch_addr ?q\<rparr>]\<rparr>"
  have q: "quiet s" using sample_bound(1) by (simp add: s_def)
  have own: "insert ?b (sample_own - {?b}) = sample_own" using sample_own_iff [of 7] by auto
  have "net_inv ?t (sample_page 27 # sample_pool 28 80) [(?q, 7, [])] sample_own"
    using sample_bound(2) [of ?m] sample_pool_Cons [of 27 80] by simp
  then have i: "net_inv s (sample_page 27 # sample_pool 28 80) [(?q, 7, [])] (insert ?b (sample_own - {?b}))"
    unfolding own by (rule net_inv_cong) (use lockable_quiet [OF q] in \<open>simp_all add: s_def\<close>)
  have v: "valid_page (kend s) ?b" using sample_page_valid [of 7] sample_bound(8) by (simp add: s_def)
  have ag: "agree ?m (mem s) {?b}" using agree_mono [OF sample_bound(3), of "{?b}"] sample_own_iff [of 7] by (simp add: s_def)
  have "within ?b ?b 44" by (simp add: within_def)
  from agree_mread [OF ag _ this] have r: "mread (mem s) ?b 44 = mread ?f 0 44" by (simp add: mread_mwrite_same)
  have "udp_packet ?f 0 local_ip 9 7 [1, 2]"
    using udp_frame_packet [OF send_frame_payload [of "[1, 2]" 2 0 9 3 7 "\<lambda>_. 0"]] by simp
  from udp_packet_copy [OF r _ this] have u: "udp_packet (mem s) ?b local_ip 9 7 [1, 2]" by simp
  have p: "ptable s ! 0 = sample_proc\<lparr>p_state := SLEEPING, p_chan := Ch_addr ?q\<rparr>" "0 < length (ptable s)" by (simp_all add: s_def)
  from packet_wakes_readers [OF q i v _ u _ _ _ p(2), of "[]" 44] p(1) obtain s' where
    "ip_rx ?b 44 s = Some s'" "ptable s' ! 0 = (ptable s ! 0)\<lparr>p_state := RUNNABLE\<rparr>" by auto
  then show ?thesis using p(1) by (intro exI [of _ s] exI [of _ s']) simp
qed

text \<open>C8: \<open>bind\<close> succeeds exactly for a port number below 65536 that is not bound yet, when a page is free: the
  port is then bound with an empty queue. In every other case it returns -1 and changes nothing.\<close>

theorem bind_binds_free_port:
  assumes "quiet s" "net_inv s ps qs R" "argint 0 s = Some port"
  defines "A \<equiv> ports_abs (mem s) qs"
  shows "if 0 \<le> sint port \<and> sint port \<le> 0xFFFF \<and> ucast port \<notin> fst ` set A \<and> ps \<noteq> []
    then \<exists>s' ps' qs'. sys_bind s = Some (0, s') \<and> quiet s' \<and> net_inv s' ps' qs' R \<and> ports_abs (mem s') qs' = (ucast port, []) # A
    else sys_bind s = Some (-1, s)"
proof (cases rule: bind_inv [OF assms(1-3), folded A_def, case_names refused bound])
  case refused
  then show ?thesis by auto
next
  case (bound s' q ps')
  then have "\<exists>s' ps' qs'. sys_bind s = Some (0, s') \<and> quiet s' \<and> net_inv s' ps' qs' R \<and> ports_abs (mem s') qs' = (ucast port, []) # A"
    by blast
  then show ?thesis using bound by simp
qed

theorem bind_binds_free_port_witness:
  "\<exists>(s :: net) s' qs'. sys_bind s = Some (0, s') \<and> ports_abs (mem s') qs' = [(7, [])]"
proof -
  let ?m = "sample_args 7 0 0 0 0 sample_mem"
  have "agree ?m (mem (booted ?m)) (sample_page ` {0..<7})" by (rule agree_mono [OF booted(4)]) (auto simp: sample_own_def)
  then have "sample_caller [7, 0, 0, 0, 0] (booted ?m)" using booted [of ?m] by (simp add: sample_caller_def)
  then have "argint 0 (booted ?m) = Some 7" using sample_call(3) [of 7 0 0 0 0] by simp
  from bind_binds_free_port [OF booted(1,2) this] show ?thesis
    using sample_pool_Cons [of 26 80] by auto
qed

lemma udp_frame_agree:
  assumes "udp_frame m buf dst sport dport data" "agree m m' {buf}" "length data \<le> 4054"
  shows "udp_frame m' buf dst sport dport data"
proof -
  have rd: "mread m' (buf + of_nat k) l = mread m (buf + of_nat k) l" if "k + l \<le> 4096" for k l
    using that by (intro agree_mread [OF assms(2), of buf]) (simp_all add: within_def unat64_of_nat)
  have "mread m' buf 6 = mread m buf 6" "mread m' (buf + 6) 6 = mread m (buf + 6) 6" "ld16 m' (buf + 12) = ld16 m (buf + 12)"
    "mread m' (buf + 14) 2 = mread m (buf + 14) 2" "ld16 m' (buf + 16) = ld16 m (buf + 16)" "mread m' (buf + 18) 6 = mread m (buf + 18) 6"
    "ld32 m' (buf + 26) = ld32 m (buf + 26)" "ld32 m' (buf + 30) = ld32 m (buf + 30)" "ld16 m' (buf + 34) = ld16 m (buf + 34)"
    "ld16 m' (buf + 36) = ld16 m (buf + 36)" "ld16 m' (buf + 38) = ld16 m (buf + 38)"
    "mread m' (buf + 42) (length data) = mread m (buf + 42) (length data)"
    using rd [of 0 6] rd [of 6 6] rd [of 12 2] rd [of 14 2] rd [of 16 2] rd [of 18 6] rd [of 26 4] rd [of 30 4] rd [of 34 2]
      rd [of 36 2] rd [of 38 2] rd [of 42 "length data"] assms(3) by (simp_all add: ld16_def ld32_def)
  moreover have "in_cksum m' (buf + 14) 20 = in_cksum m (buf + 14) 20"
    using cksum_add_cong [of m' "buf + 14" 20 m 0] rd [of 14 20] by (simp add: in_cksum_def)
  ultimately show ?thesis using assms(1) by (simp add: udp_frame_alt)
qed

text \<open>C4: A \<open>send\<close> of mapped bytes with a free page and a free transmit descriptor returns 0; the descriptor at the
  tail of the ring then points to a complete Ethernet frame with an IP header whose checksum verifies,
  a UDP header with the given ports, and exactly the caller's bytes.\<close>

theorem send_queues_frame:
  assumes "quiet s" "net_inv s ps qs R" "send_call s = Some (pgdir, a)" "caller_pages s pgdir T U lp R"
    and ok: "unat (sa_len a) \<le> 4054" "ps \<noteq> []" "0 \<notin> uframes (mem s) pgdir (sa_buf a) (unat (sa_len a))"
      "tx_status (tx_ring s ! tx_tail s) AND E1000_TXD_STAT_DD \<noteq> 0"
  shows "\<exists>s' ps'. sys_send s = Some (0, s') \<and> quiet s' \<and> net_inv s' ps' qs R \<and> ports_abs (mem s') qs = ports_abs (mem s) qs \<and>
    tx_length (tx_ring s' ! tx_tail s) = of_nat (42 + unat (sa_len a)) \<and> tx_status (tx_ring s' ! tx_tail s) = 0 \<and>
    udp_frame (mem s') (P2V (tx_addr (tx_ring s' ! tx_tail s))) (sa_dst a) (ucast (sa_sport a)) (ucast (sa_dport a))
      (ubytes (mem s) pgdir (sa_buf a) (unat (sa_len a)))"
proof -
  let ?n = "unat (sa_len a)" and ?data = "ubytes (mem s) pgdir (sa_buf a) (unat (sa_len a))"
  have c: "aspace (mem s) pgdir T U" "T \<union> U \<subseteq> R" using assms(4) by (auto simp: caller_pages_def)
  have sl: "sint (sa_len a) = int ?n" using ok(1) by (intro sint_small) simp
  moreover have "int ?n \<le> 4054" using ok(1) by linarith
  ultimately have lo: "send_len_ok (sa_len a)" by (simp add: send_len_ok_def)
  have ld: "length ?data = ?n" by (simp add: ubytes_def)
  show ?thesis
  proof (cases rule: send_inv [OF assms(1-3) lo c, case_names refused sent])
    case refused
    then show ?thesis using ok by auto
  next
    case (sent s' ps' buf m)
    have f: "udp_frame m buf (sa_dst a) (ucast (sa_sport a)) (ucast (sa_dport a)) ?data"
      using sent(5) [OF ok(3)] send_frame_payload [of ?data "sa_len a" buf "sa_sport a" "sa_dst a" "sa_dport a" "mem s"] ok(1) ld by simp
    have "udp_frame (mem s') buf (sa_dst a) (ucast (sa_sport a)) (ucast (sa_dport a)) ?data"
      by (rule udp_frame_agree [OF f sent(7)]) (use ok(1) ld in simp)
    moreover have "(ucast (sa_len a + 42) :: u16) = of_nat (42 + ?n)"
    proof -
      have n: "unat (sa_len a + 42) = 42 + ?n" using unat_add_lem [of "sa_len a" 42] ok(1) by simp
      have "(of_nat (unat (sa_len a + 42)) :: u16) = ucast (sa_len a + 42)" by simp
      then show ?thesis by (simp only: n)
    qed
    ultimately show ?thesis using sent by (intro exI [of _ s'] exI [of _ ps']) (simp add: P2V_def V2P_def)
  qed
qed

theorem send_queues_frame_witness:
  "\<exists>(s :: net) s' data. sys_send s = Some (0, s') \<and> length data = 2 \<and>
    udp_frame (mem s') (P2V (tx_addr (tx_ring s' ! 0))) 9 5 7 data"
proof -
  let ?m = "sample_args 5 9 7 4108 2 sample_mem"
  let ?s = "booted ?m" and ?a = "\<lparr>sa_sport = 5, sa_dst = 9, sa_dport = 7, sa_buf = 4108, sa_len = 2\<rparr>"
  have "agree ?m (mem ?s) (sample_page ` {0..<7})" by (rule agree_mono [OF booted(4)]) (auto simp: sample_own_def)
  then have c: "sample_caller [5, 9, 7, 4108, 2] ?s" using booted [of ?m] by (simp add: sample_caller_def)
  have call: "send_call ?s = Some (sample_page 0, ?a)" using sample_call(2) [OF c] by simp
  have cp: "caller_pages ?s (sample_page 0) (sample_page ` {0, 1, 2, 3}) {sample_page 4} (sample_page 6) sample_own"
    by (rule sample_caller_pages [OF c]) (auto simp: sample_own_def)
  have t: "tx_tail ?s = 0" "tx_status (tx_ring ?s ! 0) AND E1000_TXD_STAT_DD \<noteq> 0"
    using booted(11,14) [of ?m] by (simp_all add: tx_tail_def TX_RING_SIZE_def E1000_TXD_STAT_DD_def)
  have u: "0 \<notin> uframes (mem ?s) (sample_page 0) (sa_buf ?a) (unat (sa_len ?a))"
    using sample_ranges(4) [OF c] sample_page_props(3) [of 4] by auto
  from send_queues_frame [OF booted(1,2) call cp _ _ u] t sample_pool_Cons [of 26 80] obtain s' where
    "sys_send ?s = Some (0, s')"
    "udp_frame (mem s') (P2V (tx_addr (tx_ring s' ! 0))) 9 5 7 (ubytes (mem ?s) (sample_page 0) 4108 2)" by auto
  then show ?thesis by (intro exI [of _ ?s] exI [of _ s'] exI [of _ "ubytes (mem ?s) (sample_page 0) 4108 2"]) (simp add: ubytes_def)
qed

text \<open>C9: \<open>in_cksum\<close> is the Internet checksum: the complement of the one's complement sum of the 16-bit words;
  when it is stored in a field that was zero, the checksum over the whole range becomes zero, which is
  how a receiver verifies it.\<close>

theorem in_cksum_verifies:
  assumes "j < n" "n \<le> 65536" "ld16 m (a + of_nat (2 * j)) = 0"
  shows "unat (in_cksum m a (2 * n)) = 65535 - fold16 (cksum_words m a n) \<and>
    in_cksum (st16 m (a + of_nat (2 * j)) (in_cksum m a (2 * n))) a (2 * n) = 0"
  using in_cksum_value(1) [OF assms(2)] in_cksum_zero [OF assms] by blast

theorem in_cksum_verifies_witness:
  "in_cksum (st16 (st16 (\<lambda>_. 7) 10 0) 10 (in_cksum (st16 (\<lambda>_. 7) 10 0) 0 20)) 0 20 = 0"
  using in_cksum_verifies [of 5 10 "st16 (\<lambda>_. 7) 10 0" 0] by (simp add: mem_simps)


section \<open>Defects\<close>

text \<open>C11: When the transmit ring is full, the first ARP frame costs the machine a page: the reply page is taken from the
  free list, is not transmitted, and is not freed either.\<close>

theorem arp_reply_page_lost:
  assumes "\<not> seen_arp s" "quiet s" "net_inv s (b # ps) qs (insert inbuf R)" "valid_page (kend s) inbuf" "inbuf \<notin> R"
    and full: "tx_status (tx_ring s ! tx_tail s) AND E1000_TXD_STAT_DD = 0"
  shows "\<exists>s'. arp_rx inbuf s = Some s' \<and> net_inv s' (inbuf # ps) qs (insert b R) \<and> b \<notin> set ((inbuf # ps) @ owned s' qs) \<and>
    tx_ring s' = tx_ring s"
proof -
  let ?n = "of_nat (sizeof_eth + sizeof_arp) :: u32"
  obtain u where u: "arp_rx inbuf s = do { (r, s) \<leftarrow> e1000_transmit b ?n u; kfree inbuf s }" "quiet u"
    "net_inv u ps qs (insert b (insert inbuf R))" "kend u = kend s" "valid_page (kend s) b" "b \<notin> insert inbuf R"
    "tx_ring u = tx_ring s" "tx_tail u = tx_tail s"
    by (rule arp_reply_built [OF assms(1-4)])
  have vb: "valid_page (kend u) b" "valid_page (kend u) inbuf" "inbuf \<notin> insert b R" using u assms(4,5) by auto
  have tr: "e1000_transmit b ?n u = Some (-1, u)" using transmit_net_eq [OF u(2,3)] full u(7,8) by simp
  have iu: "net_inv u ps qs (insert inbuf (insert b R))" using u(3) by (simp add: insert_commute)
  note kf = net_inv_kfree [OF iu vb(2,3)]
  have "arp_rx inbuf s = Some (push_page inbuf u)" using u(1) tr kf(1) by simp
  moreover have "b \<notin> set ((inbuf # ps) @ owned (push_page inbuf u) qs)" using kf(2) by (auto simp: net_inv_def)
  ultimately show ?thesis using kf(2) u(7) by (intro exI [of _ "push_page inbuf u"]) simp
qed

theorem arp_reply_page_lost_witness:
  "\<exists>(s :: net) s' b ps qs R. net_inv s (b # ps) qs R \<and> arp_rx (sample_page 7) s = Some s' \<and>
    net_inv s' (sample_page 7 # ps) qs R \<and> b \<notin> set ((sample_page 7 # ps) @ owned s' qs)"
proof -
  let ?s = "booted sample_mem" and ?p = "sample_page 26" and ?i = "sample_page 7"
  let ?t = "?s\<lparr>freelist := ld64 (mem ?s) ?p\<rparr>"
  have i: "net_inv ?s (?p # sample_pool 27 80) [] sample_own" using booted(2) sample_pool_Cons [of 26 80] by simp
  note ka = net_inv_kalloc [OF i]
  have t: "quiet ?t" "valid_page (kend ?t) ?p" "\<not> seen_arp ?t" "tx_tail ?t = 0"
    using booted [of sample_mem] ka(3) by (simp_all add: tx_tail_def TX_RING_SIZE_def)
  have dd: "tx_status (tx_ring ?t ! 0) AND E1000_TXD_STAT_DD \<noteq> 0" using booted(14) by (simp add: TX_RING_SIZE_def E1000_TXD_STAT_DD_def)
  show ?thesis
  proof (cases rule: transmit_inv [OF t(1) ka(2) t(2) ka(4), where len = 60, case_names full sent])
    case full
    then show ?thesis using dd t(4) by simp
  next
    case (sent s1 ps1)
    define s2 where "s2 = set_reg E1000_TDT 0 s1"
    have "length (sample_pool 27 80) \<le> length ps1" by (rule sent(7))
    then obtain b ps where ps: "ps1 = b # ps" using sample_pool_props(4) [of 80 27] by (cases ps1) auto
    have own: "insert ?i (sample_own - {?i}) = sample_own" using sample_own_iff [of 7] by auto
    have i2: "net_inv s2 (b # ps) [] (insert ?i (sample_own - {?i}))"
      using sent(3) unfolding ps own s2_def by (rule net_inv_set_reg) (simp add: e1000_regs)
    have s2: "\<not> seen_arp s2" "quiet s2" "valid_page (kend s2) ?i" "tx_status (tx_ring s2 ! tx_tail s2) AND E1000_TXD_STAT_DD = 0"
      using sent(2,5,9,13) t(3,4) booted(5) [of sample_mem] sample_page_valid [of 7]
      by (simp_all add: s2_def set_reg_def quiet_def tx_tail_def TX_RING_SIZE_def)
    from arp_reply_page_lost [OF s2(1,2) i2 s2(3) _ s2(4)] obtain s' where
      "arp_rx ?i s2 = Some s'" "net_inv s' (?i # ps) [] (insert b (sample_own - {?i}))" "b \<notin> set ((?i # ps) @ owned s' [])" by auto
    moreover have "net_inv s2 (b # ps) [] (sample_own - {?i})" using i2 by (rule net_inv_less) auto
    moreover have "net_inv s' (?i # ps) [] (sample_own - {?i})" using calculation(2) by (rule net_inv_less) auto
    ultimately show ?thesis by blast
  qed
qed

lemma negative_len:
  fixes len :: u32
  assumes "sint len < 0"
  shows "\<not> sint (len + 42) > 4096" "2 ^ 63 \<le> unat (scast len :: u64)"
proof -
  have r: "- (2 ^ 31) \<le> sint len" using sint_ge [of len] by simp
  have "sint (len + 42) = signed_take_bit 31 (sint len + 42)" by (simp add: sint_word_add)
  also have "\<dots> = sint len + 42" using r assms by (intro signed_take_bit_int_eq_self) simp_all
  finally show "\<not> sint (len + 42) > 4096" using assms by simp
  have "uint (of_int k :: u64) = k + 2 ^ 64" if "- (2 ^ 31) \<le> k" "k < 0" for k
  proof -
    have "take_bit 64 (k + 2 ^ 64) = take_bit 64 k" by (simp add: take_bit_eq_mod)
    moreover have "take_bit 64 (k + 2 ^ 64) = k + 2 ^ 64" using that by (intro take_bit_int_eq_self) simp_all
    ultimately show ?thesis using that by (simp add: unsigned_of_int)
  qed
  from this [of "sint len"] have u: "uint (scast len :: u64) = sint len + 2 ^ 64" using r assms by simp
  have "unat (scast len :: u64) = nat (sint len + 2 ^ 64)" by (simp only: unat_eq_nat_uint u)
  then show "2 ^ 63 \<le> unat (scast len :: u64)" using r by simp
qed

lemma page_rest_aligned: "page_aligned va \<Longrightarrow> page_rest va = 4096"
  by (simp add: page_rest_def page_aligned_unat)

lemma uframes_page:
  assumes "page_aligned va"
  shows "uframes m pgdir va 4096 = {upage m pgdir va}"
proof -
  have "upage m pgdir (va + of_nat i) = upage m pgdir va" if "i < 4096" for i
    using that page_rest_aligned [OF assms] by (simp add: upage_same_page)
  then show ?thesis by (auto simp: uframes_def intro!: image_eqI [of _ _ 0])
qed

text \<open>A write that runs over the end of a page.\<close>

lemma overrun_split:
  assumes "length bs = 4096"
  shows "mwrite m (buf + 42) bs = mwrite (mwrite m (buf + 42) (take 4054 bs)) (buf + 4096) (drop 4054 bs)"
  using mwrite_append [of "take 4054 bs" "drop 4054 bs" m "buf + 42"] assms by (simp add: add.assoc)

lemma overrun_agree:
  assumes "length bs = 4096" "page_aligned buf" "aligned_set P" "buf \<notin> P" "buf + 4096 \<notin> P"
  shows "agree m (mwrite m (buf + 42) bs) P"
proof -
  have "page_aligned (4096 :: u64)" by (simp add: page_aligned_def)
  then have b: "page_aligned (buf + 4096)" using assms(2) by (rule page_aligned_add [rotated])
  have "agree m (mwrite m (buf + 42) (take 4054 bs)) P" using assms by (intro agree_mwrite [of buf]) (simp_all add: within_def)
  moreover have "agree (mwrite m (buf + 42) (take 4054 bs)) (mwrite (mwrite m (buf + 42) (take 4054 bs)) (buf + 4096) (drop 4054 bs)) P"
    using assms b by (intro agree_mwrite [of "buf + 4096"]) (simp_all add: within_def)
  ultimately show ?thesis unfolding overrun_split [OF assms(1)] by (rule agree_trans)
qed

text \<open>C10: A negative length passes the size check of \<open>send\<close>. When the caller's buffer is one mapped page followed by
  an unmapped one, the call returns -1, but the whole page was first copied behind the headers: the last
  42 bytes of the caller's page end up in the kernel page that follows the frame.\<close>

theorem send_negative_length_overruns:
  fixes s :: "'a net_scheme"
  assumes "quiet s" "net_inv s (buf # ps) qs R" "send_call s = Some (pgdir, a)" and neg: "sint (sa_len a) < 0"
    and asp: "aspace (mem s) pgdir T U" "T \<union> U \<subseteq> R" "buf + 4096 \<notin> T"
    and va: "page_aligned (sa_buf a)" "upage (mem s) pgdir (sa_buf a) \<noteq> 0" "upage (mem s) pgdir (sa_buf a + 4096) = 0"
  shows "\<exists>s'. sys_send s = Some (-1, s') \<and>
    mread (mem s') (buf + 4096) 42 = drop 4054 (ubytes (mem s) pgdir (sa_buf a) 4096)"
proof -
  note ka = net_inv_kalloc [OF assms(2)]
  note kb = valid_page_bound [OF net_inv_wf(5) [OF assms(2)] ka(3)]
  let ?f = "args_frame buf a (mem s)" and ?L = "scast (sa_len a) :: u64" and ?va = "sa_buf a"
  let ?u = "s\<lparr>freelist := ld64 (mem s) buf, mem := ?f\<rparr>" and ?bs = "ubytes (mem s) pgdir (sa_buf a) 4096"
  have R: "aligned_set R" using assms(2) by (simp add: net_inv_def)
  have bT: "buf \<notin> T \<union> U" "aligned_set (T \<union> U)" using ka(4) asp(2) R by (auto simp: aligned_set_def)
  have ag: "agree (mem s) ?f (T \<union> U)" using kb(2) bT(2,1) by (rule send_frame_agree)
  then have agT: "agree (mem s) ?f T" by (simp add: agree_Un)
  note au = aspace_agree [OF asp(1) agT]
  note pr = page_rest_aligned [OF va(1)]
  have fr: "uframes (mem s) pgdir ?va 4096 = {upage (mem s) pgdir ?va}" using va(1) by (rule uframes_page)
  have ub: "ubytes ?f pgdir ?va 4096 = ?bs" using ubytes_agree [OF asp(1) ag, of ?va 4096] va(2) by (simp add: fr)
  define m1 where "m1 = mwrite ?f (buf + 42) ?bs"
  have lb: "length ?bs = 4096" by (simp add: ubytes_def)
  have L: "0 < ?L" "min (page_rest ?va) (unat ?L) = 4096" "0 < ?L - 4096"
    using negative_len(2) [OF neg] by (simp_all add: pr word_less_nat_alt unat_sub word_le_nat_alt)
  have "unat (buf + 42) + 4096 < 2 ^ 64" using kb(1) unat_sum_no_wrap [of buf 42] by simp
  then have t1: "copyin_user pgdir (buf + 42) ?va ?L ?u = copyin_user pgdir (buf + 42 + 4096) (?va + 4096) (?L - 4096) (?u\<lparr>mem := m1\<rparr>)"
    using copyin_turn [of ?u pgdir ?va ?L "buf + 42"] L au(2) va(2) ub by (simp add: m1_def)
  have "agree ?f m1 T" unfolding m1_def using lb kb(2) bT asp by (intro overrun_agree) (auto simp: aligned_set_def)
  then have "upage m1 pgdir (?va + 4096) = 0" using aspace_agree(2) [OF au(1)] au(2) va(3) by simp
  then have t2: "copyin_user pgdir (buf + 42 + 4096) (?va + 4096) (?L - 4096) (?u\<lparr>mem := m1\<rparr>) = Some (-1, ?u\<lparr>mem := m1\<rparr>)"
    using L(3) by (subst copyin_user.simps) (simp add: uva2ka_read)
  have "kmem_lockable (?u\<lparr>mem := m1\<rparr>)" using assms(1) by (intro lockable_quiet) simp
  then have k: "kfree buf (?u\<lparr>mem := m1\<rparr>) = Some (push_page buf (?u\<lparr>mem := m1\<rparr>))" using kfree_eq [of "?u\<lparr>mem := m1\<rparr>" buf] ka(3) by (simp add: push_page_def)
  have res: "sys_send s = Some (-1, cprintf ''send: copyin failed'' [] (push_page buf (?u\<lparr>mem := m1\<rparr>)))"
    using sys_send_eq [OF assms(3)] negative_len(1) [OF neg] ka(1) kb(3) t1 t2 k by simp
  have rd: "mread m1 (buf + 4096) 42 = drop 4054 ?bs"
    unfolding m1_def overrun_split [OF lb] using lb by (simp add: mread_mwrite_same)
  have ag1: "agree m1 (mem (push_page buf (?u\<lparr>mem := m1\<rparr>))) {buf + 4096}"
    using kb(2) page_aligned_add [OF kb(2), of 4096] by (simp add: push_page_def) (intro kfree_agree, simp_all add: aligned_set_def page_aligned_def)
  have "within (buf + 4096) (buf + 4096) 42" by (simp add: within_def)
  from agree_mread [OF ag1 _ this] rd have "mread (mem (push_page buf (?u\<lparr>mem := m1\<rparr>))) (buf + 4096) 42 = drop 4054 ?bs" by (simp only: singletonI)
  moreover have "mem (cprintf ''send: copyin failed'' [] t) = mem t" for t :: "'a net_scheme" by (simp add: cprintf_def)
  ultimately show ?thesis unfolding res by auto
qed

theorem send_negative_length_overruns_witness:
  "\<exists>(s :: net) s'. sys_send s = Some (-1, s') \<and>
    mread (mem s') (sample_page 27) 42 = drop 4054 (ubytes (mem s) (sample_page 0) 4096 4096)"
proof -
  let ?m = "sample_args 5 9 7 4096 0xffffffff sample_mem"
  let ?s = "booted ?m" and ?a = "\<lparr>sa_sport = 5, sa_dst = 9, sa_dport = 7, sa_buf = 4096, sa_len = 0xffffffff\<rparr>"
  have "agree ?m (mem ?s) (sample_page ` {0..<7})" by (rule agree_mono [OF booted(4)]) (auto simp: sample_own_def)
  then have c: "sample_caller [5, 9, 7, 4096, 0xffffffff] ?s" using booted [of ?m] by (simp add: sample_caller_def)
  have call: "send_call ?s = Some (sample_page 0, ?a)" using sample_call(2) [OF c] by simp
  have asp: "aspace (mem ?s) (sample_page 0) (sample_page ` {0, 1, 2, 3}) {sample_page 4}" by (rule sample_aspace [OF c])
  have i: "net_inv ?s (sample_page 26 # sample_pool 27 80) [] sample_own" using booted(2) [of ?m] sample_pool_Cons [of 26 80] by simp
  have nx: "sample_page 26 + 4096 = sample_page 27" by (simp add: sample_page_def)
  have z: "upage (mem ?s) (sample_page 0) 8192 = 0" using sample_unmapped [OF c, of 8192] by (simp add: PTX_def)
  have "upage (mem ?s) (sample_page 0) 4096 \<noteq> 0" using sample_user_frame [OF c, of 4096] by simp
  then have "\<exists>s'. sys_send ?s = Some (-1, s') \<and> mread (mem s') (sample_page 26 + 4096) 42 = drop 4054 (ubytes (mem ?s) (sample_page 0) (sa_buf ?a) 4096)"
    by (intro send_negative_length_overruns [OF booted(1) i call _ asp])
      (use z in \<open>auto simp: nx sample_own_def sample_page_eq_iff page_aligned_def PGSIZE_def\<close>)
  then show ?thesis unfolding nx by auto
qed

end
