(* ===== verification/Pci.thy ===== *)
theory Pci
  imports Nic
begin

text \<open>
  Discovery of the network card (\<^verbatim>\<open>pci.c\<close>) and the I/O interrupt controller (\<^verbatim>\<open>ioapic.c\<close>).

  The host bridge answers at two ports: the address register latches a configuration address, and
  the data port reads or writes the register it names. The I/O APIC has the same shape in memory.
  Both register files are functions of the address.
\<close>

section \<open>The devices\<close>

record platform =
  pci_latch :: u32
  pci_cfg :: "u32 \<Rightarrow> u32"
  apic_reg :: u32
  apic_data :: "u32 \<Rightarrow> u32"

text \<open>\<open>outl\<close> and \<open>inl\<close> on the two configuration ports.\<close>

definition out_config_addr :: "u32 \<Rightarrow> platform \<Rightarrow> platform" where
  "out_config_addr a p = p\<lparr>pci_latch := a\<rparr>"

definition in_config_data :: "platform \<Rightarrow> u32" where
  "in_config_data p = pci_cfg p (pci_latch p)"

definition out_config_data :: "u32 \<Rightarrow> platform \<Rightarrow> platform" where
  "out_config_data v p = p\<lparr>pci_cfg := (pci_cfg p)(pci_latch p := v)\<rparr>"

section \<open>Configuration space\<close>

definition PCI_ADDR :: "u32 \<Rightarrow> u32 \<Rightarrow> u32 \<Rightarrow> u32 \<Rightarrow> u32" where
  "PCI_ADDR bus dev func off =
     0x80000000 OR push_bit 16 bus OR push_bit 11 dev OR push_bit 8 func OR (off AND 0xFC)"

definition PCI_VENDOR_ID :: u32 where "PCI_VENDOR_ID = 0x00"
definition PCI_COMMAND :: u32 where "PCI_COMMAND = 0x04"
definition PCI_BAR0 :: u32 where "PCI_BAR0 = 0x10"
definition PCI_INT_LINE :: u32 where "PCI_INT_LINE = 0x3C"
definition E1000_VENDOR :: u32 where "E1000_VENDOR = 0x8086"
definition E1000_DEVICE :: u32 where "E1000_DEVICE = 0x100E"
definition PCI_CMD_MEM :: u32 where "PCI_CMD_MEM = 2"
definition PCI_CMD_BUSMSTR :: u32 where "PCI_CMD_BUSMSTR = 4"

definition pci_read :: "u32 \<Rightarrow> u32 \<Rightarrow> u32 \<Rightarrow> u32 \<Rightarrow> platform \<Rightarrow> u32 \<times> platform" where
  "pci_read bus dev func off p =
     (let p = out_config_addr (PCI_ADDR bus dev func off) p in (in_config_data p, p))"

definition pci_write :: "u32 \<Rightarrow> u32 \<Rightarrow> u32 \<Rightarrow> u32 \<Rightarrow> u32 \<Rightarrow> platform \<Rightarrow> platform" where
  "pci_write bus dev func off val p =
     out_config_data val (out_config_addr (PCI_ADDR bus dev func off) p)"

section \<open>The I/O APIC\<close>

definition REG_ID :: u32 where "REG_ID = 0"
definition REG_VER :: u32 where "REG_VER = 1"
definition REG_TABLE :: u32 where "REG_TABLE = 0x10"
definition INT_DISABLED :: u32 where "INT_DISABLED = 0x00010000"
definition T_IRQ0 :: u32 where "T_IRQ0 = 32"

definition ioapicread :: "u32 \<Rightarrow> platform \<Rightarrow> u32 \<times> platform" where
  "ioapicread reg p = (let p = p\<lparr>apic_reg := reg\<rparr> in (apic_data p (apic_reg p), p))"

definition ioapicwrite :: "u32 \<Rightarrow> u32 \<Rightarrow> platform \<Rightarrow> platform" where
  "ioapicwrite reg d p = (let p = p\<lparr>apic_reg := reg\<rparr> in p\<lparr>apic_data := (apic_data p)(apic_reg p := d)\<rparr>)"

primrec ioapic_clear :: "nat \<Rightarrow> platform \<Rightarrow> platform" where
  "ioapic_clear 0 p = p"
| "ioapic_clear (Suc i) p =
     (let p = ioapic_clear i p;
          p = ioapicwrite (REG_TABLE + 2 * of_nat i) (INT_DISABLED OR (T_IRQ0 + of_nat i)) p
      in ioapicwrite (REG_TABLE + 2 * of_nat i + 1) 0 p)"

text \<open>The loop runs for \<open>i = 0 .. maxintr\<close>; \<open>ioapicid\<close> is what the MP table announced.\<close>

definition ioapicinit :: "u32 \<Rightarrow> platform \<Rightarrow> 'z kstate_scheme \<Rightarrow> platform \<times> 'z kstate_scheme" where
  "ioapicinit ioapicid p s =
     (let (v, p) = ioapicread REG_VER p;
          maxintr = drop_bit 16 v AND 0xFF;
          (i, p) = ioapicread REG_ID p;
          ident = drop_bit 24 i;
          s = (if ident \<noteq> ioapicid then cprintf ''ioapicinit: id isnt equal to ioapicid; not a MP'' [] s else s)
      in (ioapic_clear (unat maxintr + 1) p, s))"

definition ioapicenable :: "u32 \<Rightarrow> u32 \<Rightarrow> platform \<Rightarrow> platform" where
  "ioapicenable irq cpunum p =
     (let p = ioapicwrite (REG_TABLE + 2 * irq) (T_IRQ0 + irq) p
      in ioapicwrite (REG_TABLE + 2 * irq + 1) (push_bit 24 cpunum) p)"

section \<open>The scan of bus 0\<close>

text \<open>What is done with the first card found, at slot \<open>dev\<close>.\<close>

definition pci_attach :: "u32 \<Rightarrow> platform \<Rightarrow> 'z e1000_scheme \<Rightarrow> (platform \<times> 'z e1000_scheme) option" where
  "pci_attach dev p s = do {
     let s = cprintf ''pci: found e1000 device at slot %d'' [ucast dev] s;
     let (cmd, p) = pci_read 0 dev 0 PCI_COMMAND p;
     let cmd = cmd OR (PCI_CMD_MEM OR PCI_CMD_BUSMSTR);
     let p = pci_write 0 dev 0 PCI_COMMAND cmd p;
     let (bar, p) = pci_read 0 dev 0 PCI_BAR0 p;
     let bar0 = bar AND NOT 0xF;
     let vbar = P2V (ucast bar0);
     s \<leftarrow> e1000_init vbar s;
     let (line, p) = pci_read 0 dev 0 PCI_INT_LINE p;
     let irq = line AND 0xFF;
     Some (ioapicenable irq 0 p, s)
   }"

fun pci_scan :: "u32 list \<Rightarrow> platform \<Rightarrow> 'z e1000_scheme \<Rightarrow> (platform \<times> 'z e1000_scheme) option" where
  "pci_scan [] p s = Some (p, cprintf ''pci: no e1000 device found'' [] s)"
| "pci_scan (dev # devs) p s =
     (let (ident, p) = pci_read 0 dev 0 PCI_VENDOR_ID p in
      if ident = 0xFFFFFFFF then pci_scan devs p s
      else if ident AND 0xFFFF = E1000_VENDOR \<and> drop_bit 16 ident = E1000_DEVICE then pci_attach dev p s
      else pci_scan devs p s)"

definition pci_init :: "platform \<Rightarrow> 'z e1000_scheme \<Rightarrow> (platform \<times> 'z e1000_scheme) option" where
  "pci_init p s = pci_scan (map of_nat [0..<32]) p s"

end
