(* ===== verification/Format.thy ===== *)
theory Format
  imports Prelude
begin

text \<open>
  Formatted output: the number printers and the format loop that \<^verbatim>\<open>console.c\<close> (\<open>cprintf\<close>) and
  \<^verbatim>\<open>printf.c\<close> (\<open>printf\<close>) share, and \<open>atoi\<close> of \<^verbatim>\<open>ulib.c\<close>, which reads numbers back.

  What the kernel's printers hand to \<open>consputc\<close> and what the user's hand to \<open>putc\<close> is given as the list of
  characters in order; a format is the list of its bytes before the NUL.
\<close>

section \<open>Numbers\<close>

definition digits :: "byte list" where
  "digits = [48, 49, 50, 51, 52, 53, 54, 55, 56, 57, 97, 98, 99, 100, 101, 102]"

text \<open>The loop of \<open>print_x64\<close> and \<open>print_x32\<close>: the top four bits, then a shift to the left.\<close>

primrec print_hex :: "nat \<Rightarrow> 'a::len word \<Rightarrow> byte list" where
  "print_hex 0 x = []"
| "print_hex (Suc n) x = digits ! unat (drop_bit (LENGTH('a) - 4) x) # print_hex n (push_bit 4 x)"

definition print_x64 :: "u64 \<Rightarrow> byte list" where "print_x64 x = print_hex 16 x"
definition print_x32 :: "u32 \<Rightarrow> byte list" where "print_x32 x = print_hex 8 x"

text \<open>The digits as \<open>print_d\<close> stores them in \<open>buf\<close>, the lowest first.\<close>

function dec_digits :: "nat \<Rightarrow> byte list" where
  "dec_digits x = digits ! (x mod 10) # (if x div 10 \<noteq> 0 then dec_digits (x div 10) else [])"
  by pat_completeness auto
termination by (relation "measure id") auto

declare dec_digits.simps [simp del]

text \<open>\<open>x\<close> is an \<open>int64\<close>, so that the negation of the smallest \<open>int\<close> does not overflow.\<close>

definition print_d :: "u32 \<Rightarrow> byte list" where
  "print_d v =
     (let buf = dec_digits (nat (if sint v < 0 then - sint v else sint v));
          buf = (if sint v < 0 then buf @ [45] else buf)
      in rev buf)"

text \<open>\<open>atoi\<close>: \<open>n = n*10 + *s++ - '0'\<close> in 32-bit arithmetic.\<close>

fun atoi_loop :: "u32 \<Rightarrow> byte list \<Rightarrow> u32" where
  "atoi_loop n [] = n"
| "atoi_loop n (c # s) = (if 48 \<le> c \<and> c \<le> 57 then atoi_loop (n * 10 + ucast c - 48) s else n)"

definition atoi :: "byte list \<Rightarrow> u32" where "atoi s = atoi_loop 0 s"

section \<open>The format loop\<close>

datatype parg = Arg32 u32 | Arg64 u64 | Arg_str "byte list option"

text \<open>\<open>va_arg\<close> of a type that is not the argument's, or past the last one, has no meaning: \<open>None\<close>.\<close>

definition arg_s :: "byte list option \<Rightarrow> byte list" where
  "arg_s s = (case s of None \<Rightarrow> [40, 110, 117, 108, 108, 41] | Some cs \<Rightarrow> cs)"

fun cformat :: "byte list \<Rightarrow> parg list \<Rightarrow> byte list option" where
  "cformat [] args = Some []"
| "cformat (c # fmt) args =
     (if c \<noteq> 37 then map_option ((#) c) (cformat fmt args)
      else case fmt of [] \<Rightarrow> Some []
      | d # fmt \<Rightarrow>
          if d = 100 then
            (case args of Arg32 v # args \<Rightarrow> map_option ((@) (print_d v)) (cformat fmt args) | _ \<Rightarrow> None)
          else if d = 120 then
            (case args of Arg32 v # args \<Rightarrow> map_option ((@) (print_x32 v)) (cformat fmt args) | _ \<Rightarrow> None)
          else if d = 112 then
            (case args of Arg64 v # args \<Rightarrow> map_option ((@) (print_x64 v)) (cformat fmt args) | _ \<Rightarrow> None)
          else if d = 115 then
            (case args of Arg_str s # args \<Rightarrow> map_option ((@) (arg_s s)) (cformat fmt args) | _ \<Rightarrow> None)
          else if d = 37 then map_option ((#) 37) (cformat fmt args)
          else map_option (\<lambda>out. 37 # d # out) (cformat fmt args))"

text \<open>
  The user's \<open>printf\<close>: each character is a \<open>write\<close> of one byte to \<open>fd\<close>. It also knows \<open>%c\<close>.
\<close>

type_synonym fdout = "(nat \<times> byte) list"

definition putc :: "nat \<Rightarrow> byte \<Rightarrow> fdout" where "putc fd c = [(fd, c)]"

primrec fd_print_hex :: "nat \<Rightarrow> nat \<Rightarrow> 'a::len word \<Rightarrow> fdout" where
  "fd_print_hex fd 0 x = []"
| "fd_print_hex fd (Suc n) x =
     putc fd (digits ! unat (drop_bit (LENGTH('a) - 4) x)) @ fd_print_hex fd n (push_bit 4 x)"

definition fd_print_x64 :: "nat \<Rightarrow> u64 \<Rightarrow> fdout" where "fd_print_x64 fd x = fd_print_hex fd 16 x"
definition fd_print_x32 :: "nat \<Rightarrow> u32 \<Rightarrow> fdout" where "fd_print_x32 fd x = fd_print_hex fd 8 x"

definition fd_print_d :: "nat \<Rightarrow> u32 \<Rightarrow> fdout" where
  "fd_print_d fd v =
     (let buf = dec_digits (nat (if sint v < 0 then - sint v else sint v));
          buf = (if sint v < 0 then buf @ [45] else buf)
      in concat (map (putc fd) (rev buf)))"

fun printf :: "nat \<Rightarrow> byte list \<Rightarrow> parg list \<Rightarrow> fdout option" where
  "printf fd [] args = Some []"
| "printf fd (c # fmt) args =
     (if c \<noteq> 37 then map_option ((@) (putc fd c)) (printf fd fmt args)
      else case fmt of [] \<Rightarrow> Some []
      | d # fmt \<Rightarrow>
          if d = 99 then
            (case args of Arg32 v # args \<Rightarrow> map_option ((@) (putc fd (ucast v))) (printf fd fmt args) | _ \<Rightarrow> None)
          else if d = 100 then
            (case args of Arg32 v # args \<Rightarrow> map_option ((@) (fd_print_d fd v)) (printf fd fmt args) | _ \<Rightarrow> None)
          else if d = 120 then
            (case args of Arg32 v # args \<Rightarrow> map_option ((@) (fd_print_x32 fd v)) (printf fd fmt args) | _ \<Rightarrow> None)
          else if d = 112 then
            (case args of Arg64 v # args \<Rightarrow> map_option ((@) (fd_print_x64 fd v)) (printf fd fmt args) | _ \<Rightarrow> None)
          else if d = 115 then
            (case args of Arg_str s # args \<Rightarrow>
               map_option ((@) (concat (map (putc fd) (arg_s s)))) (printf fd fmt args) | _ \<Rightarrow> None)
          else if d = 37 then map_option ((@) (putc fd 37)) (printf fd fmt args)
          else map_option (\<lambda>out. putc fd 37 @ putc fd d @ out) (printf fd fmt args))"

section \<open>Reading the numbers back\<close>

definition digit_val :: "byte \<Rightarrow> nat" where
  "digit_val c = (if c \<le> 57 then unat c - 48 else unat c - 87)"

definition hex_val :: "byte list \<Rightarrow> nat" where
  "hex_val cs = foldl (\<lambda>a c. a * 16 + digit_val c) 0 cs"

lemma lt_numeral_cases: "(n :: nat) < 16 \<Longrightarrow> n \<in> {0, 1, 2, 3, 4, 5, 6, 7, 8, 9, 10, 11, 12, 13, 14, 15}"
  by (simp add: insert_iff) arith

lemma digit_val_digits: "n < 16 \<Longrightarrow> digit_val (digits ! n) = n"
  by (drule lt_numeral_cases) (auto simp: digits_def digit_val_def)

lemma digits_decimal:
  assumes "n < 10"
  shows "48 \<le> digits ! n \<and> digits ! n \<le> 57 \<and> ucast (digits ! n) - 48 = (of_nat n :: u32)"
proof -
  have "n \<in> {0, 1, 2, 3, 4, 5, 6, 7, 8, 9}" using assms by auto
  then show ?thesis by (auto simp: digits_def)
qed

lemma hex_val_acc: "foldl (\<lambda>a c. a * 16 + digit_val c) a cs = a * 16 ^ length cs + hex_val cs"
proof (induction cs arbitrary: a)
  case (Cons c cs)
  show ?case using Cons.IH [of "a * 16 + digit_val c"] Cons.IH [of "digit_val c"]
    by (simp add: hex_val_def algebra_simps)
qed (simp add: hex_val_def)

lemma hex_val_Cons: "hex_val (c # cs) = digit_val c * 16 ^ length cs + hex_val cs"
  using hex_val_acc [of "digit_val c" cs] by (simp add: hex_val_def)

lemma length_print_hex [simp]: "length (print_hex n x) = n"
  by (induction n arbitrary: x) simp_all

lemma shift4_div:
  fixes X L m :: nat
  assumes "X < 2 ^ L" "4 \<le> L" "m + 4 \<le> L"
  shows "(X * 16 mod 2 ^ L) div 2 ^ (m + 4) + X div 2 ^ (L - 4) * 2 ^ (L - 4 - m) = X div 2 ^ m"
proof -
  obtain j where L: "L = m + 4 + j" using assms(3) le_Suc_ex by blast
  have e: "(2::nat) ^ L = 2 ^ (m + j) * 16" "L - 4 = m + j" "L - 4 - m = j" by (simp_all add: L power_add)
  have "(X * 16 mod 2 ^ L) div 2 ^ (m + 4) = X mod 2 ^ (m + j) div 2 ^ m"
    by (simp add: e mult_mod_left [symmetric] power_add div_mult_mult2)
  moreover have "X = X div 2 ^ (m + j) * 2 ^ j * 2 ^ m + X mod 2 ^ (m + j)"
    using div_mult_mod_eq [of X "2 ^ (m + j)"] by (simp add: power_add mult.assoc mult.commute [of "2 ^ m"])
  then have "X div 2 ^ m = X div 2 ^ (m + j) * 2 ^ j + X mod 2 ^ (m + j) div 2 ^ m"
    by (metis div_mult_self3 power_not_zero zero_neq_numeral add.commute mult.commute)
  ultimately show ?thesis by (simp add: e)
qed

lemma hex_val_print:
  fixes x :: "'a::len word"
  assumes "4 \<le> LENGTH('a)" "4 * n \<le> LENGTH('a)"
  shows "hex_val (print_hex n x) = unat x div 2 ^ (LENGTH('a) - 4 * n)"
  using assms(2)
proof (induction n arbitrary: x)
  case 0
  then show ?case by (simp add: hex_val_def)
next
  case (Suc n)
  let ?L = "LENGTH('a)"
  have x: "unat x < 2 ^ ?L" by (rule unsigned_less)
  have top: "unat (drop_bit (?L - 4) x) = unat x div 2 ^ (?L - 4)" using x by (simp only: unsigned_drop_bit_eq) (simp add: drop_bit_eq_div take_bit_eq_mod)
  have "unat x div 2 ^ (?L - 4) < 16"
  proof (rule less_mult_imp_div_less)
    have "(2::nat) ^ ?L = 16 * 2 ^ (?L - 4)" using assms(1) power_add [of "2::nat" 4 "?L - 4"] by simp
    then show "unat x < 16 * 2 ^ (?L - 4)" using x by simp
  qed
  then have d: "digit_val (digits ! unat (drop_bit (?L - 4) x)) = unat x div 2 ^ (?L - 4)"
    using digit_val_digits top by simp
  have sh: "unat (push_bit 4 x) = unat x * 16 mod 2 ^ ?L"
    by (simp only: unsigned_push_bit_eq) (simp add: push_bit_eq_mult take_bit_eq_mod)
  define k where "k = ?L - 4 * Suc n"
  have m: "?L - 4 * n = k + 4" "?L - 4 - k = 4 * n" "k + 4 \<le> ?L" using Suc.prems by (simp_all add: k_def)
  have ih: "hex_val (print_hex n (push_bit 4 x)) = (unat x * 16 mod 2 ^ ?L) div 2 ^ (k + 4)"
    using Suc.IH [of "push_bit 4 x"] Suc.prems unfolding sh m(1) by simp
  have p: "(16::nat) ^ n = 2 ^ (4 * n)" by (simp add: power_mult)
  have "hex_val (print_hex (Suc n) x) = unat x div 2 ^ (?L - 4) * 2 ^ (4 * n) + (unat x * 16 mod 2 ^ ?L) div 2 ^ (k + 4)"
    unfolding print_hex.simps hex_val_Cons d ih length_print_hex p ..
  also have "\<dots> = unat x div 2 ^ (?L - 4 * Suc n)"
    using shift4_div [OF x assms(1) m(3), unfolded m(2)] unfolding k_def [symmetric] by linarith
  finally show ?case .
qed

lemma atoi_append:
  "list_all (\<lambda>c. 48 \<le> c \<and> c \<le> 57) a \<Longrightarrow> atoi_loop n (a @ b) = atoi_loop (atoi_loop n a) b"
  by (induction a arbitrary: n) simp_all

lemma dec_digits_decimal: "list_all (\<lambda>c. 48 \<le> c \<and> c \<le> 57) (dec_digits x)"
proof (induction x rule: dec_digits.induct)
  case (1 x)
  then show ?case by (subst dec_digits.simps) (use digits_decimal [of "x mod 10"] in simp)
qed

lemma atoi_dec_digits: "atoi_loop 0 (rev (dec_digits x)) = of_nat x"
proof (induction x rule: dec_digits.induct)
  case (1 x)
  have d: "48 \<le> digits ! (x mod 10)" "digits ! (x mod 10) \<le> 57"
    "ucast (digits ! (x mod 10)) - 48 = (of_nat (x mod 10) :: u32)"
    using digits_decimal [of "x mod 10"] by simp_all
  show ?case
  proof (cases "x div 10 = 0")
    case True
    then show ?thesis using d by (subst dec_digits.simps) simp
  next
    case False
    have "atoi_loop 0 (rev (dec_digits x)) = of_nat (x div 10) * 10 + ucast (digits ! (x mod 10)) - 48"
      using 1 [OF False] False d(1,2) dec_digits_decimal [of "x div 10"]
      by (subst dec_digits.simps) (simp add: atoi_append list_all_iff)
    also have "\<dots> = of_nat (x div 10) * 10 + of_nat (x mod 10)" using d(3) by (metis add_diff_eq)
    also have "\<dots> = of_nat (x div 10 * 10 + x mod 10)" by (simp only: of_nat_add of_nat_mult of_nat_numeral)
    finally show ?thesis by simp
  qed
qed

lemma dec_digits_length: "x < 10 ^ Suc n \<Longrightarrow> length (dec_digits x) \<le> Suc n"
proof (induction n arbitrary: x)
  case 0
  then show ?case by (subst dec_digits.simps) simp
next
  case (Suc n)
  have "x div 10 < 10 ^ Suc n" using Suc.prems by (simp add: less_mult_imp_div_less)
  then show ?case using Suc.IH by (subst dec_digits.simps) simp
qed

lemma fd_print_hex_eq: "fd_print_hex fd n x = map (Pair fd) (print_hex n x)"
  by (induction n arbitrary: x) (simp_all add: putc_def)

lemma concat_putc: "concat (map (putc fd) cs) = map (Pair fd) cs"
  by (induction cs) (simp_all add: putc_def)

section \<open>Properties\<close>

text \<open>C25: Decimal output, and what \<open>atoi\<close> reads of it: for every 32-bit \<open>int\<close> \<open>print_d\<close> gives at most eleven
  characters (its buffer has sixteen). \<open>atoi\<close> of the output of a number that is not negative is
  that number. The output of a negative number is a minus sign before digits whose \<open>atoi\<close> is its
  negation, the smallest number included, where the negation wraps; \<open>atoi\<close> knows no sign, so on the whole of that
  output it gives 0.\<close>

theorem print_d_atoi:
  "length (print_d v) \<le> 11 \<and>
   (if sint v < 0 then hd (print_d v) = 45 \<and> atoi (tl (print_d v)) = - v \<and> atoi (print_d v) = 0
    else atoi (print_d v) = v)"
proof -
  have b: "- (2 ^ 31) \<le> sint v" "sint v < 2 ^ 31" using sint_ge [of v] sint_lt [of v] by simp_all
  have l: "length (dec_digits (nat (if sint v < 0 then - sint v else sint v))) \<le> 10"
    by (rule dec_digits_length [of _ 9, simplified]) (use b in auto)
  have v: "word_of_int (sint v) = v" by simp
  show ?thesis
  proof (cases "sint v < 0")
    case True
    have "atoi (rev (dec_digits (nat (- sint v)))) = - v"
      using True v by (simp add: atoi_def atoi_dec_digits of_nat_nat)
    then show ?thesis using True l by (simp add: print_d_def atoi_def)
  next
    case False
    then have "atoi (rev (dec_digits (nat (sint v)))) = v"
      using v by (simp add: atoi_def atoi_dec_digits of_nat_nat)
    then show ?thesis using False l by (simp add: print_d_def)
  qed
qed

text \<open>C26: Hexadecimal output loses nothing: \<open>print_x64\<close> and \<open>print_x32\<close> write exactly sixteen and eight
  digits, whose value is the number; and the user's \<open>printf\<close> writes to its descriptor the very
  characters that the kernel's \<open>cprintf\<close> puts on the console for \<open>%p\<close>, \<open>%x\<close> and \<open>%d\<close>.\<close>

theorem print_hex_value:
  "length (print_x64 x) = 16 \<and> hex_val (print_x64 x) = unat x \<and>
   length (print_x32 y) = 8 \<and> hex_val (print_x32 y) = unat y \<and>
   fd_print_x64 fd x = map (Pair fd) (print_x64 x) \<and> fd_print_x32 fd y = map (Pair fd) (print_x32 y) \<and>
   fd_print_d fd y = map (Pair fd) (print_d y)"
proof -
  have "hex_val (print_x64 x) = unat x" using hex_val_print [of 16 x] by (simp add: print_x64_def)
  moreover have "hex_val (print_x32 y) = unat y" using hex_val_print [of 8 y] by (simp add: print_x32_def)
  moreover have "fd_print_d fd y = map (Pair fd) (print_d y)"
    by (simp add: fd_print_d_def print_d_def Let_def concat_putc)
  ultimately show ?thesis
    by (simp add: print_x64_def print_x32_def fd_print_x64_def fd_print_x32_def fd_print_hex_eq)
qed

end
