(* ===== verification/Kbd.thy ===== *)
theory Kbd
  imports Prelude
begin

text \<open>
  The keyboard driver (\<^verbatim>\<open>kbd.c\<close>, \<^verbatim>\<open>kbd.h\<close>): translation of the scan codes that the controller
  delivers into characters, with the shift state that persists between interrupts.

  The controller is a queue of scan codes: the status port shows whether it is empty and the data
  port takes its first byte.
\<close>

section \<open>Constants and tables\<close>

definition KBS_DIB :: u32 where "KBS_DIB = 1"
definition SHIFT :: u32 where "SHIFT = 1"
definition CTL :: u32 where "CTL = 2"
definition ALT :: u32 where "ALT = 4"
definition CAPSLOCK :: u32 where "CAPSLOCK = 8"
definition NUMLOCK :: u32 where "NUMLOCK = 16"
definition SCROLLLOCK :: u32 where "SCROLLLOCK = 32"
definition E0ESC :: u32 where "E0ESC = 64"

lemmas kbd_flags = KBS_DIB_def SHIFT_def CTL_def ALT_def CAPSLOCK_def NUMLOCK_def SCROLLLOCK_def E0ESC_def

definition KEY_UP :: byte where "KEY_UP = 0xE2"
definition KEY_DN :: byte where "KEY_DN = 0xE3"

text \<open>A table with designated initialisers: a dense part from index 0, then the sparse entries.\<close>

definition table :: "byte list \<Rightarrow> (byte \<times> byte) list \<Rightarrow> byte \<Rightarrow> byte" where
  "table dense sparse i =
     (case map_of sparse i of Some c \<Rightarrow> c | None \<Rightarrow> (if unat i < length dense then dense ! unat i else 0))"

definition keypad :: "byte \<Rightarrow> byte \<Rightarrow> (byte \<times> byte) list" where
  "keypad enter slash = [(0x9C, enter), (0xB5, slash), (0xC8, KEY_UP), (0xD0, KEY_DN), (0xC9, 0xE6), (0xD1, 0xE7),
     (0xCB, 0xE4), (0xCD, 0xE5), (0x97, 0xE0), (0xCF, 0xE1), (0xD2, 0xE8), (0xD3, 0xE9)]"

definition shiftcode :: "byte \<Rightarrow> u32" where
  "shiftcode i = (if i = 0x1D \<or> i = 0x9D then CTL else if i = 0x2A \<or> i = 0x36 then SHIFT
     else if i = 0x38 \<or> i = 0xB8 then ALT else 0)"

definition togglecode :: "byte \<Rightarrow> u32" where
  "togglecode i = (if i = 0x3A then CAPSLOCK else if i = 0x45 then NUMLOCK else if i = 0x46 then SCROLLLOCK else 0)"

definition normalmap :: "byte \<Rightarrow> byte" where
  "normalmap = table
     [0, 0x1B, 49, 50, 51, 52, 53, 54,
      55, 56, 57, 48, 45, 61, 8, 9,
      113, 119, 101, 114, 116, 121, 117, 105,
      111, 112, 91, 93, 10, 0, 97, 115,
      100, 102, 103, 104, 106, 107, 108, 59,
      39, 96, 0, 92, 122, 120, 99, 118,
      98, 110, 109, 44, 46, 47, 0, 42,
      0, 32, 0, 0, 0, 0, 0, 0,
      0, 0, 0, 0, 0, 0, 0, 55,
      56, 57, 45, 52, 53, 54, 43, 49,
      50, 51, 48, 46, 0, 0, 0, 0] (keypad 10 47)"

definition shiftmap :: "byte \<Rightarrow> byte" where
  "shiftmap = table
     [0, 0x1B, 33, 64, 35, 36, 37, 94,
      38, 42, 40, 41, 95, 43, 8, 9,
      81, 87, 69, 82, 84, 89, 85, 73,
      79, 80, 123, 125, 10, 0, 65, 83,
      68, 70, 71, 72, 74, 75, 76, 58,
      34, 126, 0, 124, 90, 88, 67, 86,
      66, 78, 77, 60, 62, 63, 0, 42,
      0, 32, 0, 0, 0, 0, 0, 0,
      0, 0, 0, 0, 0, 0, 0, 55,
      56, 57, 45, 52, 53, 54, 43, 49,
      50, 51, 48, 46, 0, 0, 0, 0] (keypad 10 47)"

text \<open>Control characters: \<open>C(x)\<close> is \<open>x - '@'\<close>, as a byte.\<close>

abbreviation ctl :: "byte \<Rightarrow> byte" where "ctl x \<equiv> x - 64"

definition ctlmap :: "byte \<Rightarrow> byte" where
  "ctlmap = table
     [0, 0, 0, 0, 0, 0, 0, 0,
      0, 0, 0, 0, 0, 0, 0, 0,
      ctl 81, ctl 87, ctl 69, ctl 82, ctl 84, ctl 89, ctl 85, ctl 73,
      ctl 79, ctl 80, 0, 0, 13, 0, ctl 65, ctl 83,
      ctl 68, ctl 70, ctl 71, ctl 72, ctl 74, ctl 75, ctl 76, 0,
      0, 0, 0, ctl 92, ctl 90, ctl 88, ctl 67, ctl 86,
      ctl 66, ctl 78, ctl 77, 0, 0, ctl 47, 0, 0] (keypad 13 (ctl 47))"

definition charcode :: "nat \<Rightarrow> byte \<Rightarrow> byte" where
  "charcode i = (if i = 0 then normalmap else if i = 1 then shiftmap else ctlmap)"

section \<open>Reading a key\<close>

text \<open>
  The shift state and the pending scan codes; the result is \<open>None\<close> for \<open>-1\<close> (no data), otherwise
  the character, 0 for a key that gives none.
\<close>

definition kbdgetc :: "u32 \<Rightarrow> byte list \<Rightarrow> byte option \<times> u32 \<times> byte list" where
  "kbdgetc shift q =
     (case q of [] \<Rightarrow> (None, shift, [])
      | data # q \<Rightarrow>
          if data = 0xE0 then (Some 0, shift OR E0ESC, q)
          else if data AND 0x80 \<noteq> 0 then
            let data = (if shift AND E0ESC \<noteq> 0 then data else data AND 0x7F)
            in (Some 0, shift AND NOT (shiftcode data OR E0ESC), q)
          else
            let (data, shift) = (if shift AND E0ESC \<noteq> 0 then (data OR 0x80, shift AND NOT E0ESC) else (data, shift));
                shift = shift OR shiftcode data;
                shift = shift XOR togglecode data;
                c = charcode (unat (shift AND (CTL OR SHIFT))) data;
                c = (if shift AND CAPSLOCK \<noteq> 0 then
                       (if 97 \<le> c \<and> c \<le> 122 then c - 32 else if 65 \<le> c \<and> c \<le> 90 then c + 32 else c)
                     else c)
            in (Some c, shift, q))"

text \<open>The characters of a run of scan codes, as \<open>consoleintr(kbdgetc)\<close> receives them.\<close>

fun kbd_chars :: "u32 \<Rightarrow> byte list \<Rightarrow> byte list \<times> u32" where
  "kbd_chars shift [] = ([], shift)"
| "kbd_chars shift (d # q) =
     (case kbdgetc shift [d] of (None, s, _) \<Rightarrow> ([], s)
      | (Some c, s, _) \<Rightarrow> (let (cs, s) = kbd_chars s q in (c # cs, s)))"

section \<open>Properties\<close>

lemma esc_set: "(shift OR E0ESC) AND E0ESC \<noteq> 0" for shift :: u32
proof
  assume "(shift OR E0ESC) AND E0ESC = 0"
  then have "bit ((shift OR E0ESC) AND E0ESC) 6 = bit (0 :: u32) 6" by simp
  then show False by (simp add: E0ESC_def bit_simps)
qed

lemma release_byte:
  fixes d :: byte
  assumes "d AND 0x80 = 0"
  shows "(d OR 0x80) AND 0x80 \<noteq> 0" "(d OR 0x80) AND 0x7F = d"
proof -
  have "bit ((d OR 0x80) AND 0x80) 7" by (simp add: bit_simps)
  then show "(d OR 0x80) AND 0x80 \<noteq> 0" by (metis bit_0_eq bot_apply bot_bool_def)
  have "\<not> bit (d AND 0x80) 7" using assms by simp
  then have b7: "\<not> bit d 7" by (simp add: bit_simps)
  show "(d OR 0x80) AND 0x7F = d"
  proof (rule bit_eqI)
    fix n
    assume "possible_bit TYPE(byte) n"
    then have "n < 8" by simp
    then have "n \<in> {0, 1, 2, 3, 4, 5, 6, 7}" by auto
    then show "bit ((d OR 0x80) AND 0x7F) n = bit d n" using b7 by (auto simp: bit_simps)
  qed
qed

definition kbd_shift :: "u32 \<Rightarrow> byte \<Rightarrow> u32" where
  "kbd_shift shift d = fst (snd (kbdgetc shift [d]))"

lemma kbd_chars_shift: "snd (kbd_chars shift (d # q)) = snd (kbd_chars (kbd_shift shift d) q)"
  by (simp add: kbd_shift_def kbdgetc_def Let_def split_beta)

lemma shiftcode_esc: "shiftcode d AND E0ESC = 0"
  by (simp add: shiftcode_def kbd_flags)

lemma kbd_shift_esc: "kbd_shift shift 0xE0 = shift OR E0ESC"
  by (simp add: kbd_shift_def kbdgetc_def)

lemma kbd_shift_press:
  assumes "d AND 0x80 = 0"
  shows "kbd_shift shift d = (if shift AND E0ESC \<noteq> 0
     then (shift AND NOT E0ESC OR shiftcode (d OR 0x80)) XOR togglecode (d OR 0x80)
     else (shift OR shiftcode d) XOR togglecode d)"
proof -
  have "d \<noteq> 0xE0" using assms by auto
  then show ?thesis using assms by (simp add: kbd_shift_def kbdgetc_def Let_def)
qed

lemma kbd_shift_release:
  assumes "d AND 0x80 = 0" "d \<noteq> 0x60"
  shows "kbd_shift shift (d OR 0x80) = (if shift AND E0ESC \<noteq> 0
     then shift AND NOT (shiftcode (d OR 0x80) OR E0ESC) else shift AND NOT (shiftcode d OR E0ESC))"
proof -
  have "d OR 0x80 \<noteq> 0xE0"
  proof
    assume "d OR 0x80 = 0xE0"
    then have "d = 0xE0 AND 0x7F" using release_byte(2) [OF assms(1)] by simp
    then show False using assms(2) by simp
  qed
  then show ?thesis using release_byte [OF assms(1)] by (simp add: kbd_shift_def kbdgetc_def Let_def)
qed

lemma togglecode_disjoint:
  "togglecode d AND E0ESC = 0" "togglecode d AND shiftcode e = 0"
  by (simp_all add: togglecode_def shiftcode_def kbd_flags)

lemma press_release_bits:
  fixes s c t e :: u32
  assumes "s AND e = 0" "t AND e = 0" "t AND c = 0"
  shows "((s OR c) XOR t) AND NOT (c OR e) = (s XOR t) AND NOT c"
    and "((((s OR e) AND NOT e OR c) XOR t) OR e) AND NOT (c OR e) = (s XOR t) AND NOT c"
proof -
  have z: "\<not> (bit s n \<and> bit e n)" "\<not> (bit t n \<and> bit e n)" "\<not> (bit t n \<and> bit c n)" for n
    using assms by (metis bit_and_iff bit_0_eq bot_apply bot_bool_def)+
  show "((s OR c) XOR t) AND NOT (c OR e) = (s XOR t) AND NOT c"
    by (rule bit_eqI) (use z in \<open>auto simp: bit_simps\<close>)
  show "((((s OR e) AND NOT e OR c) XOR t) OR e) AND NOT (c OR e) = (s XOR t) AND NOT c"
    by (rule bit_eqI) (use z in \<open>auto simp: bit_simps\<close>)
qed

lemma press_release_same:
  fixes s c t :: u32
  assumes "t AND c = 0"
  shows "(s XOR t) AND NOT c = s \<longleftrightarrow> t = 0 \<and> s AND c = 0"
proof
  assume e: "(s XOR t) AND NOT c = s"
  have z: "\<not> (bit t n \<and> bit c n)" for n
    using assms by (metis bit_and_iff bit_0_eq bot_apply bot_bool_def)
  have b: "bit ((s XOR t) AND NOT c) n \<longleftrightarrow> bit s n" for n using e by simp
  have "\<not> bit t n" "\<not> bit (s AND c) n" for n
    using b [of n] z [of n] by (auto simp: bit_simps dest: bit_imp_le_length)
  then show "t = 0 \<and> s AND c = 0" by (auto intro!: bit_eqI)
next
  assume h: "t = 0 \<and> s AND c = 0"
  then have "\<not> (bit s n \<and> bit c n)" for n by (metis bit_and_iff bit_0_eq bot_apply bot_bool_def)
  then show "(s XOR t) AND NOT c = s" using h by (intro bit_eqI) (auto simp: bit_simps)
qed

text \<open>C28: What pressing and releasing a key leaves of the shift state: the bit of a lock key is flipped,
  the bit of a modifier key is clear whether or not it was set before, and every other bit is what it was. So the state
  is restored exactly when the key is no lock key and its modifier was not held already (releasing one of two held shift keys
  clears \<open>SHIFT\<close>). This holds for the plain scan codes and for those announced by an escape byte, and the
  escape does not last beyond the code it announces.\<close>

theorem kbd_press_release:
  assumes "d AND 0x80 = 0" "d \<noteq> 0x60" "shift AND E0ESC = 0"
  defines "plain \<equiv> snd (kbd_chars shift [d, d OR 0x80])"
    and "escaped \<equiv> snd (kbd_chars shift [0xE0, d, 0xE0, d OR 0x80])"
  shows "plain = (shift XOR togglecode d) AND NOT (shiftcode d) \<and>
    (plain = shift \<longleftrightarrow> togglecode d = 0 \<and> shift AND shiftcode d = 0) \<and>
    escaped = (shift XOR togglecode (d OR 0x80)) AND NOT (shiftcode (d OR 0x80)) \<and>
    (escaped = shift \<longleftrightarrow> togglecode (d OR 0x80) = 0 \<and> shift AND shiftcode (d OR 0x80) = 0)"
proof -
  have c: "((shift OR shiftcode d) XOR togglecode d) AND E0ESC = 0"
    using assms(3) shiftcode_esc togglecode_disjoint(1) by (simp add: bit.conj_disj_distrib2 bit.conj_xor_distrib2)
  have nz: "E0ESC \<noteq> 0" by (simp add: E0ESC_def)
  have p: "plain = (shift XOR togglecode d) AND NOT (shiftcode d)"
    unfolding plain_def kbd_chars_shift using assms(1-3) c press_release_bits(1) [OF assms(3) togglecode_disjoint]
    by (simp add: kbd_shift_press kbd_shift_release)
  moreover have q: "escaped = (shift XOR togglecode (d OR 0x80)) AND NOT (shiftcode (d OR 0x80))"
    unfolding escaped_def kbd_chars_shift using assms(1,2) nz press_release_bits(2) [OF assms(3) togglecode_disjoint]
    by (simp add: kbd_shift_esc kbd_shift_press kbd_shift_release esc_set)
  ultimately show ?thesis using press_release_same [OF togglecode_disjoint(2)] by simp
qed

text \<open>The control key held with shift, plain and escaped, and the caps lock key.\<close>

theorem kbd_press_release_witness:
  "snd (kbd_chars SHIFT [0x1D, 0x9D]) = SHIFT \<and> snd (kbd_chars SHIFT [0xE0, 0x1D, 0xE0, 0x9D]) = SHIFT \<and>
   snd (kbd_chars 0 [0x3A, 0xBA]) = CAPSLOCK \<and> snd (kbd_chars SHIFT [0x2A, 0xAA]) = 0"
  using kbd_press_release [of "0x1D" SHIFT] kbd_press_release [of "0x3A" 0] kbd_press_release [of "0x2A" SHIFT]
  by (simp add: kbd_flags shiftcode_def togglecode_def)

end
