(* ===== verification/Console.thy ===== *)
theory Console
  imports Net Format Kbd
begin

text \<open>
  The console (\<^verbatim>\<open>console.c\<close>) with the serial line below it (\<^verbatim>\<open>uart.c\<close>): output to the screen, the
  input ring with line editing and command history, and the read and write entries of the device
  table.

  The CGA text memory is a list of cells and its cursor register a 16-bit word; a store outside the list is
  \<open>None\<close>. Bytes sent to the serial port are collected in \<open>uart_out\<close>. \<open>getc\<close>, through which \<open>consoleintr\<close> polls the keyboard
  or the serial port, is the list of the codes it returns before the first negative one.
\<close>

section \<open>State\<close>

record console = net +
  panicked :: bool
  cons_locking :: bool
  crt :: "u16 list"
  crt_pos :: u16
  uart :: bool
  uart_out :: "byte list"
  in_buf :: "byte list"
  in_r :: u32
  in_w :: u32
  in_e :: u32
  history :: "byte list list"
  history_pos :: int
  line_start :: u32
  cursor :: u32
  idt_loaded :: bool

definition BACKSPACE :: int where "BACKSPACE = 0x100"
definition INPUT_BUF :: nat where "INPUT_BUF = 128"
definition HISTORY_SIZE :: nat where "HISTORY_SIZE = 16"

section \<open>Output\<close>

definition uartputc :: "int \<Rightarrow> 'z console_scheme \<Rightarrow> 'z console_scheme" where
  "uartputc c s = (if \<not> uart s then s else s\<lparr>uart_out := uart_out s @ [word_of_int c]\<rparr>)"

definition crt_store :: "nat \<Rightarrow> u16 \<Rightarrow> u16 list \<Rightarrow> u16 list option" where
  "crt_store i v m = (if i < length m then Some (m[i := v]) else None)"

text \<open>The two middle parts of \<open>cgaputc\<close>: the character itself, and scrolling up by a line.\<close>

definition cga_char :: "int \<Rightarrow> u16 list \<Rightarrow> nat \<Rightarrow> (u16 list \<times> nat) option" where
  "cga_char c m pos =
     (if c = 10 then Some (m, pos + (80 - pos mod 80))
      else if c = BACKSPACE then Some (m, if pos > 0 then pos - 1 else pos)
      else do { m \<leftarrow> crt_store pos (word_of_int c AND 0xff OR 0x0700) m; Some (m, pos + 1) })"

text \<open>
  Scrolling: the difference \<open>24*80 - pos\<close> is that of the source as long as \<open>pos\<close> is on the screen or just below its
  last line, which is kept as an invariant.
\<close>

definition cga_scroll :: "u16 list \<Rightarrow> nat \<Rightarrow> u16 list \<times> nat" where
  "cga_scroll m pos =
     (if pos div 80 \<ge> 24 then
        let m = take (23 * 80) (drop 80 m) @ drop (23 * 80) m;
            pos = pos - 80
        in (take pos m @ replicate (24 * 80 - pos) 0 @ drop (pos + (24 * 80 - pos)) m, pos)
      else (m, pos))"

text \<open>
  \<open>pos\<close> is read from the cursor register, and the two bytes written back to it are its low 16 bits.
\<close>

definition cgaputc :: "int \<Rightarrow> 'z console_scheme \<Rightarrow> 'z console_scheme option" where
  "cgaputc c s = do {
     (m, pos) \<leftarrow> cga_char c (crt s) (unat (crt_pos s));
     let (m, pos) = cga_scroll m pos;
     m \<leftarrow> crt_store pos 0x0720 m;
     Some (s\<lparr>crt := m, crt_pos := of_nat pos\<rparr>)
   }"

definition consputc :: "int \<Rightarrow> 'z console_scheme \<Rightarrow> 'z console_scheme option" where
  "consputc c s =
     (if panicked s then None
      else
        let s = (if c = BACKSPACE then uartputc 8 (uartputc 32 (uartputc 8 s)) else uartputc c s)
        in cgaputc c s)"

fun consputs :: "byte list \<Rightarrow> 'z console_scheme \<Rightarrow> 'z console_scheme option" where
  "consputs [] s = Some s"
| "consputs (c # cs) s = do { s \<leftarrow> consputc (uint c) s; consputs cs s }"

text \<open>\<open>cprintf\<close> of the console itself; the other components only record their messages.\<close>

definition cons_cprintf :: "byte list \<Rightarrow> parg list \<Rightarrow> 'z console_scheme \<Rightarrow> 'z console_scheme option" where
  "cons_cprintf fmt args s = do {
     let locking = cons_locking s;
     s \<leftarrow> (if locking then k_acquire Cons_lock s else Some s);
     out \<leftarrow> cformat fmt args;
     s \<leftarrow> consputs out s;
     if locking then k_release Cons_lock s else Some s
   }"

definition consolewrite :: "byte list \<Rightarrow> 'z console_scheme \<Rightarrow> (int \<times> 'z console_scheme) option" where
  "consolewrite buf s = do {
     s \<leftarrow> k_acquire Cons_lock s;
     s \<leftarrow> consputs buf s;
     s \<leftarrow> k_release Cons_lock s;
     Some (int (length buf), s)
   }"

section \<open>Input\<close>

definition in_get :: "u32 \<Rightarrow> 'z console_scheme \<Rightarrow> byte" where
  "in_get i s = in_buf s ! (unat i mod INPUT_BUF)"

definition in_put :: "byte \<Rightarrow> 'z console_scheme \<Rightarrow> 'z console_scheme" where
  "in_put c s = s\<lparr>in_buf := (in_buf s)[unat (in_e s) mod INPUT_BUF := c], in_e := in_e s + 1\<rparr>"

partial_function (option) clear_loop :: "'z console_scheme \<Rightarrow> 'z console_scheme option" where
  "clear_loop s =
     (if in_e s \<noteq> line_start s then do {
        s \<leftarrow> consputc BACKSPACE (s\<lparr>in_e := in_e s - 1\<rparr>);
        clear_loop s
      } else Some s)"

definition clear_line :: "'z console_scheme \<Rightarrow> 'z console_scheme option" where
  "clear_line s = do { s \<leftarrow> clear_loop s; Some (s\<lparr>cursor := line_start s\<rparr>) }"

fun load_chars :: "byte list \<Rightarrow> 'z console_scheme \<Rightarrow> 'z console_scheme option" where
  "load_chars [] s = Some s"
| "load_chars (c # cs) s =
     (if unat (in_e s - in_r s) < INPUT_BUF then do {
        s \<leftarrow> consputc (sint c) (in_put c s);
        load_chars cs s
      } else Some s)"

definition load_history :: "int \<Rightarrow> 'z console_scheme \<Rightarrow> 'z console_scheme option" where
  "load_history idx s =
     (if idx < 0 \<or> idx \<ge> int (length (history s)) then Some s
      else do {
        s \<leftarrow> clear_line s;
        s \<leftarrow> load_chars (history s ! nat idx) s;
        Some (s\<lparr>cursor := in_e s\<rparr>)
      })"

text \<open>The loop that collects the finished line: at most \<open>INPUT_BUF - 1\<close> bytes from \<open>i\<close> up to \<open>e\<close>.\<close>

fun take_line :: "nat \<Rightarrow> u32 \<Rightarrow> u32 \<Rightarrow> 'z console_scheme \<Rightarrow> byte list" where
  "take_line 0 i e s = []"
| "take_line (Suc n) i e s = (if i \<noteq> e then in_get i s # take_line n (i + 1) e s else [])"

definition push_history :: "byte list \<Rightarrow> 'z console_scheme \<Rightarrow> 'z console_scheme" where
  "push_history line s =
     (let h = (if length (history s) = HISTORY_SIZE then tl (history s) else history s)
      in s\<lparr>history := h @ [takeWhile (\<lambda>c. c \<noteq> 0) line]\<rparr>)"

definition finish_line :: "'z console_scheme \<Rightarrow> 'z console_scheme" where
  "finish_line s =
     (let line = take_line (INPUT_BUF - 1) (line_start s) (in_e s - 1) s;
          s = (if line \<noteq> [] then push_history line s else s)
      in s\<lparr>history_pos := -1, line_start := in_e s, cursor := in_e s\<rparr>)"

partial_function (option) kill_loop :: "'z console_scheme \<Rightarrow> 'z console_scheme option" where
  "kill_loop s =
     (if in_e s \<noteq> in_w s \<and> in_get (in_e s - 1) s \<noteq> 10 then do {
        s \<leftarrow> consputc BACKSPACE (s\<lparr>in_e := in_e s - 1\<rparr>);
        kill_loop s
      } else Some s)"

text \<open>The cases of the \<open>switch\<close>, one definition for each that is longer than a line.\<close>

definition key_up :: "'z console_scheme \<Rightarrow> 'z console_scheme option" where
  "key_up s =
     (if length (history s) > 0 then
        let s = s\<lparr>history_pos :=
          (if history_pos s = -1 then int (length (history s)) - 1
           else if history_pos s > 0 then history_pos s - 1 else history_pos s)\<rparr>
        in load_history (history_pos s) s
      else Some s)"

definition key_down :: "'z console_scheme \<Rightarrow> 'z console_scheme option" where
  "key_down s =
     (if history_pos s \<noteq> -1 then
        (if history_pos s < int (length (history s)) - 1 then
           let s = s\<lparr>history_pos := history_pos s + 1\<rparr> in load_history (history_pos s) s
         else clear_line (s\<lparr>history_pos := -1\<rparr>))
      else Some s)"

definition key_default :: "int \<Rightarrow> 'z console_scheme \<Rightarrow> 'z console_scheme option" where
  "key_default c s =
     (if c \<noteq> 0 \<and> unat (in_e s - in_r s) < INPUT_BUF then do {
        let c = (if c = 13 then 10 else c);
        s \<leftarrow> consputc c (in_put (word_of_int c) s);
        if c = 10 \<or> c = 4 \<or> in_e s = in_r s + of_nat INPUT_BUF then do {
          s \<leftarrow> wakeup Ch_input (s\<lparr>in_w := in_e s\<rparr>);
          Some (if c = 10 then finish_line s else s)
        } else Some s
      } else Some s)"

text \<open>
  \<open>procdump\<close> changes no state but the screen; that it was called is recorded in the log, its listing is not. \<open>lidt(0,0)\<close> empties the interrupt table, so that
  the next interrupt resets the machine.
\<close>

definition cons_key :: "int \<Rightarrow> 'z console_scheme \<Rightarrow> 'z console_scheme option" where
  "cons_key c s =
     (if c = 26 then Some (s\<lparr>idt_loaded := False\<rparr>)
      else if c = 16 then Some (cprintf ''procdump'' [] s)
      else if c = 21 then kill_loop s
      else if c = 8 \<or> c = 127 then
        (if in_e s \<noteq> in_w s then consputc BACKSPACE (s\<lparr>in_e := in_e s - 1\<rparr>) else Some s)
      else if c = 9 then
        Some (if unat (in_e s - in_r s) < INPUT_BUF then in_put (word_of_int c) s else s)
      else if c = uint KEY_UP then key_up s
      else if c = uint KEY_DN then key_down s
      else key_default c s)"

fun cons_keys :: "int list \<Rightarrow> 'z console_scheme \<Rightarrow> 'z console_scheme option" where
  "cons_keys [] s = Some s"
| "cons_keys (c # cs) s = do { s \<leftarrow> cons_key c s; cons_keys cs s }"

definition consoleintr :: "int list \<Rightarrow> 'z console_scheme \<Rightarrow> 'z console_scheme option" where
  "consoleintr cs s = do {
     s \<leftarrow> k_acquire Input_lock s;
     s \<leftarrow> cons_keys cs s;
     k_release Input_lock s
   }"

definition kbdintr :: "u32 \<Rightarrow> byte list \<Rightarrow> 'z console_scheme \<Rightarrow> 'z console_scheme option" where
  "kbdintr shift q s = consoleintr (map uint (fst (kbd_chars shift q))) s"

definition uartintr :: "byte list \<Rightarrow> 'z console_scheme \<Rightarrow> 'z console_scheme option" where
  "uartintr cs s = consoleintr (if \<not> uart s then [] else map uint cs) s"

text \<open>
  \<open>consoleread\<close>: \<open>got\<close> are the bytes stored at \<open>dst\<close> so far and \<open>n\<close> what is left to read. When the
  ring is empty the caller sleeps with what it has; it goes on from there when it is woken.
\<close>

partial_function (option) consoleread_loop ::
    "nat \<Rightarrow> byte list \<Rightarrow> 'z console_scheme \<Rightarrow> ((byte list \<times> nat) outcome option \<times> 'z console_scheme) option" where
  "consoleread_loop n got s =
     (if n = 0 then Some (Some (Ret (got, n)), s)
      else if in_r s = in_w s then
        (case curproc s of None \<Rightarrow> None | Some me \<Rightarrow>
           if p_killed (ptable s ! me) then Some (None, s)
           else do { (ie, s) \<leftarrow> sleep_out Ch_input Input_lock s; Some (Some Asleep, s) })
      else
        let c = in_get (in_r s) s; s = s\<lparr>in_r := in_r s + 1\<rparr> in
        if c = 4 then Some (Some (Ret (got, n)), if got \<noteq> [] then s\<lparr>in_r := in_r s - 1\<rparr> else s)
        else if c = 10 then Some (Some (Ret (got @ [c], n - 1)), s)
        else consoleread_loop (n - 1) (got @ [c]) s)"

definition consoleread :: "nat \<Rightarrow> 'z console_scheme \<Rightarrow> (byte list outcome option \<times> 'z console_scheme) option" where
  "consoleread n s = do {
     s \<leftarrow> k_acquire Input_lock s;
     (r, s) \<leftarrow> consoleread_loop n [] s;
     (case r of Some Asleep \<Rightarrow> Some (Some Asleep, s)
      | Some (Ret (got, _)) \<Rightarrow> do { s \<leftarrow> k_release Input_lock s; Some (Some (Ret got), s) }
      | None \<Rightarrow> do { s \<leftarrow> k_release Input_lock s; Some (None, s) })
   }"

text \<open>
  \<open>consoleinit\<close>: the locks and the input ring. The two entries of \<open>devsw\<close> belong to the file layer, and \<open>ioapicenable\<close>
  writes to a device that is not part of this state (it is modelled with the PCI code).
\<close>

definition consoleinit :: "'z console_scheme \<Rightarrow> 'z console_scheme" where
  "consoleinit s =
     s\<lparr>locks := (locks s)(Cons_lock := initlock (locks s Cons_lock), Input_lock := initlock (locks s Input_lock)),
       cons_locking := True, in_r := 0, in_w := 0, in_e := 0, line_start := 0, cursor := 0\<rparr>"

section \<open>The screen\<close>

definition screen_ok :: "'z console_scheme \<Rightarrow> bool" where
  "screen_ok s \<longleftrightarrow> \<not> panicked s \<and> length (crt s) = 25 * 80 \<and> unat (crt_pos s) < 24 * 80"

lemma unat_small16: "n < 65536 \<Longrightarrow> unat (of_nat n :: u16) = n"
  by (simp add: unat_of_nat)

lemma cga_char_ok:
  assumes "length m = 2000" "pos < 1920"
  shows "\<exists>m' p. cga_char c m pos = Some (m', p) \<and> length m' = 2000 \<and> p \<le> 1920"
proof -
  have "pos mod 80 < 80" "pos div 80 < 24" using assms(2) by auto
  moreover have "pos = 80 * (pos div 80) + pos mod 80" by simp
  ultimately have "pos + (80 - pos mod 80) \<le> 1920" by linarith
  then show ?thesis using assms by (auto simp: cga_char_def crt_store_def)
qed

lemma cga_scroll_ok:
  assumes "length m = 2000" "p \<le> 1920"
  shows "\<exists>m' p'. cga_scroll m p = (m', p') \<and> length m' = 2000 \<and> p' < 1920"
proof (cases "p div 80 \<ge> 24")
  case True
  then have "p = 1920" using assms(2) by simp
  then show ?thesis using assms(1) by (simp add: cga_scroll_def Let_def)
next
  case False
  then show ?thesis using assms by (simp add: cga_scroll_def)
qed

lemma cgaputc_ok:
  assumes "length (crt s) = 2000" "unat (crt_pos s) < 1920"
  shows "\<exists>m p. cgaputc c s = Some (s\<lparr>crt := m, crt_pos := p\<rparr>) \<and> length m = 2000 \<and> unat p < 1920"
proof -
  obtain m p where c: "cga_char c (crt s) (unat (crt_pos s)) = Some (m, p)" "length m = 2000" "p \<le> 1920"
    using cga_char_ok [OF assms] by blast
  obtain m' p' where "cga_scroll m p = (m', p')" "length m' = 2000" "p' < 1920"
    using cga_scroll_ok [OF c(2,3)] by blast
  then show ?thesis using c(1) unat_small16 [of p']
    by (intro exI [of _ "m'[p' := 0x0720]"] exI [of _ "of_nat p'"]) (simp add: cgaputc_def crt_store_def)
qed

lemma consputc_ok:
  assumes "screen_ok s"
  shows "\<exists>u m p. consputc c s = Some (s\<lparr>uart_out := u, crt := m, crt_pos := p\<rparr>) \<and>
    length m = 2000 \<and> unat p < 1920"
proof -
  define v where "v = uart_out (if c = BACKSPACE then uartputc 8 (uartputc 32 (uartputc 8 s)) else uartputc c s)"
  have v: "(if c = BACKSPACE then uartputc 8 (uartputc 32 (uartputc 8 s)) else uartputc c s) = s\<lparr>uart_out := v\<rparr>"
    unfolding v_def by (simp add: uartputc_def)
  obtain m p where "cgaputc c (s\<lparr>uart_out := v\<rparr>) = Some (s\<lparr>uart_out := v, crt := m, crt_pos := p\<rparr>)"
    "length m = 2000" "unat p < 1920"
    using cgaputc_ok [of "s\<lparr>uart_out := v\<rparr>" c] assms by (auto simp: screen_ok_def)
  then show ?thesis using assms unfolding consputc_def Let_def v by (auto simp: screen_ok_def)
qed

section \<open>The input ring\<close>

definition ring_ok :: "'z console_scheme \<Rightarrow> bool" where
  "ring_ok s \<longleftrightarrow> length (in_buf s) = INPUT_BUF \<and>
     unat (in_w s - in_r s) \<le> unat (in_e s - in_r s) \<and> unat (in_e s - in_r s) \<le> INPUT_BUF"

text \<open>The bytes that a reader may take.\<close>

definition committed :: "'z console_scheme \<Rightarrow> byte list" where
  "committed s = map (\<lambda>i. in_get (in_r s + of_nat i) s) [0..<unat (in_w s - in_r s)]"

text \<open>What a step of the input side leaves alone and what it keeps.\<close>

definition keeps_input :: "'z console_scheme \<Rightarrow> 'z console_scheme \<Rightarrow> bool" where
  "keeps_input s s' \<longleftrightarrow> in_r s' = in_r s \<and> ring_ok s' \<and> screen_ok s' \<and>
     take (length (committed s)) (committed s') = committed s \<and>
     cpu_st s' = cpu_st s \<and> cpuid s' = cpuid s \<and> locks s' = locks s"

lemma keeps_refl: "ring_ok s \<Longrightarrow> screen_ok s \<Longrightarrow> keeps_input s s"
  by (simp add: keeps_input_def)

lemma keeps_trans: "keeps_input s t \<Longrightarrow> keeps_input t u \<Longrightarrow> keeps_input s u"
  unfolding keeps_input_def by (metis length_take min.absorb_iff2 min.cobounded1 take_take)

lemma in_get_upd [simp]:
  "in_get i (s\<lparr>uart_out := u\<rparr>) = in_get i s" "in_get i (s\<lparr>crt := m\<rparr>) = in_get i s"
  "in_get i (s\<lparr>crt_pos := p\<rparr>) = in_get i s" "in_get i (s\<lparr>in_e := e\<rparr>) = in_get i s" "in_get i (s\<lparr>in_w := e\<rparr>) = in_get i s"
  by (simp_all add: in_get_def)

lemma keeps_put:
  assumes "ring_ok s" "screen_ok s" "length m = 2000" "unat p < 1920"
  shows "keeps_input s (s\<lparr>uart_out := u, crt := m, crt_pos := p\<rparr>)"
  using assms by (simp add: keeps_input_def ring_ok_def screen_ok_def committed_def)

lemma consputc_keeps:
  assumes "ring_ok s" "screen_ok s"
  shows "\<exists>s'. consputc c s = Some s' \<and> keeps_input s s' \<and> in_e s' = in_e s \<and> in_w s' = in_w s \<and> in_buf s' = in_buf s"
  using consputc_ok [OF assms(2)] keeps_put [OF assms] by fastforce

lemma erase_keeps:
  assumes "ring_ok s" "screen_ok s" "in_e s \<noteq> in_w s"
  shows "keeps_input s (s\<lparr>in_e := in_e s - 1\<rparr>)"
proof -
  have ne: "unat (in_e s - in_r s) \<noteq> unat (in_w s - in_r s)"
    using assms(3) by (metis word_distance)
  then have "in_e s \<noteq> in_r s" using assms(1) by (auto simp: ring_ok_def)
  from distance_pred [OF this] have "Suc (unat (in_e s - 1 - in_r s)) = unat (in_e s - in_r s)" .
  then show ?thesis using assms ne by (simp add: keeps_input_def ring_ok_def screen_ok_def committed_def)
qed

lemma put_keeps:
  assumes "ring_ok s" "screen_ok s" "unat (in_e s - in_r s) < INPUT_BUF"
  shows "keeps_input s (in_put c s)"
proof -
  have d: "unat (in_e s + 1 - in_r s) = Suc (unat (in_e s - in_r s))"
    by (rule distance_Suc) (use assms(3) in \<open>simp add: INPUT_BUF_def\<close>)
  have e: "in_e s = in_r s + of_nat (unat (in_e s - in_r s))" by simp
  have "in_get (in_r s + of_nat i) (in_put c s) = in_get (in_r s + of_nat i) s"
    if "i < unat (in_w s - in_r s)" for i
  proof -
    have i: "i < unat (in_e s - in_r s)" using that assms(1) by (simp add: ring_ok_def)
    have "unat (in_r s + of_nat i) mod 2 ^ 7 \<noteq> unat (in_r s + of_nat (unat (in_e s - in_r s))) mod 2 ^ 7"
      using ring_distinct [of 7 "in_r s" i "unat (in_e s - in_r s)"] i assms(3) by (auto simp: INPUT_BUF_def)
    then have "unat (in_r s + of_nat i) mod INPUT_BUF \<noteq> unat (in_e s) mod INPUT_BUF"
      by (simp add: INPUT_BUF_def)
    then show ?thesis by (simp add: in_get_def in_put_def)
  qed
  then have "committed (in_put c s) = committed s" by (simp add: committed_def in_put_def)
  then show ?thesis using assms d by (simp add: keeps_input_def ring_ok_def screen_ok_def in_put_def)
qed

lemma commit_keeps:
  assumes "ring_ok s" "screen_ok s"
  shows "keeps_input s (s\<lparr>in_w := in_e s\<rparr>)"
proof -
  have "take (unat (in_w s - in_r s)) [0..<unat (in_e s - in_r s)] = [0..<unat (in_w s - in_r s)]"
    using assms(1) by (simp add: ring_ok_def min_def)
  then show ?thesis using assms by (simp add: keeps_input_def ring_ok_def screen_ok_def committed_def take_map)
qed

lemma keepsD: "keeps_input s s' \<Longrightarrow> ring_ok s' \<and> screen_ok s' \<and> cpu_st s' = cpu_st s \<and> locks s' = locks s \<and> cpuid s' = cpuid s"
  by (simp add: keeps_input_def)

text \<open>Steps that do not touch the ring at all.\<close>

lemma wakeup_some:
  assumes "locks s Ptable_lock = free_lock" "settled (cpu_st s)"
  shows "wakeup ch s = Some (wakeup1 ch s)"
proof -
  have "wakeup ch s = k_release Ptable_lock (wakeup1 ch (s\<lparr>cpu_st := pushcli (cpu_st s),
      locks := (locks s)(Ptable_lock := held_lock (cpuid s))\<rparr>))"
    by (simp add: wakeup_def k_acquire_free [OF assms(1)])
  also have "\<dots> = Some (wakeup1 ch s)"
    by (subst k_release_held [where ls = "locks s" and c = "cpu_st s"])
      (use assms in \<open>simp_all add: wakeup1_def\<close>)
  finally show ?thesis .
qed

lemma keeps_same:
  assumes "keeps_input s s'" "in_r t = in_r s'" "in_w t = in_w s'" "in_e t = in_e s'" "in_buf t = in_buf s'"
    "crt t = crt s'" "crt_pos t = crt_pos s'" "panicked t = panicked s'" "cpu_st t = cpu_st s'" "cpuid t = cpuid s'" "locks t = locks s'"
  shows "keeps_input s t"
proof -
  have "committed t = committed s'" using assms by (simp add: committed_def in_get_def)
  moreover have "ring_ok t = ring_ok s'" "screen_ok t = screen_ok s'" using assms by (simp_all add: ring_ok_def screen_ok_def)
  ultimately show ?thesis using assms by (simp add: keeps_input_def)
qed

lemma wakeup1_keeps: "keeps_input s s' \<Longrightarrow> keeps_input s (wakeup1 ch s')"
  by (erule keeps_same) (simp_all add: wakeup1_def)

lemma finish_keeps: "keeps_input s s' \<Longrightarrow> keeps_input s (finish_line s')"
  by (erule keeps_same) (simp_all add: finish_line_def push_history_def Let_def)

lemma kill_keeps:
  assumes "ring_ok s" "screen_ok s"
  shows "\<exists>s'. kill_loop s = Some s' \<and> keeps_input s s'"
  using assms
proof (induction "unat (in_e s - in_w s)" arbitrary: s rule: less_induct)
  case less
  show ?case
  proof (cases "in_e s \<noteq> in_w s \<and> in_get (in_e s - 1) s \<noteq> 10")
    case True
    let ?t = "s\<lparr>in_e := in_e s - 1\<rparr>"
    have k1: "keeps_input s ?t" using erase_keeps less.prems True by blast
    obtain t where t: "consputc BACKSPACE ?t = Some t" "keeps_input ?t t" "in_e t = in_e ?t" "in_w t = in_w ?t"
      using consputc_keeps [of ?t BACKSPACE] keepsD [OF k1] by blast
    have "unat (in_e t - in_w t) < unat (in_e s - in_w s)"
      using t(3,4) distance_pred [of "in_e s" "in_w s"] True by simp
    then obtain s' where "kill_loop t = Some s'" "keeps_input t s'"
      using less.hyps keepsD [OF t(2)] by blast
    then show ?thesis using True t k1 keeps_trans by (subst kill_loop.simps) (simp, blast)
  next
    case False
    then show ?thesis using less.prems keeps_refl by (subst kill_loop.simps) auto
  qed
qed

lemma default_keeps:
  assumes "ring_ok s" "screen_ok s" "locks s Ptable_lock = free_lock" "settled (cpu_st s)"
  shows "\<exists>s'. key_default c s = Some s' \<and> keeps_input s s'"
proof (cases "c \<noteq> 0 \<and> unat (in_e s - in_r s) < INPUT_BUF")
  case True
  let ?c = "if c = 13 then 10 else c"
  let ?t = "in_put (word_of_int ?c) s"
  have k1: "keeps_input s ?t" using put_keeps assms True by blast
  obtain t where t: "consputc ?c ?t = Some t" "keeps_input ?t t" using consputc_keeps keepsD [OF k1] by blast
  have k2: "keeps_input s t" using k1 t(2) keeps_trans by blast
  let ?u = "t\<lparr>in_w := in_e t\<rparr>"
  have k3: "keeps_input s ?u" using commit_keeps keepsD [OF k2] k2 keeps_trans by blast
  have w: "wakeup Ch_input ?u = Some (wakeup1 Ch_input ?u)"
    using keepsD [OF k3] assms(3,4) by (intro wakeup_some) simp_all
  have "key_default c s = (if ?c = 10 \<or> ?c = 4 \<or> in_e t = in_r t + of_nat INPUT_BUF
      then Some (if ?c = 10 then finish_line (wakeup1 Ch_input ?u) else wakeup1 Ch_input ?u) else Some t)"
    unfolding key_default_def Let_def using True by (simp only: if_True bind.bind_lunit t(1) w split: if_split) simp
  then show ?thesis using wakeup1_keeps [OF k3] finish_keeps [OF wakeup1_keeps [OF k3]] k2 by (simp only: split: if_split) blast
next
  case False
  then show ?thesis unfolding key_default_def if_not_P [OF False] using assms keeps_refl by blast
qed

lemma cons_key_keeps:
  assumes "ring_ok s" "screen_ok s" "locks s Ptable_lock = free_lock" "settled (cpu_st s)"
    and "c \<noteq> uint KEY_UP" "c \<noteq> uint KEY_DN"
  shows "\<exists>s'. cons_key c s = Some s' \<and> keeps_input s s'"
proof -
  have a: "\<exists>s'. consputc BACKSPACE (s\<lparr>in_e := in_e s - 1\<rparr>) = Some s' \<and> keeps_input s s'" if "in_e s \<noteq> in_w s"
    using erase_keeps [OF assms(1,2) that] consputc_keeps keeps_trans keepsD by blast
  have b: "keeps_input s (s\<lparr>idt_loaded := False\<rparr>)" "keeps_input s (cprintf m as s)" for m as
    using assms by (simp_all add: keeps_input_def cprintf_def ring_ok_def screen_ok_def committed_def in_get_def)
  show ?thesis
    using a b put_keeps [OF assms(1,2)] kill_keeps [OF assms(1,2)] default_keeps [OF assms(1-4), of c] keeps_refl [OF assms(1,2)] assms(5,6)
    by (simp add: cons_key_def)
qed

lemma cons_keys_keeps:
  assumes "ring_ok s" "screen_ok s" "locks s Ptable_lock = free_lock" "settled (cpu_st s)"
    and "uint KEY_UP \<notin> set cs" "uint KEY_DN \<notin> set cs"
  shows "\<exists>s'. cons_keys cs s = Some s' \<and> keeps_input s s'"
  using assms
proof (induction cs arbitrary: s)
  case Nil
  then show ?case using keeps_refl by simp
next
  case (Cons c cs)
  obtain t where t: "cons_key c s = Some t" "keeps_input s t"
    using cons_key_keeps [OF Cons.prems(1-4), of c] Cons.prems(5,6) by auto
  then obtain s' where "cons_keys cs t = Some s'" "keeps_input t s'"
    using Cons.IH [of t] keepsD [OF t(2)] Cons.prems by auto
  then show ?case using t keeps_trans by auto
qed

section \<open>Properties\<close>

text \<open>C22: An interrupt from the keyboard or the serial line keeps the input ring sound: for every sequence
  of characters without the two history keys, \<open>consoleintr\<close> returns with its lock released, the
  read, write and edit indices in order and at most one buffer apart even when the 32-bit counters
  wrap, every store to the screen in range, and the bytes that were already handed to readers unchanged and
  only extended.\<close>

theorem consoleintr_keeps_input:
  assumes "ring_ok s" "screen_ok s" "locks s Ptable_lock = free_lock" "locks s Input_lock = free_lock"
    and "settled (cpu_st s)" "uint KEY_UP \<notin> set cs" "uint KEY_DN \<notin> set cs"
  shows "\<exists>s'. consoleintr cs s = Some s' \<and> ring_ok s' \<and> screen_ok s' \<and> in_r s' = in_r s \<and> locks s' = locks s \<and>
    take (length (committed s)) (committed s') = committed s"
proof -
  let ?t = "s\<lparr>cpu_st := pushcli (cpu_st s), locks := (locks s)(Input_lock := held_lock (cpuid s))\<rparr>"
  have acq: "k_acquire Input_lock s = Some ?t" by (rule k_acquire_free [OF assms(4)])
  have t: "ring_ok ?t" "screen_ok ?t" "locks ?t Ptable_lock = free_lock" "settled (cpu_st ?t)" "committed ?t = committed s"
    using assms settled_pushcli by (simp_all add: ring_ok_def screen_ok_def committed_def in_get_def)
  obtain u where u: "cons_keys cs ?t = Some u" "keeps_input ?t u"
    using cons_keys_keeps [OF t(1-4) assms(6,7)] by blast
  have rel: "k_release Input_lock u = Some (u\<lparr>cpu_st := cpu_st s, locks := locks s\<rparr>)"
    by (rule k_release_held) (use u(2) assms in \<open>simp_all add: keeps_input_def\<close>)
  have "ring_ok u \<and> screen_ok u \<and> in_r u = in_r s \<and> take (length (committed s)) (committed u) = committed s"
    using u(2) t(5) by (simp add: keeps_input_def)
  moreover have "committed (u\<lparr>cpu_st := cpu_st s, locks := locks s\<rparr>) = committed u"
    "ring_ok (u\<lparr>cpu_st := cpu_st s, locks := locks s\<rparr>) = ring_ok u"
    "screen_ok (u\<lparr>cpu_st := cpu_st s, locks := locks s\<rparr>) = screen_ok u"
    by (simp_all add: ring_ok_def screen_ok_def committed_def in_get_def)
  ultimately show ?thesis by (simp add: consoleintr_def acq u rel)
qed

text \<open>A console after start-up with an idle machine below it.\<close>

definition sample_console :: console where
  "sample_console = net.extend (sample_net [] None)
     (console.fields False True (replicate 2000 0) 0 False [] (replicate 128 0) 0 0 0 [[97]] (-1) 0 0 True)"

lemma sample_console_ok:
  "ring_ok sample_console" "screen_ok sample_console" "settled (cpu_st sample_console)"
  "locks sample_console l = free_lock" "history sample_console = [[97]]" "history_pos sample_console = -1"
  "in_r sample_console = 0" "in_w sample_console = 0" "in_e sample_console = 0" "line_start sample_console = 0"
  by (simp_all add: sample_console_def sample_net_def sample_e1000_def sample_pstate_def pstate.defs e1000.defs net.defs console.defs ring_ok_def screen_ok_def
      INPUT_BUF_def settled_def)

theorem consoleintr_keeps_input_witness:
  "\<exists>s'. consoleintr [97, 10, 9, 8] sample_console = Some s' \<and> ring_ok s' \<and> in_r s' = 0"
  using consoleintr_keeps_input [of sample_console "[97, 10, 9, 8]"] sample_console_ok
  by (auto simp: KEY_UP_def KEY_DN_def)

lemma cons_keys_append: "cons_keys (a @ b) s = Option.bind (cons_keys a s) (cons_keys b)"
  by (induction a arbitrary: s) (auto split: bind_splits)

lemma tabs_fill:
  assumes "in_r s = in_w s" "unat (in_e s - in_r s) + n \<le> INPUT_BUF"
  shows "\<exists>s'. cons_keys (replicate n 9) s = Some s' \<and> in_r s' = in_r s \<and> in_w s' = in_w s \<and>
    unat (in_e s' - in_r s') = unat (in_e s - in_r s) + n"
  using assms
proof (induction n arbitrary: s)
  case (Suc n)
  let ?t = "in_put 9 s"
  have k: "cons_key 9 s = Some ?t" using Suc.prems(2) by (simp add: cons_key_def)
  have "unat (in_e s + 1 - in_r s) = Suc (unat (in_e s - in_r s))"
    by (rule distance_Suc) (use Suc.prems(2) in \<open>simp add: INPUT_BUF_def\<close>)
  then have t: "in_r ?t = in_r s" "in_w ?t = in_w s" "unat (in_e ?t - in_r ?t) = Suc (unat (in_e s - in_r s))"
    by (simp_all add: in_put_def)
  obtain s' where "cons_keys (replicate n 9) ?t = Some s'" "in_r s' = in_r ?t" "in_w s' = in_w ?t"
    "unat (in_e s' - in_r s') = unat (in_e ?t - in_r ?t) + n"
    using Suc.IH [of ?t] Suc.prems t by auto
  then show ?case using k t by auto
qed simp

text \<open>The characters that \<open>consoleintr\<close> gives a case of their own: \<open>^Z\<close>, \<open>^P\<close>, \<open>^U\<close>, \<open>^H\<close>, delete, tab and the history keys.\<close>

definition command_key :: "int \<Rightarrow> bool" where
  "command_key c \<longleftrightarrow> c \<in> {26, 16, 21, 8, 127, 9, uint KEY_UP, uint KEY_DN}"

lemma full_ring_drops:
  assumes "INPUT_BUF \<le> unat (in_e s - in_r s)" "list_all (\<lambda>c. c = 9 \<or> \<not> command_key c) cs"
  shows "cons_keys cs s = Some s"
  using assms(2)
proof (induction cs)
  case (Cons c cs)
  have k: "key_default c s = Some s" using assms(1) by (simp add: key_default_def)
  have "cons_key c s = Some s"
  proof (cases "c = 9")
    case True
    then show ?thesis using assms(1) by (simp add: cons_key_def)
  next
    case False
    then have "\<not> command_key c" using Cons.prems by simp
    then show ?thesis using k by (simp add: cons_key_def command_key_def)
  qed
  then show ?case using Cons by simp
qed simp

text \<open>C29: Tabs can block input until something is erased: a tab is queued without the test that hands a full buffer over, so
  after a buffer's worth of them typed on an empty line nothing has been handed to the readers, and from then on any
  run of tabs and of characters without a case of their own, the newline and \<open>^D\<close> that would hand the line over
  included, changes nothing. Only the command keys that erase (\<open>^U\<close>, \<open>^H\<close>, delete, the history keys) make room again.\<close>

theorem tabs_block_console:
  assumes "in_r s = in_w s" "in_e s = in_w s" "list_all (\<lambda>c. c = 9 \<or> \<not> command_key c) cs"
  shows "\<exists>s'. cons_keys (replicate INPUT_BUF 9) s = Some s' \<and> committed s' = [] \<and>
    cons_keys (replicate INPUT_BUF 9 @ cs) s = Some s'"
proof -
  obtain s' where s': "cons_keys (replicate INPUT_BUF 9) s = Some s'" "in_r s' = in_r s" "in_w s' = in_w s"
    "unat (in_e s' - in_r s') = INPUT_BUF"
    using tabs_fill [of s INPUT_BUF] assms by auto
  have "cons_keys cs s' = Some s'" by (rule full_ring_drops) (use s' assms(3) in simp_all)
  then show ?thesis using s' assms by (auto simp: committed_def cons_keys_append)
qed

theorem tabs_block_console_witness:
  "\<exists>s'. cons_keys (replicate INPUT_BUF 9) sample_console = Some s' \<and> committed s' = [] \<and>
     cons_keys (replicate INPUT_BUF 9 @ [97, 10, 4, 13, 9]) sample_console = Some s'"
  using tabs_block_console [of sample_console "[97, 10, 4, 13, 9]"] sample_console_ok
  by (auto simp: command_key_def KEY_UP_def KEY_DN_def)

lemma consputc_fields:
  assumes "screen_ok s"
  shows "\<exists>s'. consputc c s = Some s' \<and> screen_ok s' \<and> in_e s' = in_e s \<and> in_w s' = in_w s \<and> in_r s' = in_r s \<and>
    in_buf s' = in_buf s \<and> line_start s' = line_start s \<and> history s' = history s \<and> history_pos s' = history_pos s \<and>
    locks s' = locks s \<and> cpu_st s' = cpu_st s"
  using consputc_ok [OF assms, of c] assms by (fastforce simp: screen_ok_def)

text \<open>C30: The history keys can overwrite input that was already handed over: an end-of-file character typed
  on an empty line is committed without moving the start of the line, so the up key erases it from
  the ring and the reader finds the recalled command in its place.\<close>

theorem history_overwrites_committed:
  assumes "ring_ok s" "screen_ok s" "locks s Ptable_lock = free_lock" "settled (cpu_st s)"
    and "in_r s = in_w s" "in_e s = in_w s" "line_start s = in_e s" "history s = [[c]]" "history_pos s = -1"
  shows "\<exists>s1 s2. cons_key 4 s = Some s1 \<and> committed s1 = [4] \<and>
    cons_key (uint KEY_UP) s1 = Some s2 \<and> committed s2 = [c]"
proof -
  define i where "i = unat (in_r s) mod INPUT_BUF"
  have i: "i < length (in_buf s)" using assms(1) by (simp add: i_def ring_ok_def INPUT_BUF_def)
  have sc: "screen_ok (in_put 4 s)" using assms(2) by (simp add: in_put_def screen_ok_def)
  obtain t where t: "consputc 4 (in_put 4 s) = Some t" "screen_ok t" "in_e t = in_e s + 1" "in_r t = in_r s"
    "in_buf t = (in_buf s)[i := 4]" "line_start t = line_start s" "history t = [[c]]" "history_pos t = -1"
    "locks t = locks s" "cpu_st t = cpu_st s"
    using consputc_fields [OF sc, of 4] assms by (auto simp: in_put_def i_def)
  define s1 where "s1 = wakeup1 Ch_input (t\<lparr>in_w := in_e t\<rparr>)"
  have w: "wakeup Ch_input (t\<lparr>in_w := in_e t\<rparr>) = Some s1"
    unfolding s1_def by (rule wakeup_some) (use t assms in simp_all)
  have k1: "cons_key 4 s = Some s1"
    using t(1) w assms by (simp add: cons_key_def key_default_def INPUT_BUF_def KEY_UP_def KEY_DN_def)
  have s1: "in_e s1 = in_e s + 1" "in_w s1 = in_e s + 1" "in_r s1 = in_r s" "in_buf s1 = (in_buf s)[i := 4]"
    "line_start s1 = in_e s" "history s1 = [[c]]" "history_pos s1 = -1" "screen_ok s1"
    using t assms by (simp_all add: s1_def wakeup1_def screen_ok_def)
  have c1: "committed s1 = [4]" using s1 assms i by (simp add: committed_def in_get_def i_def)
  let ?u = "s1\<lparr>history_pos := 0, in_e := in_e s1 - 1\<rparr>"
  have "screen_ok ?u" using s1(8) by (simp add: screen_ok_def)
  then obtain u where u: "consputc BACKSPACE ?u = Some u" "screen_ok u" "in_e u = in_e s" "in_w u = in_e s + 1"
    "in_r u = in_r s" "in_buf u = (in_buf s)[i := 4]" "line_start u = in_e s" "history u = [[c]]"
    using consputc_fields [of ?u BACKSPACE] s1 by auto
  have cl: "clear_loop (s1\<lparr>history_pos := 0\<rparr>) = Some u"
    using u s1 by (subst clear_loop.simps, simp, subst clear_loop.simps, simp)
  let ?v = "u\<lparr>cursor := line_start u\<rparr>"
  have "screen_ok (in_put c ?v)" using u(2) by (simp add: screen_ok_def in_put_def)
  then obtain v where v: "consputc (sint c) (in_put c ?v) = Some v" "in_w v = in_e s + 1" "in_r v = in_r s"
    "in_buf v = (in_buf s)[i := c]"
    using consputc_fields [of "in_put c ?v" "sint c"] u assms by (auto simp: in_put_def i_def)
  have "cons_key (uint KEY_UP) s1 = Some (v\<lparr>cursor := in_e v\<rparr>)"
    using s1 u v cl assms
    by (simp add: cons_key_def key_up_def load_history_def clear_line_def KEY_UP_def KEY_DN_def INPUT_BUF_def)
  moreover have "committed (v\<lparr>cursor := in_e v\<rparr>) = [c]"
    using v assms i by (simp add: committed_def in_get_def i_def)
  ultimately show ?thesis using k1 c1 by blast
qed

theorem history_overwrites_committed_witness:
  "\<exists>s1 s2. cons_key 4 sample_console = Some s1 \<and> committed s1 = [4] \<and>
     cons_key (uint KEY_UP) s1 = Some s2 \<and> committed s2 = [97]"
  using history_overwrites_committed [of sample_console 97] sample_console_ok by simp

end
