(* ===== verification/Sh.thy ===== *)
theory Sh
  imports Prelude
begin

text \<open>
  The shell \<^verbatim>\<open>sh.c\<close>: the line editor with its filename completion, the recursive-descent parser
  and the in-place termination of the parsed strings.

  The line is the list of its bytes before the terminating NUL, a \<open>char *\<close> into it an index, and
  \<open>es\<close> the length. A parse ends in \<open>Done\<close>, in \<open>Panic\<close> with the message the shell prints, or, when
  the fuel given to the mutual recursion is used up, in \<open>Stuck\<close>.
\<close>

section \<open>Tokens\<close>

definition whitespace :: "byte list" where "whitespace = [32, 9, 13, 10, 11]"
definition symbols :: "byte list" where "symbols = [60, 124, 62, 38, 59, 40, 41]"

abbreviation is_ws :: "byte \<Rightarrow> bool" where "is_ws c \<equiv> c \<in> set whitespace"
abbreviation is_word :: "byte \<Rightarrow> bool" where
  "is_word c \<equiv> c \<notin> set whitespace \<and> c \<notin> set symbols"

text \<open>\<open>*s\<close>, with the NUL at \<open>es\<close>.\<close>

definition char_at :: "byte list \<Rightarrow> nat \<Rightarrow> byte" where
  "char_at s i = (if i < length s then s ! i else 0)"

text \<open>The loops \<open>while(s < es && P(*s)) s++\<close>.\<close>

function skip_while :: "(byte \<Rightarrow> bool) \<Rightarrow> byte list \<Rightarrow> nat \<Rightarrow> nat" where
  "skip_while P s i = (if i < length s \<and> P (s ! i) then skip_while P s (Suc i) else i)"
  by pat_completeness auto
termination by (relation "measure (\<lambda>(P, s, i). length s - i)") auto

declare skip_while.simps [simp del]

text \<open>The token at a position that is not blank: its kind and its end (the \<open>switch\<close> of \<open>gettoken\<close>).\<close>

definition token_at :: "byte list \<Rightarrow> nat \<Rightarrow> byte \<times> nat" where
  "token_at s q =
     (let c = char_at s q in
      if c = 0 then (0, q)
      else if c \<in> {124, 40, 41, 59, 38, 60} then (c, q + 1)
      else if c = 62 then (if char_at s (q + 1) = 62 then (43, q + 2) else (62, q + 1))
      else (97, skip_while is_word s q))"

text \<open>The token kind, its start and end, and the new position.\<close>

definition gettoken :: "byte list \<Rightarrow> nat \<Rightarrow> byte \<times> nat \<times> nat \<times> nat" where
  "gettoken s ps =
     (let q = skip_while is_ws s ps;
          (ret, eq) = token_at s q
      in (ret, q, eq, skip_while is_ws s eq))"

definition peek :: "byte list \<Rightarrow> byte list \<Rightarrow> nat \<Rightarrow> bool \<times> nat" where
  "peek s toks ps =
     (let p = skip_while is_ws s ps
      in (char_at s p \<noteq> 0 \<and> char_at s p \<in> set toks, p))"

section \<open>Commands\<close>

text \<open>
  \<open>struct cmd\<close> and its five variants; a string is the pair of its start and end pointers.
\<close>

datatype cmd =
    Exec_cmd "(nat \<times> nat) list"
  | Redir_cmd cmd nat nat nat nat
  | Pipe_cmd cmd cmd
  | List_cmd cmd cmd
  | Back_cmd cmd

definition MAXARGS :: nat where "MAXARGS = 10"
definition O_RDONLY :: nat where "O_RDONLY = 0"
definition O_WRONLY_CREATE :: nat where "O_WRONLY_CREATE = 0x201"

text \<open>The assignment to \<open>cmd->argv\<close> when \<open>cmd\<close> is under the redirections of \<open>ret\<close>.\<close>

fun set_args :: "(nat \<times> nat) list \<Rightarrow> cmd \<Rightarrow> cmd" where
  "set_args as (Exec_cmd _) = Exec_cmd as"
| "set_args as (Redir_cmd c q e m fd) = Redir_cmd (set_args as c) q e m fd"
| "set_args as c = c"

datatype 'a presult = Done 'a | Panic string | Stuck

fun pbind :: "'a presult \<Rightarrow> ('a \<Rightarrow> 'b presult) \<Rightarrow> 'b presult" where
  "pbind (Done x) f = f x"
| "pbind (Panic e) f = Panic e"
| "pbind Stuck f = Stuck"

section \<open>Progress of the scanner\<close>

lemma skip_while_step: "i < length s \<and> P (s ! i) \<Longrightarrow> skip_while P s i = skip_while P s (Suc i)"
  by (subst skip_while.simps) simp

lemma skip_while_done: "\<not> (i < length s \<and> P (s ! i)) \<Longrightarrow> skip_while P s i = i"
  by (subst skip_while.simps) auto

lemma skip_while_ge [simp]: "i \<le> skip_while P s i"
proof (induction P s i rule: skip_while.induct)
  case (1 P s i)
  then show ?case by (cases "i < length s \<and> P (s ! i)") (simp_all add: skip_while_step skip_while_done)
qed

lemma skip_while_le: "i \<le> length s \<Longrightarrow> skip_while P s i \<le> length s"
proof (induction P s i rule: skip_while.induct)
  case (1 P s i)
  then show ?case by (cases "i < length s \<and> P (s ! i)") (simp_all add: skip_while_step skip_while_done)
qed

lemma skip_while_stop: "skip_while P s i < length s \<Longrightarrow> \<not> P (s ! skip_while P s i)"
proof (induction P s i rule: skip_while.induct)
  case (1 P s i)
  then show ?case by (cases "i < length s \<and> P (s ! i)") (simp_all add: skip_while_step skip_while_done)
qed

lemma skip_while_all: "i \<le> j \<Longrightarrow> j < skip_while P s i \<Longrightarrow> P (s ! j) \<and> j < length s"
proof (induction P s i rule: skip_while.induct)
  case (1 P s i)
  show ?case
  proof (cases "i < length s \<and> P (s ! i)")
    case True
    then show ?thesis using 1 by (cases "j = i") (simp_all add: skip_while_step)
  next
    case False
    then show ?thesis using 1 by (simp add: skip_while_done)
  qed
qed

lemma skip_while_first: "i < length s \<Longrightarrow> P (s ! i) \<Longrightarrow> i < skip_while P s i"
  by (simp add: skip_while_step less_le_trans [OF lessI])

lemma char_at_in: "char_at s i \<noteq> 0 \<Longrightarrow> i < length s"
  by (simp add: char_at_def split: if_splits)

lemma peek_pos: "peek s toks ps = (b, p) \<Longrightarrow> ps \<le> p \<and> (ps \<le> length s \<longrightarrow> p \<le> length s) \<and> (b \<longrightarrow> p < length s)"
  by (auto simp: peek_def Let_def skip_while_le char_at_in)

text \<open>A token that is a word: not empty, made of word characters, and delimited on the right.\<close>

definition word_tok :: "byte list \<Rightarrow> nat \<times> nat \<Rightarrow> bool" where
  "word_tok s = (\<lambda>(q, e). q < e \<and> e \<le> length s \<and> (\<forall>j. q \<le> j \<and> j < e \<longrightarrow> is_word (s ! j)) \<and>
     (e < length s \<longrightarrow> \<not> is_word (s ! e)))"

lemma token_at_cases:
  assumes "token_at s q = (tok, e)"
  obtains "tok = 0" "e = q" "char_at s q = 0"
  | "tok \<noteq> 0" "tok \<noteq> 97" "e = q + 1" "char_at s q \<noteq> 0"
  | "tok = 43" "e = q + 2" "char_at s q \<noteq> 0" "char_at s (q + 1) \<noteq> 0"
  | "tok = 97" "e = skip_while is_word s q" "char_at s q \<noteq> 0" "char_at s q \<notin> set symbols"
proof -
  have neq: "(0::byte) \<noteq> 62" "(0::byte) \<noteq> 43" "(62::byte) \<noteq> 97" "(124::byte) \<noteq> 97" "(40::byte) \<noteq> 97"
    "(41::byte) \<noteq> 97" "(59::byte) \<noteq> 97" "(38::byte) \<noteq> 97" "(60::byte) \<noteq> 97"
    by simp_all
  show ?thesis
  proof (cases "char_at s q = 0 \<or> char_at s q \<in> {124, 40, 41, 59, 38, 60} \<or> char_at s q = 62")
    case True
    then show ?thesis using that assms neq by (elim disjE) (auto simp: token_at_def Let_def split: if_splits)
  next
    case False
    then have "tok = 97 \<and> e = skip_while is_word s q" using assms by (simp add: token_at_def Let_def)
    moreover have "char_at s q \<notin> set symbols" using False by (simp add: symbols_def)
    ultimately show ?thesis using that False by blast
  qed
qed

lemma token_at_end:
  assumes t: "token_at s q = (tok, e)" and ws: "q < length s \<Longrightarrow> \<not> is_ws (s ! q)"
  shows "q \<le> e" "tok \<noteq> 0 \<Longrightarrow> q < e" "q \<le> length s \<Longrightarrow> e \<le> length s"
    and "tok = 97 \<Longrightarrow> word_tok s (q, e)" "tok = 0 \<longleftrightarrow> char_at s q = 0"
proof -
  have "q \<le> e \<and> (tok \<noteq> 0 \<longrightarrow> q < e) \<and> (q \<le> length s \<longrightarrow> e \<le> length s) \<and>
     (tok = 97 \<longrightarrow> word_tok s (q, e)) \<and> (tok = 0 \<longleftrightarrow> char_at s q = 0)"
    using t
  proof (cases rule: token_at_cases)
    case 4
    have q: "q < length s" using 4(3) by (rule char_at_in)
    then have "is_word (s ! q)" using ws 4(4) by (simp add: char_at_def)
    then have "q < e" "e \<le> length s" using q 4(2) by (simp_all add: skip_while_first skip_while_le)
    moreover have "word_tok s (q, e)"
      using skip_while_all [of q _ is_word s] skip_while_stop [of is_word s q] calculation
      unfolding word_tok_def 4(2) by blast
    ultimately show ?thesis using 4 by simp
  qed (auto dest: char_at_in)
  then show "q \<le> e" "tok \<noteq> 0 \<Longrightarrow> q < e" "q \<le> length s \<Longrightarrow> e \<le> length s"
    "tok = 97 \<Longrightarrow> word_tok s (q, e)" "tok = 0 \<longleftrightarrow> char_at s q = 0" by blast+
qed

lemma gettoken_pos:
  assumes "gettoken s ps = (tok, q, e, p)"
  shows "ps \<le> p" "ps \<le> length s \<Longrightarrow> p \<le> length s"
    and "tok \<noteq> 0 \<Longrightarrow> ps < p"
    and "tok = 97 \<Longrightarrow> word_tok s (q, e)"
proof -
  have q: "q = skip_while is_ws s ps" and p: "p = skip_while is_ws s e" and t: "token_at s q = (tok, e)"
    using assms by (auto simp: gettoken_def Let_def split: prod.splits)
  have stop: "q < length s \<Longrightarrow> \<not> is_ws (s ! q)" using skip_while_stop q by blast
  have qs: "ps \<le> q" "ps \<le> length s \<Longrightarrow> q \<le> length s" by (simp_all add: q skip_while_le)
  have ep: "e \<le> p" "e \<le> length s \<Longrightarrow> p \<le> length s" by (simp_all add: p skip_while_le)
  note te = token_at_end [OF t stop]
  show "ps \<le> p" using qs(1) te(1) ep(1) by linarith
  show "ps \<le> length s \<Longrightarrow> p \<le> length s" using qs(2) te(3) ep(2) by blast
  show "tok \<noteq> 0 \<Longrightarrow> ps < p" using qs(1) te(2) ep(1) by linarith
  show "tok = 97 \<Longrightarrow> word_tok s (q, e)" by (rule te(4))
qed

text \<open>After a successful \<open>peek\<close> the next token is the one that was seen.\<close>

lemma peek_gettoken:
  assumes "peek s toks ps = (b, p)" "b" "gettoken s p = (tok, q, e, p2)"
  shows "p < p2" "p < length s" "ps \<le> p" "ps \<le> length s \<Longrightarrow> p2 \<le> length s"
proof -
  have p: "p = skip_while is_ws s ps" "char_at s p \<noteq> 0" using assms(1,2) by (auto simp: peek_def Let_def)
  have pl: "p < length s" using p(2) char_at_in by blast
  have "\<not> is_ws (s ! p)" using skip_while_stop pl p(1) by blast
  then have q: "skip_while is_ws s p = p" by (subst skip_while.simps) simp
  have t: "token_at s p = (tok, e)" using assms(3) q by (auto simp: gettoken_def Let_def split: prod.splits)
  have "tok \<noteq> 0" using token_at_end(5) [OF t] \<open>\<not> is_ws (s ! p)\<close> p(2) by blast
  then show "p < p2" using gettoken_pos(3) [OF assms(3)] by blast
  show "p < length s" by (rule pl)
  show "ps \<le> p" using p(1) by simp
  show "ps \<le> length s \<Longrightarrow> p2 \<le> length s" using gettoken_pos(2) [OF assms(3)] pl by simp
qed

section \<open>The parser\<close>

function parseredirs :: "byte list \<Rightarrow> cmd \<Rightarrow> nat \<Rightarrow> (cmd \<times> nat) presult" where
  "parseredirs s c ps =
     (let (b, ps1) = peek s [60, 62] ps in
      if \<not> b then Done (c, ps1)
      else
        let (tok, q1, e1, ps2) = gettoken s ps1;
            (tok2, q, eq, ps3) = gettoken s ps2 in
        if tok2 \<noteq> 97 then Panic ''missing file for redirection''
        else
          parseredirs s
            (if tok = 60 then Redir_cmd c q eq O_RDONLY 0
             else if tok = 62 then Redir_cmd c q eq O_WRONLY_CREATE 1
             else if tok = 43 then Redir_cmd c q eq O_WRONLY_CREATE 1
             else c) ps3)"
  by pat_completeness auto
termination
proof (relation "measure (\<lambda>(s, c, ps). length s - ps)", goal_cases)
  case (2 s c ps x b ps1 y tok y1 q1 y2 e1 ps2 z tok2 z1 q z2 eq ps3)
  have pk: "peek s [60, 62] ps = (True, ps1)" using 2 by simp
  have g1: "gettoken s ps1 = (tok, q1, e1, ps2)" using 2 by simp
  have g2: "gettoken s ps2 = (tok2, q, eq, ps3)" using 2 by simp
  show ?case using peek_gettoken [OF pk TrueI g1] gettoken_pos(1) [OF g2] by simp
qed simp

declare parseredirs.simps [simp del]

text \<open>The invariant of the parsed command.\<close>

fun cmd_toks :: "cmd \<Rightarrow> (nat \<times> nat) list" where
  "cmd_toks (Exec_cmd as) = as"
| "cmd_toks (Redir_cmd c q e m fd) = cmd_toks c @ [(q, e)]"
| "cmd_toks (Pipe_cmd l r) = cmd_toks l @ cmd_toks r"
| "cmd_toks (List_cmd l r) = cmd_toks l @ cmd_toks r"
| "cmd_toks (Back_cmd c) = cmd_toks c"

fun cmd_wf :: "byte list \<Rightarrow> cmd \<Rightarrow> bool" where
  "cmd_wf s (Exec_cmd as) \<longleftrightarrow> length as < MAXARGS \<and> list_all (word_tok s) as"
| "cmd_wf s (Redir_cmd c q e m fd) \<longleftrightarrow> cmd_wf s c \<and> word_tok s (q, e)"
| "cmd_wf s (Pipe_cmd l r) \<longleftrightarrow> cmd_wf s l \<and> cmd_wf s r"
| "cmd_wf s (List_cmd l r) \<longleftrightarrow> cmd_wf s l \<and> cmd_wf s r"
| "cmd_wf s (Back_cmd c) \<longleftrightarrow> cmd_wf s c"

definition parse_post :: "byte list \<Rightarrow> nat \<Rightarrow> (cmd \<times> nat) presult \<Rightarrow> bool" where
  "parse_post s ps r = (case r of Done (c, p) \<Rightarrow> cmd_wf s c \<and> ps \<le> p \<and> p \<le> length s
     | Panic _ \<Rightarrow> True | Stuck \<Rightarrow> False)"

lemma parse_post_simps [simp]:
  "parse_post s ps (Done (c, p)) \<longleftrightarrow> cmd_wf s c \<and> ps \<le> p \<and> p \<le> length s"
  "parse_post s ps (Panic e)" "\<not> parse_post s ps Stuck"
  by (simp_all add: parse_post_def)

lemma parse_post_mono: "parse_post s ps r \<Longrightarrow> ps0 \<le> ps \<Longrightarrow> parse_post s ps0 r"
  by (auto simp: parse_post_def split: presult.splits)

lemma pbind_post:
  assumes "parse_post s ps r"
    and "\<And>c p. r = Done (c, p) \<Longrightarrow> cmd_wf s c \<Longrightarrow> ps \<le> p \<Longrightarrow> p \<le> length s \<Longrightarrow> parse_post s ps0 (f (c, p))"
  shows "parse_post s ps0 (pbind r f)"
  using assms by (cases r) (auto simp: parse_post_def)

lemma parseredirs_post:
  "ps \<le> length s \<Longrightarrow> cmd_wf s c \<Longrightarrow> parse_post s ps (parseredirs s c ps)"
proof (induction s c ps rule: parseredirs.induct)
  case (1 s c ps)
  obtain b ps1 where pk: "peek s [60, 62] ps = (b, ps1)" by (metis surj_pair)
  obtain tok q1 e1 ps2 where g1: "gettoken s ps1 = (tok, q1, e1, ps2)" by (metis surj_pair)
  obtain tok2 q eq ps3 where g2: "gettoken s ps2 = (tok2, q, eq, ps3)" by (metis surj_pair)
  note pos = peek_pos [OF pk] gettoken_pos [OF g1] gettoken_pos [OF g2]
  show ?case
  proof (cases "b \<and> tok2 = 97")
    case True
    let ?c = "if tok = 60 then Redir_cmd c q eq O_RDONLY 0
             else if tok = 62 then Redir_cmd c q eq O_WRONLY_CREATE 1
             else if tok = 43 then Redir_cmd c q eq O_WRONLY_CREATE 1 else c"
    have nb: "\<not> \<not> b" "\<not> tok2 \<noteq> 97" using True by simp_all
    have wf: "cmd_wf s ?c" using pos(9) True "1.prems"(2) by simp
    have p: "ps \<le> ps3" "ps3 \<le> length s" using pos True "1.prems"(1) by simp_all
    have "parse_post s ps3 (parseredirs s ?c ps3)"
      by (rule "1.IH" [OF refl pk [symmetric] nb(1) refl g1 [symmetric] refl refl refl g2 [symmetric] refl refl nb(2) p(2) wf])
    then have "parse_post s ps (parseredirs s ?c ps3)" using p(1) parse_post_mono by blast
    then show ?thesis using nb by (subst parseredirs.simps) (simp only: pk g1 g2 Let_def split_conv if_False simp_thms)
  next
    case False
    then show ?thesis using pos "1.prems" by (subst parseredirs.simps) (auto simp: pk g1 g2)
  qed
qed

text \<open>
  The loop of \<open>parseexec\<close>: \<open>as\<close> are the arguments so far, whose number is \<open>argc\<close>.
\<close>

function parseargs :: "byte list \<Rightarrow> (nat \<times> nat) list \<Rightarrow> cmd \<Rightarrow> nat \<Rightarrow> (cmd \<times> nat) presult" where
  "parseargs s as ret ps =
     (let (b, ps1) = peek s [124, 41, 38, 59] ps in
      if b then Done (set_args as ret, ps1)
      else
        let (tok, q, eq, ps2) = gettoken s ps1 in
        if tok = 0 then Done (set_args as ret, ps2)
        else if tok \<noteq> 97 then Panic ''syntax''
        else if length as + 1 \<ge> MAXARGS then Panic ''too many args''
        else case parseredirs s ret ps2 of
            Done (ret, ps3) \<Rightarrow> parseargs s (as @ [(q, eq)]) ret ps3
          | Panic e \<Rightarrow> Panic e
          | Stuck \<Rightarrow> Stuck)"
  by pat_completeness auto
termination
proof (relation "measure (\<lambda>(s, as, c, ps). MAXARGS - length as)", goal_cases)
  case 1
  show ?case by simp
next
  case (2 s as ret ps)
  show ?case using 2(10) by simp
qed

declare parseargs.simps [simp del]

text \<open>
  The mutual recursion, with \<open>n\<close> bounding its depth.
\<close>

function parsebacks :: "byte list \<Rightarrow> cmd \<Rightarrow> nat \<Rightarrow> cmd \<times> nat" where
  "parsebacks s c ps =
     (let (b, ps1) = peek s [38] ps in
      if b then (let (tok, q, e, ps2) = gettoken s ps1 in parsebacks s (Back_cmd c) ps2)
      else (c, ps1))"
  by pat_completeness auto
termination
proof (relation "measure (\<lambda>(s, c, ps). length s - ps)", goal_cases)
  case (2 s c ps x b ps1 y tok y1 q y2 e ps2)
  have pk: "peek s [38] ps = (True, ps1)" using 2 by simp
  have g: "gettoken s ps1 = (tok, q, e, ps2)" using 2 by simp
  show ?case using peek_gettoken [OF pk TrueI g] by simp
qed simp

declare parsebacks.simps [simp del]

fun parseline :: "nat \<Rightarrow> byte list \<Rightarrow> nat \<Rightarrow> (cmd \<times> nat) presult"
  and parsepipe :: "nat \<Rightarrow> byte list \<Rightarrow> nat \<Rightarrow> (cmd \<times> nat) presult"
  and parseexec :: "nat \<Rightarrow> byte list \<Rightarrow> nat \<Rightarrow> (cmd \<times> nat) presult"
  and parseblock :: "nat \<Rightarrow> byte list \<Rightarrow> nat \<Rightarrow> (cmd \<times> nat) presult" where
  "parseline 0 s ps = Stuck"
| "parseline (Suc n) s ps =
     pbind (parsepipe n s ps) (\<lambda>(c, ps).
       let (c, ps) = parsebacks s c ps;
           (b, ps) = peek s [59] ps in
       if b then
         let (tok, q, e, ps) = gettoken s ps in
         pbind (parseline n s ps) (\<lambda>(r, ps). Done (List_cmd c r, ps))
       else Done (c, ps))"
| "parsepipe 0 s ps = Stuck"
| "parsepipe (Suc n) s ps =
     pbind (parseexec n s ps) (\<lambda>(c, ps).
       let (b, ps) = peek s [124] ps in
       if b then
         let (tok, q, e, ps) = gettoken s ps in
         pbind (parsepipe n s ps) (\<lambda>(r, ps). Done (Pipe_cmd c r, ps))
       else Done (c, ps))"
| "parseexec 0 s ps = Stuck"
| "parseexec (Suc n) s ps =
     (let (b, ps) = peek s [40] ps in
      if b then parseblock n s ps
      else pbind (parseredirs s (Exec_cmd []) ps) (\<lambda>(ret, ps). parseargs s [] ret ps))"
| "parseblock 0 s ps = Stuck"
| "parseblock (Suc n) s ps =
     (let (b, ps) = peek s [40] ps in
      if \<not> b then Panic ''parseblock''
      else
        let (tok, q, e, ps) = gettoken s ps in
        pbind (parseline n s ps) (\<lambda>(c, ps).
          let (b, ps) = peek s [41] ps in
          if \<not> b then Panic ''syntax - missing )''
          else
            let (tok, q, e, ps) = gettoken s ps in
            parseredirs s c ps))"

section \<open>Termination of the strings\<close>

text \<open>The buffer holds the line and its NUL.\<close>

fun nulterminate :: "cmd \<Rightarrow> byte list \<Rightarrow> byte list" where
  "nulterminate (Exec_cmd as) buf = fold (\<lambda>(q, e) b. b[e := 0]) as buf"
| "nulterminate (Redir_cmd c q e m fd) buf = (nulterminate c buf)[e := 0]"
| "nulterminate (Pipe_cmd l r) buf = nulterminate r (nulterminate l buf)"
| "nulterminate (List_cmd l r) buf = nulterminate r (nulterminate l buf)"
| "nulterminate (Back_cmd c) buf = nulterminate c buf"

definition parse_fuel :: "byte list \<Rightarrow> nat" where "parse_fuel s = 4 * length s + 4"

definition parsecmd :: "byte list \<Rightarrow> (cmd \<times> byte list) presult" where
  "parsecmd s =
     pbind (parseline (parse_fuel s) s 0) (\<lambda>(c, ps).
       let (b, ps) = peek s [] ps in
       if ps \<noteq> length s then Panic ''syntax''
       else Done (c, nulterminate c (s @ [0])))"

text \<open>The C string that starts at index \<open>q\<close> of a buffer.\<close>

definition cstr_at :: "byte list \<Rightarrow> nat \<Rightarrow> byte list" where
  "cstr_at buf q = takeWhile (\<lambda>c. c \<noteq> 0) (drop q buf)"

section \<open>The line editor\<close>

text \<open>
  Stores into an array are checked: an index outside it is \<open>None\<close>. The directory \<open>.\<close> is given by its
  entries (\<open>None\<close> when it cannot be opened) and \<open>stat_ok\<close> says for which names \<open>stat\<close> succeeds.
  Everything written to the terminal is collected in the output.
\<close>

definition DIRSIZ :: nat where "DIRSIZ = 14"

type_synonym dirents = "(u16 \<times> byte list) list"

definition put :: "byte list \<Rightarrow> nat \<Rightarrow> byte \<Rightarrow> byte list option" where
  "put buf i c = (if i < length buf then Some (buf[i := c]) else None)"

definition hd0 :: "byte list \<Rightarrow> byte" where "hd0 s = (if s = [] then 0 else hd s)"

fun sh_strncmp :: "byte list \<Rightarrow> byte list \<Rightarrow> nat \<Rightarrow> int" where
  "sh_strncmp p q 0 = 0"
| "sh_strncmp p q (Suc n) =
     (if hd0 p \<noteq> 0 \<and> hd0 p = hd0 q then sh_strncmp (tl p) (tl q) n else uint (hd0 p) - uint (hd0 q))"

fun word_start :: "byte list \<Rightarrow> nat \<Rightarrow> nat" where
  "word_start buf 0 = 0"
| "word_start buf (Suc n) = (if buf ! n \<noteq> 32 \<and> buf ! n \<noteq> 9 then word_start buf n else Suc n)"

text \<open>The first entry that \<open>stat\<close> finds and that starts with the prefix.\<close>

fun first_match :: "(byte list \<Rightarrow> bool) \<Rightarrow> dirents \<Rightarrow> byte list \<Rightarrow> nat \<Rightarrow> byte list option" where
  "first_match stat_ok [] prefix plen = None"
| "first_match stat_ok ((inum, nm) # ds) prefix plen =
     (let name = takeWhile (\<lambda>c. c \<noteq> 0) (take DIRSIZ nm) in
      if inum = 0 then first_match stat_ok ds prefix plen
      else if \<not> stat_ok name then first_match stat_ok ds prefix plen
      else if sh_strncmp name prefix plen = 0 then Some name
      else first_match stat_ok ds prefix plen)"

fun append_rest :: "byte list \<Rightarrow> nat \<Rightarrow> byte list \<Rightarrow> nat \<Rightarrow> (byte list \<times> nat) option" where
  "append_rest [] nbuf buf n = Some (buf, n)"
| "append_rest (c # cs) nbuf buf n =
     (if n + 1 < nbuf then do { buf \<leftarrow> put buf n c; append_rest cs nbuf buf (n + 1) } else Some (buf, n))"

definition autocomplete ::
  "(byte list \<Rightarrow> bool) \<Rightarrow> dirents option \<Rightarrow> nat \<Rightarrow> byte list \<Rightarrow> nat \<Rightarrow> (byte list \<times> nat \<times> byte list) option" where
  "autocomplete stat_ok dot nbuf buf n =
     (let start = word_start buf n; plen = n - start in
      if plen = 0 then Some (buf, n, [])
      else
        let plen = (if plen > DIRSIZ then DIRSIZ else plen);
            prefix = take plen (drop start buf) in
        case dot of None \<Rightarrow> Some (buf, n, [])
        | Some ds \<Rightarrow>
            (case first_match stat_ok ds prefix plen of None \<Rightarrow> Some (buf, n, [])
             | Some name \<Rightarrow> do {
                 (buf, n) \<leftarrow> append_rest (drop plen name) nbuf buf n;
                 (buf, n) \<leftarrow> (if n + 1 < nbuf then do { buf \<leftarrow> put buf n 32; Some (buf, n + 1) } else Some (buf, n));
                 buf \<leftarrow> put buf n 0;
                 Some (buf, n, [10, 36, 32] @ take n buf)
               }))"

text \<open>
  \<open>readline\<close>: one byte is read per turn, and no byte is end of file. The result is the returned
  number, the buffer, the output and the input that is left.
\<close>

fun readline :: "(byte list \<Rightarrow> bool) \<Rightarrow> dirents option \<Rightarrow> nat \<Rightarrow> byte list \<Rightarrow> byte list \<Rightarrow> nat \<Rightarrow> byte list
    \<Rightarrow> (int \<times> byte list \<times> byte list \<times> byte list) option" where
  "readline stat_ok dot nbuf [] buf n out =
     (if n + 1 < nbuf then do { buf \<leftarrow> put buf 0 0; Some (-1, buf, out, []) }
      else do { buf \<leftarrow> put buf n 0; Some (int n, buf, out, []) })"
| "readline stat_ok dot nbuf (c0 # input) buf n out =
     (if n + 1 < nbuf then
        let c = (if c0 = 13 then 10 else c0) in
        if c = 10 then do {
          buf \<leftarrow> put buf n c;
          buf \<leftarrow> put buf (n + 1) 0;
          Some (int (n + 1), buf, out @ [c], input)
        }
        else if c = 8 \<or> c = 0x7f then
          (if n > 0 then readline stat_ok dot nbuf input buf (n - 1) (out @ [8, 32, 8])
           else readline stat_ok dot nbuf input buf n out)
        else if c = 9 then do {
          (buf, n, o') \<leftarrow> autocomplete stat_ok dot nbuf buf n;
          readline stat_ok dot nbuf input buf n (out @ o')
        }
        else do {
          buf \<leftarrow> put buf n c;
          readline stat_ok dot nbuf input buf (n + 1) (out @ [c])
        }
      else do { buf \<leftarrow> put buf n 0; Some (int n, buf, out, c0 # input) })"

text \<open>\<open>getcmd\<close>: the prompt, a cleared buffer, and \<open>-1\<close> at end of file or for an empty buffer.\<close>

definition getcmd :: "(byte list \<Rightarrow> bool) \<Rightarrow> dirents option \<Rightarrow> nat \<Rightarrow> byte list
    \<Rightarrow> (int \<times> byte list \<times> byte list \<times> byte list) option" where
  "getcmd stat_ok dot nbuf input = do {
     (r, buf, out, input) \<leftarrow> readline stat_ok dot nbuf input (replicate nbuf 0) 0 [36, 32];
     if r < 0 then Some (-1, buf, out, input)
     else if hd0 buf = 0 then Some (-1, buf, out, input)
     else Some (0, buf, out, input)
   }"

section \<open>The parser returns well-formed commands\<close>

lemma set_args_wf: "cmd_wf s c \<Longrightarrow> length as < MAXARGS \<Longrightarrow> list_all (word_tok s) as \<Longrightarrow> cmd_wf s (set_args as c)"
  by (induction as c rule: set_args.induct) auto

lemma parseargs_post:
  "ps \<le> length s \<Longrightarrow> cmd_wf s ret \<Longrightarrow> length as < MAXARGS \<Longrightarrow> list_all (word_tok s) as \<Longrightarrow>
   parse_post s ps (parseargs s as ret ps)"
proof (induction s as ret ps rule: parseargs.induct)
  case (1 s as ret ps)
  obtain b ps1 where pk: "peek s [124, 41, 38, 59] ps = (b, ps1)" by (metis surj_pair)
  obtain tok q eq ps2 where g: "gettoken s ps1 = (tok, q, eq, ps2)" by (metis surj_pair)
  note pos = peek_pos [OF pk] gettoken_pos [OF g]
  have wf: "cmd_wf s (set_args as ret)" using "1.prems" set_args_wf by blast
  have p2: "ps \<le> ps2" "ps2 \<le> length s" using pos "1.prems"(1) by simp_all
  consider "b \<or> tok \<noteq> 97 \<or> length as + 1 \<ge> MAXARGS" | "\<not> b" "tok = 97" "\<not> length as + 1 \<ge> MAXARGS" by blast
  then show ?case
  proof cases
    case 1
    then show ?thesis using wf p2 pos "1.prems"(1) by (subst parseargs.simps) (auto simp: pk g)
  next
    case 2
    have post: "parse_post s ps2 (parseredirs s ret ps2)"
      using parseredirs_post p2(2) "1.prems"(2) by blast
    show ?thesis
    proof (cases "parseredirs s ret ps2")
      case (Done x)
      obtain r ps3 where x: "x = (r, ps3)" by (metis surj_pair)
      have r: "cmd_wf s r" "ps2 \<le> ps3" "ps3 \<le> length s" using post by (simp_all add: Done x)
      have as: "length (as @ [(q, eq)]) < MAXARGS" "list_all (word_tok s) (as @ [(q, eq)])"
        using 2(2,3) pos(5) "1.prems"(4) by simp_all
      have t: "tok \<noteq> 0" "\<not> tok \<noteq> 97" using 2 by simp_all
      have "parse_post s ps3 (parseargs s (as @ [(q, eq)]) r ps3)"
        using "1.IH" [OF refl pk [symmetric] 2(1) refl g [symmetric] refl refl t 2(3) Done x [symmetric] r(3) r(1) as] .
      then have "parse_post s ps (parseargs s (as @ [(q, eq)]) r ps3)"
        using r(2) p2(1) parse_post_mono le_trans by blast
      then show ?thesis using 2 t by (subst parseargs.simps) (simp add: pk g Done x)
    next
      case (Panic e)
      then show ?thesis using 2 by (subst parseargs.simps) (simp add: pk g)
    next
      case Stuck
      then show ?thesis using post by simp
    qed
  qed
qed

lemma parsebacks_post:
  "ps \<le> length s \<Longrightarrow> cmd_wf s c \<Longrightarrow> parse_post s ps (Done (parsebacks s c ps))"
proof (induction s c ps rule: parsebacks.induct)
  case (1 s c ps)
  obtain b ps1 where pk: "peek s [38] ps = (b, ps1)" by (metis surj_pair)
  obtain tok q e ps2 where g: "gettoken s ps1 = (tok, q, e, ps2)" by (metis surj_pair)
  show ?case
  proof (cases b)
    case True
    note pos = peek_gettoken [OF pk True g]
    have wf: "cmd_wf s (Back_cmd c)" using "1.prems" by simp
    have "parse_post s ps2 (Done (parsebacks s (Back_cmd c) ps2))"
      by (rule "1.IH" [OF refl pk [symmetric] True refl g [symmetric] refl refl pos(4) [OF "1.prems"(1)] wf])
    then have "parse_post s ps (Done (parsebacks s (Back_cmd c) ps2))"
      using pos parse_post_mono [of s ps2] by simp
    then show ?thesis using True by (subst parsebacks.simps) (simp add: pk g)
  next
    case False
    then show ?thesis using peek_pos [OF pk] "1.prems" by (subst parsebacks.simps) (simp add: pk)
  qed
qed

text \<open>The fuel each parser needs at distance \<open>d\<close> from the end of the line.\<close>

lemma parse_all_post:
  assumes "ps \<le> length s"
  shows "4 * (length s - ps) + 4 \<le> n \<Longrightarrow> parse_post s ps (parseline n s ps)"
    and "4 * (length s - ps) + 3 \<le> n \<Longrightarrow> parse_post s ps (parsepipe n s ps)"
    and "4 * (length s - ps) + 2 \<le> n \<Longrightarrow> parse_post s ps (parseexec n s ps)"
    and "4 * (length s - ps) + 1 \<le> n \<Longrightarrow> parse_post s ps (parseblock n s ps)"
  using assms
proof (induction n arbitrary: ps)
  case (Suc n)
  {
    case 1
    have "parse_post s ps (parsepipe n s ps)" using Suc(2) 1 by simp
    then show ?case unfolding parseline.simps
    proof (rule pbind_post)
      fix c p
      assume cp: "cmd_wf s c" "ps \<le> p" "p \<le> length s"
      obtain c' p' where bk: "parsebacks s c p = (c', p')" by (metis surj_pair)
      have b: "cmd_wf s c'" "p \<le> p'" "p' \<le> length s" using parsebacks_post [OF cp(3,1)] by (simp_all add: bk)
      obtain t p1 where pk: "peek s [59] p' = (t, p1)" by (metis surj_pair)
      obtain tok q e p2 where g: "gettoken s p1 = (tok, q, e, p2)" by (metis surj_pair)
      show "parse_post s ps ((\<lambda>(c, ps). let (c, ps) = parsebacks s c ps; (b, ps) = peek s [59] ps in
          if b then let (tok, q, e, ps) = gettoken s ps in
             pbind (parseline n s ps) (\<lambda>(r, ps). Done (List_cmd c r, ps))
          else Done (c, ps)) (c, p))"
      proof (cases t)
        case True
        note pos = peek_gettoken [OF pk True g]
        have "parse_post s p2 (parseline n s p2)"
          using Suc(1) [of p2] pos b cp 1 by simp
        then have "parse_post s ps (pbind (parseline n s p2) (\<lambda>(r, ps). Done (List_cmd c' r, ps)))"
          by (rule pbind_post) (use pos b cp in simp)
        then show ?thesis by (simp add: bk pk g True)
      next
        case False
        then show ?thesis using peek_pos [OF pk] b cp by (simp add: bk pk)
      qed
    qed
  next
    case 2
    have "parse_post s ps (parseexec n s ps)" using Suc(3) 2 by simp
    then show ?case unfolding parsepipe.simps
    proof (rule pbind_post)
      fix c p
      assume cp: "cmd_wf s c" "ps \<le> p" "p \<le> length s"
      obtain t p1 where pk: "peek s [124] p = (t, p1)" by (metis surj_pair)
      obtain tok q e p2 where g: "gettoken s p1 = (tok, q, e, p2)" by (metis surj_pair)
      show "parse_post s ps ((\<lambda>(c, ps). let (b, ps) = peek s [124] ps in
          if b then let (tok, q, e, ps) = gettoken s ps in
             pbind (parsepipe n s ps) (\<lambda>(r, ps). Done (Pipe_cmd c r, ps))
          else Done (c, ps)) (c, p))"
      proof (cases t)
        case True
        note pos = peek_gettoken [OF pk True g]
        have "parse_post s p2 (parsepipe n s p2)"
          using Suc(2) [of p2] pos cp 2 by simp
        then have "parse_post s ps (pbind (parsepipe n s p2) (\<lambda>(r, ps). Done (Pipe_cmd c r, ps)))"
          by (rule pbind_post) (use pos cp in simp)
        then show ?thesis by (simp add: pk g True)
      next
        case False
        then show ?thesis using peek_pos [OF pk] cp by (simp add: pk)
      qed
    qed
  next
    case 3
    obtain t p1 where pk: "peek s [40] ps = (t, p1)" by (metis surj_pair)
    note pp = peek_pos [OF pk]
    show ?case
    proof (cases t)
      case True
      have "length s - p1 \<le> length s - ps" using pp by (intro diff_le_mono2) blast
      then have "parse_post s p1 (parseblock n s p1)" using Suc(4) [of p1] pp 3 by simp
      then show ?thesis using True pp parse_post_mono by (simp add: pk)
    next
      case False
      have "parse_post s p1 (parseredirs s (Exec_cmd []) p1)"
        using parseredirs_post pp 3 by (simp add: MAXARGS_def)
      then have "parse_post s ps (pbind (parseredirs s (Exec_cmd []) p1) (\<lambda>(ret, ps). parseargs s [] ret ps))"
      proof (rule pbind_post)
        fix c p
        assume cp: "cmd_wf s c" "p1 \<le> p" "p \<le> length s"
        have "parse_post s p (parseargs s [] c p)" using cp by (intro parseargs_post) (simp_all add: MAXARGS_def)
        then show "parse_post s ps (case (c, p) of (ret, ps) \<Rightarrow> parseargs s [] ret ps)"
          using cp(2) pp parse_post_mono [of s p _ ps] by simp
      qed
      then show ?thesis by (simp add: pk False)
    qed
  next
    case 4
    obtain t p1 where pk: "peek s [40] ps = (t, p1)" by (metis surj_pair)
    obtain tok q e p2 where g: "gettoken s p1 = (tok, q, e, p2)" by (metis surj_pair)
    show ?case
    proof (cases t)
      case True
      note pos = peek_gettoken [OF pk True g]
      have "parse_post s p2 (parseline n s p2)" using Suc(1) [of p2] pos 4 by simp
      then have "parse_post s ps (pbind (parseline n s p2) (\<lambda>(c, ps).
          let (b, ps) = peek s [41] ps in
          if \<not> b then Panic ''syntax - missing )''
          else let (tok, q, e, ps) = gettoken s ps in parseredirs s c ps))"
      proof (rule pbind_post)
        fix c p
        assume cp: "cmd_wf s c" "p2 \<le> p" "p \<le> length s"
        obtain t' p3 where pk': "peek s [41] p = (t', p3)" by (metis surj_pair)
        obtain tok' q' e' p4 where g': "gettoken s p3 = (tok', q', e', p4)" by (metis surj_pair)
        show "parse_post s ps ((\<lambda>(c, ps). let (b, ps) = peek s [41] ps in
          if \<not> b then Panic ''syntax - missing )''
          else let (tok, q, e, ps) = gettoken s ps in parseredirs s c ps) (c, p))"
        proof (cases t')
          case True
          note pos' = peek_gettoken [OF pk' True g']
          have "parse_post s p4 (parseredirs s c p4)" using parseredirs_post pos' cp by simp
          then show ?thesis using pos pos' cp parse_post_mono [of s p4 _ ps] by (simp add: pk' g' True)
        qed (simp add: pk')
      qed
      then show ?thesis by (simp add: pk g True)
    qed (simp add: pk)
  }
qed simp_all

section \<open>Termination in place\<close>

lemma nulterminate_length [simp]: "length (nulterminate c buf) = length buf"
proof (induction c arbitrary: buf)
  case (Exec_cmd as)
  show ?case by (induction as arbitrary: buf) auto
qed simp_all

lemma fold_nul_nth:
  "i < length buf \<Longrightarrow> fold (\<lambda>(q, e) b. b[e := 0]) as buf ! i = (if i \<in> snd ` set as then 0 else buf ! i)"
  by (induction as arbitrary: buf) (simp_all add: nth_list_update split_beta)

lemma nulterminate_nth:
  "i < length buf \<Longrightarrow> nulterminate c buf ! i = (if i \<in> snd ` set (cmd_toks c) then 0 else buf ! i)"
proof (induction c arbitrary: buf)
  case (Redir_cmd c q e m fd)
  then show ?case by (cases "e = i") (simp_all add: image_Un)
qed (simp_all add: fold_nul_nth image_Un)

lemma cmd_wf_toks: "cmd_wf s c \<Longrightarrow> t \<in> set (cmd_toks c) \<Longrightarrow> word_tok s t"
  by (induction c) (auto simp: list_all_iff)

lemma takeWhile_prefix:
  assumes "q + k < length b" "\<And>j. j < k \<Longrightarrow> b ! (q + j) \<noteq> 0" "b ! (q + k) = (0 :: byte)"
  shows "takeWhile (\<lambda>c. c \<noteq> 0) (drop q b) = take k (drop q b)"
proof (rule takeWhile_eq_take_P_nth)
  show "\<And>i. i < k \<Longrightarrow> i < length (drop q b) \<Longrightarrow> drop q b ! i \<noteq> 0" using assms by simp
  show "k < length (drop q b) \<Longrightarrow> \<not> drop q b ! k \<noteq> 0" using assms by simp
qed

lemma nulterminate_token:
  assumes wf: "cmd_wf s c" and t: "(q, e) \<in> set (cmd_toks c)" and nz: "0 \<notin> set s"
  shows "cstr_at (nulterminate c (s @ [0])) q = take (e - q) (drop q s)"
proof -
  let ?b = "nulterminate c (s @ [0])"
  have w: "q < e" "e \<le> length s" "\<And>j. q \<le> j \<Longrightarrow> j < e \<Longrightarrow> is_word (s ! j)"
    using cmd_wf_toks [OF wf t] by (auto simp: word_tok_def)
  have safe: "j \<notin> snd ` set (cmd_toks c)" if "q \<le> j" "j < e" for j
  proof
    assume "j \<in> snd ` set (cmd_toks c)"
    then obtain q' where "(q', j) \<in> set (cmd_toks c)" by auto
    then show False using cmd_wf_toks [OF wf] w(2) w(3) [OF that] that by (fastforce simp: word_tok_def)
  qed
  have b: "?b ! j = s ! j" if "q \<le> j" "j < e" for j
    using safe [OF that] w(2) that by (simp add: nulterminate_nth nth_append)
  have "cstr_at ?b q = take (e - q) (drop q ?b)" unfolding cstr_at_def
  proof (rule takeWhile_prefix)
    show "q + (e - q) < length ?b" using w by simp
    show "?b ! (q + j) \<noteq> 0" if "j < e - q" for j
    proof -
      have j: "q \<le> q + j" "q + j < e" using that by simp_all
      then have "s ! (q + j) \<in> set s" using w(2) by simp
      then show ?thesis using b [OF j] nz by metis
    qed
    have "e \<in> snd ` set (cmd_toks c)" using t by force
    then show "?b ! (q + (e - q)) = 0" using w by (simp add: nulterminate_nth)
  qed
  also have "\<dots> = take (e - q) (drop q s)"
    using w b by (intro nth_equalityI) simp_all
  finally show ?thesis .
qed

section \<open>Properties\<close>

text \<open>C23: The parser of the shell returns for every line without a NUL byte: its recursion ends (the bound
  of four steps per remaining character and four more is enough), and it either panics with a message
  or gives a command in which every string, terminated in place in the line buffer, reads back as
  exactly the word the scanner delimited - terminating one word never damages another. Every word
  is a non-empty run of characters that are neither blank nor shell symbols.\<close>

theorem parsecmd_words_terminated:
  assumes "0 \<notin> set s"
  shows "parsecmd s \<noteq> Stuck \<and>
    (\<forall>c buf q e. parsecmd s = Done (c, buf) \<and> (q, e) \<in> set (cmd_toks c) \<longrightarrow>
       q < e \<and> e \<le> length s \<and> list_all is_word (take (e - q) (drop q s)) \<and>
       cstr_at buf q = take (e - q) (drop q s))"
proof -
  have post: "parse_post s 0 (parseline (parse_fuel s) s 0)"
    by (rule parse_all_post(1)) (simp_all add: parse_fuel_def)
  show ?thesis
  proof (cases "parseline (parse_fuel s) s 0")
    case (Done x)
    obtain c p where x: "x = (c, p)" by (metis surj_pair)
    have wf: "cmd_wf s c" using post by (simp add: Done x)
    have tok: "q < e \<and> e \<le> length s \<and> list_all is_word (take (e - q) (drop q s))"
      if "(q, e) \<in> set (cmd_toks c)" for q e
      using cmd_wf_toks [OF wf that] by (auto simp: word_tok_def list_all_length)
    show ?thesis
      using tok nulterminate_token [OF wf _ assms]
      by (auto simp: parsecmd_def Done x split: prod.splits if_splits)
  qed (use post in \<open>auto simp: parsecmd_def\<close>)
qed

text \<open>The line \<open>a < b | c\<close>.\<close>

theorem parsecmd_words_terminated_witness:
  "0 \<notin> set ([97, 32, 60, 32, 98, 124, 99] :: byte list) \<and> parsecmd [97, 32, 60, 32, 98, 124, 99] \<noteq> Stuck"
  using parsecmd_words_terminated [of "[97, 32, 60, 32, 98, 124, 99]"] by simp

lemma append_rest_ok:
  "n < nbuf \<Longrightarrow> length buf = nbuf \<Longrightarrow>
   \<exists>buf' n'. append_rest cs nbuf buf n = Some (buf', n') \<and> length buf' = nbuf \<and> n' < nbuf"
  by (induction cs nbuf buf n rule: append_rest.induct) (auto simp: put_def)

lemma autocomplete_ok:
  assumes "n < nbuf" "length buf = nbuf"
  shows "\<exists>buf' n' o'. autocomplete stat_ok dot nbuf buf n = Some (buf', n', o') \<and> length buf' = nbuf \<and> n' < nbuf"
proof (cases "n - word_start buf n = 0 \<or> dot = None")
  case True
  then show ?thesis using assms by (auto simp: autocomplete_def Let_def)
next
  case False
  then obtain ds where ds: "dot = Some ds" by auto
  let ?plen = "if n - word_start buf n > DIRSIZ then DIRSIZ else n - word_start buf n"
  show ?thesis
  proof (cases "first_match stat_ok ds (take ?plen (drop (word_start buf n) buf)) ?plen")
    case None
    then show ?thesis using assms ds by (simp add: autocomplete_def Let_def)
  next
    case (Some name)
    obtain buf' n' where "append_rest (drop ?plen name) nbuf buf n = Some (buf', n')"
      "length buf' = nbuf" "n' < nbuf" using append_rest_ok [OF assms] by metis
    then show ?thesis using False ds Some by (auto simp: autocomplete_def Let_def put_def)
  qed
qed

lemma readline_ok:
  "n < nbuf \<Longrightarrow> length buf = nbuf \<Longrightarrow>
   \<exists>r buf' out' rest. readline stat_ok dot nbuf input buf n out = Some (r, buf', out', rest) \<and>
     length buf' = nbuf \<and> (r = -1 \<and> buf' ! 0 = 0 \<or> 0 \<le> r \<and> nat r < nbuf \<and> buf' ! nat r = 0)"
proof (induction input arbitrary: buf n out)
  case Nil
  then show ?case by (auto simp: put_def)
next
  case (Cons c0 input)
  show ?case
  proof (cases "n + 1 < nbuf \<and> c0 = 9")
    case True
    obtain buf' n' o' where "autocomplete stat_ok dot nbuf buf n = Some (buf', n', o')"
      "length buf' = nbuf" "n' < nbuf" using autocomplete_ok [OF Cons.prems] by blast
    then show ?thesis using True Cons.IH by simp
  next
    case False
    then show ?thesis using Cons by (auto simp: put_def Let_def nat_add_distrib)
  qed
qed

text \<open>C27: The line editor of the shell stays inside its buffer for every input, every directory and every
  outcome of \<open>stat\<close>, completions and backspaces included: each store is in range, and when \<open>getcmd\<close>
  returns 0 the buffer holds a NUL-terminated string that is not empty.\<close>

theorem getcmd_in_bounds:
  assumes "0 < nbuf"
  shows "\<exists>r buf out rest. getcmd stat_ok dot nbuf input = Some (r, buf, out, rest) \<and> length buf = nbuf \<and>
    (r = 0 \<and> cstr_at buf 0 \<noteq> [] \<and> length (cstr_at buf 0) < nbuf \<or> r = -1)"
proof -
  obtain r buf' out' rest where
    rd: "readline stat_ok dot nbuf input (replicate nbuf 0) 0 [36, 32] = Some (r, buf', out', rest)"
    and len: "length buf' = nbuf"
    and fin: "r = -1 \<and> buf' ! 0 = 0 \<or> 0 \<le> r \<and> nat r < nbuf \<and> buf' ! nat r = 0"
    using readline_ok [of 0 nbuf "replicate nbuf 0"] assms by fastforce
  have "length (takeWhile (\<lambda>c. c \<noteq> 0) buf') < nbuf" if "0 \<le> r"
  proof -
    have "buf' ! nat r = 0" "nat r < nbuf" using fin that by auto
    then have "\<exists>x\<in>set buf'. \<not> (x \<noteq> 0)" using len nth_mem by metis
    then have "takeWhile (\<lambda>c. c \<noteq> 0) buf' \<noteq> buf'" by (simp add: takeWhile_eq_all_conv)
    then show ?thesis using len takeWhile_eq_take [of "\<lambda>c. c \<noteq> 0" buf'] by (metis not_less take_all)
  qed
  moreover have "takeWhile (\<lambda>c. c \<noteq> 0) buf' \<noteq> []" if "hd0 buf' \<noteq> 0"
    using that by (cases buf') (simp_all add: hd0_def)
  ultimately show ?thesis using len by (auto simp: getcmd_def rd cstr_at_def)
qed

text \<open>A buffer of six bytes, the input \<open>a TAB newline\<close> and a directory with the file \<open>abc\<close>.\<close>

theorem getcmd_in_bounds_witness:
  "0 < (6 :: nat) \<and> (\<exists>r buf out rest. getcmd (\<lambda>_. True) (Some [(1, [97, 98, 99, 0])]) 6 [97, 9, 10] =
     Some (r, buf, out, rest) \<and> length buf = 6)"
  using getcmd_in_bounds [of 6 "\<lambda>_. True" "Some [(1, [97, 98, 99, 0])]" "[97, 9, 10]"] by auto

end
