(* ===== verification/Grep.thy ===== *)
theory Grep
  imports Prelude
begin

text \<open>
  The user program \<^verbatim>\<open>grep.c\<close>: the matcher for patterns with \<open>^ . * $\<close> and the loop over the input.

  A C string is the list of its bytes before the terminating NUL, so that \<open>re[0] == '\0'\<close> is the
  empty list. The matcher is compared with a declarative reading of the pattern as a list of items.
\<close>

section \<open>The matcher\<close>

text \<open>Character codes of \<open>*\<close>, \<open>.\<close>, \<open>$\<close>, \<open>^\<close> and newline.\<close>

abbreviation star_ch :: byte where "star_ch \<equiv> 42"
abbreviation dot_ch :: byte where "dot_ch \<equiv> 46"
abbreviation dollar_ch :: byte where "dollar_ch \<equiv> 36"
abbreviation caret_ch :: byte where "caret_ch \<equiv> 94"
abbreviation nl_ch :: byte where "nl_ch \<equiv> 10"

function matchhere :: "byte list \<Rightarrow> byte list \<Rightarrow> bool"
  and matchstar :: "byte \<Rightarrow> byte list \<Rightarrow> byte list \<Rightarrow> bool" where
  "matchhere re tx =
     (if re = [] then True
      else if tl re \<noteq> [] \<and> hd (tl re) = star_ch then matchstar (hd re) (tl (tl re)) tx
      else if hd re = dollar_ch \<and> tl re = [] then tx = []
      else if tx \<noteq> [] \<and> (hd re = dot_ch \<or> hd re = hd tx) then matchhere (tl re) (tl tx)
      else False)"
| "matchstar c re tx =
     (if matchhere re tx then True
      else if tx \<noteq> [] \<and> (hd tx = c \<or> c = dot_ch) then matchstar c re (tl tx)
      else False)"
  by pat_completeness auto
termination
  by (relation "measures [case_sum (\<lambda>(re, t). length re + length t) (\<lambda>(c, re, t). length re + length t),
    case_sum (\<lambda>_. 0) (\<lambda>_. 1)]") (auto simp: neq_Nil_conv)

declare matchhere.simps [simp del] matchstar.simps [simp del]

text \<open>The search loop of \<open>match\<close>: every suffix of the text, the empty one included.\<close>

fun match_any :: "byte list \<Rightarrow> byte list \<Rightarrow> bool" where
  "match_any re [] = matchhere re []"
| "match_any re (x # xs) = (if matchhere re (x # xs) then True else match_any re xs)"

definition match :: "byte list \<Rightarrow> byte list \<Rightarrow> bool" where
  "match re tx =
     (if re \<noteq> [] \<and> hd re = caret_ch then matchhere (tl re) tx else match_any re tx)"

section \<open>The input loop\<close>

text \<open>\<open>strchr\<close> on the bytes of a buffer: it stops at a NUL in the data and at the end.\<close>

fun strchr_idx :: "byte \<Rightarrow> byte list \<Rightarrow> nat option" where
  "strchr_idx c [] = None"
| "strchr_idx c (x # xs) =
     (if x = 0 then None else if x = c then Some 0 else map_option Suc (strchr_idx c xs))"

text \<open>
  The inner loop: \<open>p\<close> is what is left of the buffer, \<open>out\<close> what has been written. The line handed
  to \<open>match\<close> ends at the newline, which is overwritten by NUL for the call.
\<close>

function grep_lines :: "byte list \<Rightarrow> byte list \<Rightarrow> byte list \<Rightarrow> byte list \<times> byte list" where
  "grep_lines pattern p out =
     (case strchr_idx nl_ch p of None \<Rightarrow> (p, out)
      | Some k \<Rightarrow> grep_lines pattern (drop (Suc k) p)
          (out @ (if match pattern (take k p) then take (Suc k) p else [])))"
  by pat_completeness auto

lemma strchr_idx_bound: "strchr_idx c xs = Some k \<Longrightarrow> k < length xs"
  by (induction c xs arbitrary: k rule: strchr_idx.induct) (auto split: if_splits)

termination grep_lines
  by (relation "measure (\<lambda>(pat, p, out). length p)") (auto dest: strchr_idx_bound)

declare grep_lines.simps [simp del]

text \<open>
  The outer loop, for the successive results of \<open>read\<close>: \<open>kept\<close> are the \<open>m\<close> bytes at the start of
  the buffer. A read returns at most \<open>sizeof(buf) - m - 1\<close> bytes; the loop stops at the first
  empty one.
\<close>

definition grep_bufsize :: nat where "grep_bufsize = 1024"

fun grep_loop :: "byte list \<Rightarrow> byte list list \<Rightarrow> byte list \<Rightarrow> byte list \<Rightarrow> byte list option" where
  "grep_loop pattern [] kept out = Some out"
| "grep_loop pattern (chunk # reads) kept out =
     (if length chunk > grep_bufsize - length kept - 1 then None
      else if chunk = [] then Some out
      else
        let buf = kept @ chunk;
            (p, out) = grep_lines pattern buf out
        in grep_loop pattern reads (if p = buf then [] else p) out)"

definition grep :: "byte list \<Rightarrow> byte list list \<Rightarrow> byte list option" where
  "grep pattern reads = grep_loop pattern reads [] []"

section \<open>Patterns as lists of items\<close>

datatype atom = Any | Lit byte
datatype item = One atom | Star atom | End

definition atom_of :: "byte \<Rightarrow> atom" where
  "atom_of c = (if c = dot_ch then Any else Lit c)"

fun parse_re :: "byte list \<Rightarrow> item list" where
  "parse_re [] = []"
| "parse_re [c] = [if c = dollar_ch then End else One (atom_of c)]"
| "parse_re (c # d # re) =
     (if d = star_ch then Star (atom_of c) # parse_re re else One (atom_of c) # parse_re (d # re))"

fun atom_ok :: "atom \<Rightarrow> byte \<Rightarrow> bool" where
  "atom_ok Any x = True"
| "atom_ok (Lit c) x \<longleftrightarrow> x = c"

text \<open>A prefix of the text is described by the items; \<open>End\<close> asks for the end of the text.\<close>

inductive item_match :: "item list \<Rightarrow> byte list \<Rightarrow> bool" where
  nil: "item_match [] t"
| one: "atom_ok a x \<Longrightarrow> item_match ix t \<Longrightarrow> item_match (One a # ix) (x # t)"
| star: "list_all (atom_ok a) p \<Longrightarrow> item_match ix t \<Longrightarrow> item_match (Star a # ix) (p @ t)"
| fin: "item_match ix [] \<Longrightarrow> item_match (End # ix) []"

inductive_simps item_match_simps:
  "item_match [] t" "item_match (One a # ix) t" "item_match (Star a # ix) t" "item_match (End # ix) t"

lemma item_match_star_Nil: "item_match (Star a # ix) [] \<longleftrightarrow> item_match ix []"
  by (auto simp: item_match_simps)

lemma item_match_star_Cons:
  "item_match (Star a # ix) (x # t) \<longleftrightarrow> item_match ix (x # t) \<or> atom_ok a x \<and> item_match (Star a # ix) t"
proof
  assume "item_match (Star a # ix) (x # t)"
  then obtain p u where p: "x # t = p @ u" "list_all (atom_ok a) p" "item_match ix u"
    by (auto simp: item_match_simps)
  then show "item_match ix (x # t) \<or> atom_ok a x \<and> item_match (Star a # ix) t"
    by (cases p) (auto intro: item_match.star)
next
  assume "item_match ix (x # t) \<or> atom_ok a x \<and> item_match (Star a # ix) t"
  then show "item_match (Star a # ix) (x # t)"
  proof
    assume "item_match ix (x # t)"
    then show ?thesis using item_match.star [of a "[]"] by simp
  next
    assume h: "atom_ok a x \<and> item_match (Star a # ix) t"
    then obtain p u where "t = p @ u" "list_all (atom_ok a) p" "item_match ix u"
      by (auto simp: item_match_simps)
    then show ?thesis using h item_match.star [of a "x # p" ix u] by simp
  qed
qed

lemma atom_ok_of: "atom_ok (atom_of c) x \<longleftrightarrow> c = dot_ch \<or> c = x"
  by (auto simp: atom_of_def)

lemma matchhere_items:
  "matchhere re tx \<longleftrightarrow> item_match (parse_re re) tx"
  "matchstar c re tx \<longleftrightarrow> item_match (Star (atom_of c) # parse_re re) tx"
proof (induction re tx and c re tx rule: matchhere_matchstar.induct)
  case (1 re tx)
  show ?case
  proof (cases re rule: parse_re.cases)
    case 1
    then show ?thesis by (simp add: matchhere.simps item_match_simps)
  next
    case (2 c)
    then show ?thesis using "1.IH" by (cases tx)
        (auto simp: matchhere.simps [of "[c]"] matchhere.simps [of "[]"] item_match_simps atom_ok_of)
  next
    case (3 c d re')
    then show ?thesis using "1.IH"
      by (cases tx) (auto simp: matchhere.simps [of "c # d # re'"] item_match_simps(2) atom_ok_of)
  qed
next
  case (2 c re tx)
  then show ?case
    by (cases tx) (auto simp: matchstar.simps item_match_star_Nil item_match_star_Cons atom_ok_of)
qed

lemma match_any_suffix: "match_any re tx \<longleftrightarrow> (\<exists>p t. tx = p @ t \<and> matchhere re t)"
proof (induction re tx rule: match_any.induct)
  case (2 re x xs)
  show ?case
  proof
    assume "match_any re (x # xs)"
    then show "\<exists>p t. x # xs = p @ t \<and> matchhere re t"
      using 2 by (auto split: if_splits intro: exI [of _ "[]"]) (metis append_Cons)
  next
    assume "\<exists>p t. x # xs = p @ t \<and> matchhere re t"
    then obtain p t where "x # xs = p @ t" "matchhere re t" by blast
    then show "match_any re (x # xs)" using 2 by (cases p) auto
  qed
qed simp

section \<open>Properties\<close>

text \<open>C24: The matcher of \<open>grep\<close> decides exactly the declarative reading of its patterns: a pattern
  matches a line when some part of the line (the start, for a pattern with a leading caret) is
  described by its items in order - a literal or any byte, a starred item any number of times, and
  a final dollar the end of the line. The recursion terminates for every pattern and line.\<close>

theorem match_decides_pattern:
  "match re tx \<longleftrightarrow>
     (if re \<noteq> [] \<and> hd re = caret_ch then item_match (parse_re (tl re)) tx
      else \<exists>p t. tx = p @ t \<and> item_match (parse_re re) t)"
  by (simp add: match_def match_any_suffix matchhere_items(1))

lemma strchr_idx_None: "nl_ch \<notin> set xs \<Longrightarrow> strchr_idx nl_ch xs = None"
  by (induction xs) auto

lemma strchr_idx_line:
  "nl_ch \<notin> set line \<Longrightarrow> 0 \<notin> set line \<Longrightarrow> strchr_idx nl_ch (line @ nl_ch # xs) = Some (length line)"
  by (induction line) auto

lemma grep_one_line:
  assumes "nl_ch \<notin> set line" "0 \<notin> set line" "length line < 1023"
  shows "grep pattern [line @ [nl_ch]] = Some (if match pattern line then line @ [nl_ch] else [])"
  using assms by (simp add: grep_def grep_bufsize_def grep_lines.simps strchr_idx_line)

lemma grep_unfinished:
  assumes "nl_ch \<notin> set chunk" "chunk \<noteq> []" "length chunk \<le> 1023"
  shows "grep pattern (chunk # reads) = grep pattern reads"
  using assms by (simp add: grep_def grep_bufsize_def grep_lines.simps strchr_idx_None)

text \<open>C31: A read that ends before the first newline is thrown away: whatever the pattern and whatever follows,
  \<open>grep\<close> behaves as if a first read without a newline had not happened. So a line that
  arrives in one read is matched and printed whole, and the same line split over two reads is matched and
  printed without its first part.\<close>

theorem grep_drops_split_line:
  assumes "nl_ch \<notin> set chunk" "nl_ch \<notin> set rest" "0 \<notin> set chunk" "0 \<notin> set rest" "chunk \<noteq> []"
    and "length chunk + length rest < 1023"
  shows "grep pattern (chunk # reads) = grep pattern reads \<and>
    grep pattern [chunk @ rest @ [nl_ch]] =
      Some (if match pattern (chunk @ rest) then chunk @ rest @ [nl_ch] else []) \<and>
    grep pattern [chunk, rest @ [nl_ch]] = Some (if match pattern rest then rest @ [nl_ch] else [])"
  using assms grep_unfinished [of chunk pattern] grep_one_line [of "chunk @ rest" pattern]
    grep_one_line [of rest pattern] by simp

theorem grep_drops_split_line_witness:
  "grep [97] [[97, 98, nl_ch]] = Some [97, 98, nl_ch] \<and> grep [97] [[97], [98, nl_ch]] = Some [] \<and>
   grep [98] [[97], [98, nl_ch]] = Some [98, nl_ch]"
  using grep_drops_split_line [of "[97]" "[98]" "[97]" "[]"] grep_drops_split_line [of "[97]" "[98]" "[98]" "[]"]
  by (simp add: match_def matchhere.simps)

end
