(* ===== verification/Spec2Isabelle.thy ===== *)
theory Spec2Isabelle
  imports NetProps Pci Console Sh Grep
begin

text \<open>
  A verification library for the xv6 kernel with an E1000 network driver and a small UDP stack, the
  sources under \<^verbatim>\<open>src/xv6-public/\<close>. This theory imports all others.

  \<^bold>\<open>The program and how its parts interact.\<close> A user process calls \<open>bind\<close>, \<open>send\<close> or \<open>recv\<close> (\<^verbatim>\<open>net.c\<close>). \<open>send\<close> takes a
  page from the allocator (\<^verbatim>\<open>kalloc.c\<close>), builds an Ethernet, IP and UDP frame in it, copies the payload from the caller through
  its page tables (\<^verbatim>\<open>vm.c\<close>) and puts the page into the transmit ring of the card (\<^verbatim>\<open>e1000.c\<close>). When the card has received frames it
  interrupts; the handler copies each frame to a fresh page and hands it to \<open>net_rx\<close>, which answers the first ARP request or queues a
  UDP packet on its port and wakes the sleeping readers (\<^verbatim>\<open>proc.c\<close>). \<open>recv\<close> takes the oldest packet of its port, sleeping while there is
  none, copies it to the caller with \<open>copyout\<close> and frees its pages. Spin locks (\<^verbatim>\<open>spinlock.c\<close>) protect the allocator, the process table,
  the rings and the port list. Beside this path stand the console with keyboard and serial line, the discovery of the card, and the
  user programs \<open>sh\<close> and \<open>grep\<close>.

  \<^bold>\<open>How code is modelled.\<close> A C function is a function on the state it touches. \<open>None\<close> is a panic or a wait for ever; an
  inner option or a sum type is an error that the code returns. A system call that may sleep returns an \<open>outcome\<close>, \<open>Ret\<close> or \<open>Asleep\<close>, and what it does
  after a wakeup is a definition of its own (\<open>sleep_in\<close>, \<open>recv_resume\<close>). Memory is a function from 64-bit addresses to bytes; structures
  in memory are read and written at their field offsets. Machine integers are words of their width, and a C \<open>int\<close> is read with \<open>sint\<close>
  where its sign matters. Global variables are the fields of a tower of records, each theory adding those of its files: \<open>kstate\<close> (CPU and locks),
  \<open>kmem\<close> (memory and free list), \<open>vm\<close>, \<open>pstate\<close> (processes), \<open>e1000\<close> (registers and rings), \<open>net\<close> (port list and flags) and \<open>console\<close>.
  Loops are structural recursion or functions with a termination proof. Those whose end depends on data in memory or on the card are
  \<open>partial_function (option)\<close>, and the properties about them show that they return: the search for a port because the list of ports is a finite chain,
  \<open>mappages\<close>, \<open>copyout\<close> and \<open>copyin_user\<close> because they advance to the next page in every turn, \<open>e1000_recv\<close> because it takes a done descriptor in every turn,
  and the erasing loops of the console because the line gets shorter. The shell parser has fuel, \<open>4 * length s + 4\<close> for the line \<open>s\<close>; every level of its grammar that
  consumes nothing is followed by one that does, and C23 shows that it never runs out.

  \<^bold>\<open>Theories.\<close>
  \<^item> \<open>Prelude\<close>: types, byte-wise memory access in the machine's byte order, and lemmas on words, lists and ranges that all others use.
  \<^item> \<open>Memlayout\<close> (\<^verbatim>\<open>memlayout.h\<close>, \<^verbatim>\<open>mmu.h\<close>, \<^verbatim>\<open>param.h\<close>): the direct map, page rounding, table indices, page-table flags.
  \<^item> \<open>CString\<close> (\<^verbatim>\<open>string.c\<close>, \<open>stosb\<close> and \<open>stosl\<close> of \<^verbatim>\<open>x86.h\<close>): C20 and C21 say that \<open>memmove\<close> is a simultaneous copy and
    that \<open>safestrcpy\<close> truncates and terminates.
  \<^item> \<open>Spinlock\<close> (\<^verbatim>\<open>spinlock.c\<close>): \<open>acquire\<close>, \<open>release\<close>, \<open>pushcli\<close>, \<open>popcli\<close> for one CPU, and the relation \<open>lock_step\<close> that cuts the first two into
    their atomic steps for any number of CPUs (lemmas \<open>acquire_steps\<close> and \<open>release_steps\<close> connect the two). C18: mutual exclusion. C19: nesting.
  \<^item> \<open>Kalloc\<close> (\<^verbatim>\<open>kalloc.c\<close>): the free list threaded through the free pages refines a stack of distinct pages (C13); the locale \<open>page_pool\<close> is
    what clients may rely on, interpreted on \<open>kalloc\<close> and \<open>kfree\<close> (C14); initialisation frees exactly the pages of its range (C15).
  \<^item> \<open>Pages\<close>: framing of memory by pages, the basis of all ownership arguments.
  \<^item> \<open>Vm\<close> and \<open>Copyout\<close> (\<^verbatim>\<open>vm.c\<close>): four-level page tables in memory, mapping, growing, copying and freeing of address spaces (C16);
    \<open>copyout\<close> against the bytes that the process reads (C12, C17).
  \<^item> \<open>Proc\<close> and \<open>Syscall\<close> (\<^verbatim>\<open>proc.c\<close>, \<^verbatim>\<open>syscall.c\<close>, \<^verbatim>\<open>sysproc.c\<close>): the process table, sleep and wakeup, scheduling turns, system call arguments and
    dispatch.
  \<^item> \<open>E1000\<close> and \<open>Nic\<close> (\<^verbatim>\<open>e1000.c\<close>, \<^verbatim>\<open>e1000_dev.h\<close>): initialisation, transmit, the receive loop and the interrupt handler. The card is not code of the
    repository; \<open>nic_step\<close> states what the driver relies on: it completes transmit descriptors, and writes frames of at most 2048 bytes through receive
    descriptors, between head and tail.
  \<^item> \<open>Net\<close> (\<^verbatim>\<open>net.c\<close>, \<^verbatim>\<open>net.h\<close>): every routine of the stack.
  \<^item> \<open>Ports\<close>, \<open>NetInv\<close>, \<open>NetOps\<close>, \<open>NetRx\<close>, \<open>NetSys\<close>, \<open>NetFrame\<close>, \<open>NetRun\<close>, \<open>NetProps\<close>: the proofs about the driver and the stack. \<open>Ports\<close> relates
    the linked queues in memory to lists of datagrams (\<open>ports_abs\<close>). \<open>NetInv\<close> has the invariant \<open>net_inv s ps qs R\<close>: free pages \<open>ps\<close>, queues \<open>qs\<close>, the pages in the rings,
    and pages \<open>R\<close> in other hands are disjoint. \<open>NetOps\<close>, \<open>NetRx\<close> and \<open>NetSys\<close> show for each operation that it returns, keeps the invariant and the set of pages,
    and what it does to the queued datagrams. \<open>NetFrame\<close> has the frames byte by byte and the checksum. \<open>NetRun\<close> has the interleavings \<open>net_run\<close>, and
    \<open>NetProps\<close> the properties: C1 ownership of pages in every reachable state; C2 delivery of a received packet; C3 and C7 the two outcomes of \<open>recv\<close>; C4 the
    frame that \<open>send\<close> leaves in the ring; C5 the interrupt handler empties the receive ring; C6 no wakeup is lost; C8 \<open>bind\<close>; C9 the checksum; C10 and C11
    two defects.
  \<^item> \<open>Pci\<close> (\<^verbatim>\<open>pci.c\<close>, \<^verbatim>\<open>ioapic.c\<close>): discovery of the card and the interrupt controller, over configuration space and device registers as maps.
  \<^item> \<open>Format\<close> (\<^verbatim>\<open>console.c\<close>, \<^verbatim>\<open>printf.c\<close>, \<open>atoi\<close> of \<^verbatim>\<open>ulib.c\<close>): formatted output (C25, C26).
  \<^item> \<open>Kbd\<close> (\<^verbatim>\<open>kbd.c\<close>, \<^verbatim>\<open>kbd.h\<close>): scan codes to characters (C28).
  \<^item> \<open>Console\<close> (\<^verbatim>\<open>console.c\<close>, \<^verbatim>\<open>uart.c\<close>): screen, input ring and line history (C22); defects C29 and C30.
  \<^item> \<open>Sh\<close> (\<^verbatim>\<open>sh.c\<close>): the parser with in-place termination (C23), the line editor and completion (C27).
  \<^item> \<open>Grep\<close> (\<^verbatim>\<open>grep.c\<close>): the matcher against a declarative meaning of patterns (C24); defect C31.

  \<^bold>\<open>Interleaving.\<close> A run of \<open>net_run\<close> mixes whole system calls and interrupts with their critical sections taken singly, with steps of the card and with
  steps of other parts of the kernel. A critical section is one step: within it the code holds the lock that protects what it touches, and C18 is the reason
  that this is enough. Code outside critical sections only touches pages in its own hands. The lengths with which \<open>send\<close> is called are recorded in the run,
  because C10 shows that a negative one breaks the invariant; C1 asks that there is none.

  \<^bold>\<open>Bounds.\<close> The rings have 16 descriptors and a port queue at most 16 packets, as in the source. The nesting counter of \<open>pushcli\<close> is an integer that
  stands for a C \<open>int\<close> below \<open>2\<^sup>31\<close> (C19). Properties about whole packets cover IP headers without options and payloads of at most 1500 bytes, the
  limit of \<open>recv\<close>; the invariants cover every frame.

  \<^bold>\<open>Not modelled.\<close> Boot code, assembly, trap entry, local APIC and multiprocessor tables: they only establish the states from which the modelled code
  starts. The file system, its log, buffer cache, pipes, \<open>exec\<close> and the disk drivers, and with them the file part of \<open>fork\<close> and \<open>exit\<close> and the \<open>devsw\<close> entries of
  the console: the network code does not use them. Segment and MSR set-up in \<^verbatim>\<open>vm.c\<close>, and the baud-rate set-up in \<^verbatim>\<open>uart.c\<close>. The call stacks that \<open>acquire\<close> records for
  debugging. Strings in logged messages and the listing of \<open>procdump\<close>. Weak memory ordering: steps of CPUs interleave. Test
  programs, \<open>umalloc\<close> and the remaining user programs.
\<close>

end
